(* ===== verification/Omni_Prelude.thy ===== *)
theory Omni_Prelude
  imports Main "HOL-Library.Word" "HOL-Library.Monad_Syntax" "HOL-Library.Code_Target_Nat"
begin

text \<open>
  The shared vocabulary of the development: Rust strings and their operations, decimal
  numbers, Rust results, SQL tables as lists of rows, and the two interfaces
  (an invariant system, a bounded window) that several components provide.

  A Rust \<open>&str\<close> is a list of Unicode scalar values (\<open>ustr\<close>), so \<open>chars()\<close> is the list
  itself and \<open>len()\<close>, which counts UTF-8 bytes, is \<open>byte_len\<close>. Text the code only
  stores and compares (identifiers, tokens of a CHECK constraint) is a HOL \<open>string\<close>.
\<close>

subsection \<open>Rust strings\<close>

type_synonym uchar = nat

type_synonym ustr = "uchar list"

definition str :: "string \<Rightarrow> ustr" where
  "str s = map of_char s"

text \<open>\<open>char::is_whitespace\<close>: the Unicode property \<open>White_Space\<close>.\<close>

definition is_whitespace :: "uchar \<Rightarrow> bool" where
  "is_whitespace c \<longleftrightarrow>
     (9 \<le> c \<and> c \<le> 13) \<or> c = 32 \<or> c = 133 \<or> c = 160 \<or> c = 5760 \<or>
     (8192 \<le> c \<and> c \<le> 8202) \<or> c = 8232 \<or> c = 8233 \<or> c = 8239 \<or> c = 8287 \<or> c = 12288"

text \<open>\<open>char::is_control\<close>: the general category \<open>Cc\<close>.\<close>

definition is_control :: "uchar \<Rightarrow> bool" where
  "is_control c \<longleftrightarrow> c < 32 \<or> (127 \<le> c \<and> c < 160)"

definition is_ascii_digit :: "uchar \<Rightarrow> bool" where
  "is_ascii_digit c \<longleftrightarrow> 48 \<le> c \<and> c \<le> 57"

definition is_ascii_alphabetic :: "uchar \<Rightarrow> bool" where
  "is_ascii_alphabetic c \<longleftrightarrow> (65 \<le> c \<and> c \<le> 90) \<or> (97 \<le> c \<and> c \<le> 122)"

definition is_ascii_alphanumeric :: "uchar \<Rightarrow> bool" where
  "is_ascii_alphanumeric c \<longleftrightarrow> is_ascii_alphabetic c \<or> is_ascii_digit c"

definition is_ascii_hexdigit :: "uchar \<Rightarrow> bool" where
  "is_ascii_hexdigit c \<longleftrightarrow>
     is_ascii_digit c \<or> (65 \<le> c \<and> c \<le> 70) \<or> (97 \<le> c \<and> c \<le> 102)"

definition is_ascii :: "ustr \<Rightarrow> bool" where
  "is_ascii s \<longleftrightarrow> list_all (\<lambda>c. c < 128) s"

definition to_ascii_lowercase :: "ustr \<Rightarrow> ustr" where
  "to_ascii_lowercase s = map (\<lambda>c. if 65 \<le> c \<and> c \<le> 90 then c + 32 else c) s"

text \<open>\<open>COLLATE NOCASE\<close> folds the 26 ASCII letters.\<close>

definition nocase_eq :: "ustr \<Rightarrow> ustr \<Rightarrow> bool" where
  "nocase_eq a b \<longleftrightarrow> to_ascii_lowercase a = to_ascii_lowercase b"

text \<open>\<open>c.to_digit(10)\<close>.\<close>

definition to_digit :: "uchar \<Rightarrow> nat option" where
  "to_digit c = (if is_ascii_digit c then Some (c - 48) else None)"

definition utf8_len :: "uchar \<Rightarrow> nat" where
  "utf8_len c = (if c < 128 then 1 else if c < 2048 then 2 else if c < 65536 then 3 else 4)"

text \<open>\<open>str::len\<close> counts bytes of the UTF-8 encoding.\<close>

definition byte_len :: "ustr \<Rightarrow> nat" where
  "byte_len s = sum_list (map utf8_len s)"

definition trim_by :: "(uchar \<Rightarrow> bool) \<Rightarrow> ustr \<Rightarrow> ustr" where
  "trim_by P s = rev (dropWhile P (rev (dropWhile P s)))"

abbreviation trim :: "ustr \<Rightarrow> ustr" where
  "trim s \<equiv> trim_by is_whitespace s"

definition trim_end_matches :: "uchar \<Rightarrow> ustr \<Rightarrow> ustr" where
  "trim_end_matches c s = rev (dropWhile (\<lambda>x. x = c) (rev s))"

fun strip_prefix :: "ustr \<Rightarrow> ustr \<Rightarrow> ustr option" where
  "strip_prefix [] s = Some s"
| "strip_prefix (p # ps) [] = None"
| "strip_prefix (p # ps) (c # cs) = (if p = c then strip_prefix ps cs else None)"

definition strip_suffix :: "ustr \<Rightarrow> ustr \<Rightarrow> ustr option" where
  "strip_suffix p s = map_option rev (strip_prefix (rev p) (rev s))"

definition starts_with :: "ustr \<Rightarrow> ustr \<Rightarrow> bool" where
  "starts_with p s \<longleftrightarrow> strip_prefix p s \<noteq> None"

definition ends_with :: "ustr \<Rightarrow> ustr \<Rightarrow> bool" where
  "ends_with p s \<longleftrightarrow> strip_suffix p s \<noteq> None"

text \<open>\<open>str::contains\<close> with a string pattern.\<close>

fun contains_str :: "ustr \<Rightarrow> ustr \<Rightarrow> bool" where
  "contains_str p [] \<longleftrightarrow> p = []"
| "contains_str p (c # cs) \<longleftrightarrow> starts_with p (c # cs) \<or> contains_str p cs"

text \<open>\<open>str::split(char)\<close>: the separators cut the string, and there is always a piece.\<close>

fun split_on :: "uchar \<Rightarrow> ustr \<Rightarrow> ustr list" where
  "split_on d [] = [[]]"
| "split_on d (c # cs) =
     (if c = d then [] # split_on d cs
      else case split_on d cs of [] \<Rightarrow> [[c]] | p # ps \<Rightarrow> (c # p) # ps)"

fun split_once :: "uchar \<Rightarrow> ustr \<Rightarrow> (ustr \<times> ustr) option" where
  "split_once d [] = None"
| "split_once d (c # cs) =
     (if c = d then Some ([], cs)
      else map_option (\<lambda>(a, b). (c # a, b)) (split_once d cs))"

definition rsplit_once :: "uchar \<Rightarrow> ustr \<Rightarrow> (ustr \<times> ustr) option" where
  "rsplit_once d s = map_option (\<lambda>(a, b). (rev b, rev a)) (split_once d (rev s))"

text \<open>\<open>str::split_once\<close> with a string pattern.\<close>

fun split_once_str :: "ustr \<Rightarrow> ustr \<Rightarrow> (ustr \<times> ustr) option" where
  "split_once_str p [] = (if p = [] then Some ([], []) else None)"
| "split_once_str p (c # cs) =
     (case strip_prefix p (c # cs) of
        Some rest \<Rightarrow> Some ([], rest)
      | None \<Rightarrow> map_option (\<lambda>(a, b). (c # a, b)) (split_once_str p cs))"

lemma dropWhile_id: "s \<noteq> [] \<Longrightarrow> \<not> P (hd s) \<Longrightarrow> dropWhile P s = s"
  by (cases s) auto

lemma trim_by_id: "s \<noteq> [] \<Longrightarrow> \<not> P (hd s) \<Longrightarrow> \<not> P (last s) \<Longrightarrow> trim_by P s = s"
  by (simp add: trim_by_def dropWhile_id hd_rev)

lemma trim_by_none: "\<forall>c \<in> set s. \<not> P c \<Longrightarrow> trim_by P s = s"
  by (cases "s = []") (simp add: trim_by_def, simp add: trim_by_id)

lemma strip_prefix_append [simp]: "strip_prefix p (p @ s) = Some s"
  by (induction p) auto

lemma strip_prefix_Some: "strip_prefix p s = Some r \<longleftrightarrow> s = p @ r"
  by (induction p s rule: strip_prefix.induct) auto

lemma split_once_app [simp]: "d \<notin> set p \<Longrightarrow> split_once d (p @ d # s) = Some (p, s)"
  by (induction p) auto

lemma split_once_Some: "split_once d s = Some (a, b) \<longleftrightarrow> s = a @ d # b \<and> d \<notin> set a"
proof (induction s arbitrary: a)
  case (Cons c cs)
  then show ?case by (cases a) auto
qed simp

lemma split_once_None: "split_once d s = None \<longleftrightarrow> d \<notin> set s"
  by (induction s) auto

lemma digit_not_space: "is_ascii_digit c \<Longrightarrow> \<not> is_whitespace c"
  by (auto simp: is_ascii_digit_def is_whitespace_def)

subsection \<open>Decimal numbers\<close>

fun show_nat :: "nat \<Rightarrow> ustr" where
  "show_nat n = (if n < 10 then [48 + n] else show_nat (n div 10) @ [48 + n mod 10])"

declare show_nat.simps [simp del]

definition show_int :: "int \<Rightarrow> ustr" where
  "show_int i = (if i < 0 then 45 # show_nat (nat (- i)) else show_nat (nat i))"

definition digits_value :: "ustr \<Rightarrow> nat" where
  "digits_value s = foldl (\<lambda>a c. 10 * a + (c - 48)) 0 s"

text \<open>
  \<open>str::parse\<close> for an unsigned type of the given width: an optional \<open>+\<close>, then at least
  one ASCII digit, and a value that fits.
\<close>

definition parse_digits :: "nat \<Rightarrow> ustr \<Rightarrow> nat option" where
  "parse_digits w s =
     (if s \<noteq> [] \<and> list_all is_ascii_digit s \<and> digits_value s < 2 ^ w
      then Some (digits_value s) else None)"

definition parse_uint :: "nat \<Rightarrow> ustr \<Rightarrow> nat option" where
  "parse_uint w s = (case s of [] \<Rightarrow> None | c # cs \<Rightarrow> parse_digits w (if c = 43 then cs else s))"

lemma show_nat_nonempty [simp]: "show_nat n \<noteq> []"
  by (subst show_nat.simps) simp

lemma is_ascii_digit_add [simp]: "is_ascii_digit (48 + d) \<longleftrightarrow> d < 10"
  by (auto simp: is_ascii_digit_def)

lemma show_nat_digits: "list_all is_ascii_digit (show_nat n)"
proof (induction n rule: show_nat.induct)
  case (1 n)
  then show ?case
    by (subst show_nat.simps) auto
qed

lemma show_nat_digit: "c \<in> set (show_nat n) \<Longrightarrow> is_ascii_digit c"
  using show_nat_digits [of n] by (auto simp: list_all_iff)

lemma show_nat_no_sep [simp]: "44 \<notin> set (show_nat n)" "45 \<notin> set (show_nat n)"
  using show_nat_digit [of 44 n] show_nat_digit [of 45 n] by (auto simp: is_ascii_digit_def)

lemma digits_value_snoc: "digits_value (s @ [c]) = 10 * digits_value s + (c - 48)"
  by (simp add: digits_value_def)

lemma digits_value_show_nat [simp]: "digits_value (show_nat n) = n"
proof (induction n rule: show_nat.induct)
  case (1 n)
  show ?case
  proof (cases "n < 10")
    case True
    then show ?thesis by (subst show_nat.simps) (simp add: digits_value_def)
  next
    case False
    with 1 show ?thesis by (subst show_nat.simps) (simp add: digits_value_snoc)
  qed
qed

lemma parse_digits_show_nat [simp]: "n < 2 ^ w \<Longrightarrow> parse_digits w (show_nat n) = Some n"
  by (simp add: parse_digits_def show_nat_digits)

lemma parse_uint_show_nat [simp]: "n < 2 ^ w \<Longrightarrow> parse_uint w (show_nat n) = Some n"
proof -
  assume n: "n < 2 ^ w"
  obtain c cs where s: "show_nat n = c # cs" by (cases "show_nat n") auto
  have "c \<noteq> 43" using show_nat_digit [of c n] s by (auto simp: is_ascii_digit_def)
  with n s show ?thesis
    using parse_digits_show_nat [OF n] by (simp add: parse_uint_def)
qed

lemma parse_uint_bound: "parse_uint w s = Some n \<Longrightarrow> n < 2 ^ w"
  by (auto simp: parse_uint_def parse_digits_def split: list.splits if_splits)

lemma parse_digits_bound: "parse_digits w s = Some n \<Longrightarrow> n < 2 ^ w"
  by (auto simp: parse_digits_def split: if_splits)

lemma option_eqI: "(\<And>x. a = Some x \<longleftrightarrow> b = Some x) \<Longrightarrow> a = b"
  by (cases a; cases b) auto

lemma option_NoneI: "(\<And>x. a \<noteq> Some x) \<Longrightarrow> a = None"
  by (cases a) auto

subsection \<open>Ordered maps\<close>

text \<open>A \<open>BTreeMap\<close> with numeric keys: the association list in key order.\<close>

fun bt_insert :: "nat \<Rightarrow> 'v \<Rightarrow> (nat \<times> 'v) list \<Rightarrow> (nat \<times> 'v) list" where
  "bt_insert k v [] = [(k, v)]"
| "bt_insert k v ((k', v') # m) =
     (if k < k' then (k, v) # (k', v') # m
      else if k = k' then (k, v) # m
      else (k', v') # bt_insert k v m)"

definition bt_update :: "nat \<Rightarrow> ('v \<Rightarrow> 'v) \<Rightarrow> (nat \<times> 'v) list \<Rightarrow> (nat \<times> 'v) list" where
  "bt_update k f m = map (\<lambda>(k', v). (k', if k' = k then f v else v)) m"

definition bt_retain :: "('v \<Rightarrow> bool) \<Rightarrow> (nat \<times> 'v) list \<Rightarrow> (nat \<times> 'v) list" where
  "bt_retain P m = filter (\<lambda>(_, v). P v) m"

definition bt_ok :: "(nat \<times> 'v) list \<Rightarrow> bool" where
  "bt_ok m \<longleftrightarrow> sorted_wrt (<) (map fst m)"

lemma bt_ok_distinct: "bt_ok m \<Longrightarrow> distinct (map fst m)"
  by (simp add: bt_ok_def strict_sorted_iff)

lemma set_bt_insert: "fst ` set (bt_insert k v m) = insert k (fst ` set m)"
  by (induction k v m rule: bt_insert.induct) auto

lemma bt_ok_insert: "bt_ok m \<Longrightarrow> bt_ok (bt_insert k v m)"
proof (induction k v m rule: bt_insert.induct)
  case (2 k v k' v' m)
  have "set (map fst (bt_insert k v m)) = insert k (set (map fst m))"
    using set_bt_insert [of k v m] by simp
  with 2 show ?case by (auto simp: bt_ok_def)
qed (simp add: bt_ok_def)

lemma map_of_bt_insert: "bt_ok m \<Longrightarrow> map_of (bt_insert k v m) = (map_of m)(k \<mapsto> v)"
proof (induction k v m rule: bt_insert.induct)
  case (2 k v k' v' m)
  then have "k < k' \<Longrightarrow> map_of m k = None" by (force simp: bt_ok_def map_of_eq_None_iff)
  with 2 show ?case by (auto simp: bt_ok_def fun_eq_iff)
qed simp

lemma bt_ok_update: "bt_ok m \<Longrightarrow> bt_ok (bt_update k f m)"
proof -
  have "map fst (bt_update k f m) = map fst m" by (auto simp: bt_update_def)
  then show "bt_ok m \<Longrightarrow> bt_ok (bt_update k f m)" by (simp add: bt_ok_def)
qed

lemma map_of_bt_update:
  "map_of (bt_update k f m) i = (if i = k then map_option f (map_of m i) else map_of m i)"
  by (induction m) (auto simp: bt_update_def)

lemma bt_ok_retain: "bt_ok m \<Longrightarrow> bt_ok (bt_retain P m)"
  by (simp add: bt_ok_def bt_retain_def sorted_wrt_map sorted_wrt_filter)

lemma map_of_bt_retain:
  "bt_ok m \<Longrightarrow> map_of (bt_retain P m) i =
     (case map_of m i of Some v \<Rightarrow> if P v then Some v else None | None \<Rightarrow> None)"
proof -
  assume "bt_ok m"
  then have d: "distinct (map fst m)" by (rule bt_ok_distinct)
  then have d': "distinct (map fst (bt_retain P m))" by (simp add: bt_retain_def distinct_map_filter)
  show ?thesis
  proof (rule option_eqI)
    fix x
    show "map_of (bt_retain P m) i = Some x \<longleftrightarrow>
        (case map_of m i of Some v \<Rightarrow> if P v then Some v else None | None \<Rightarrow> None) = Some x"
      using d d'
      by (auto simp: bt_retain_def split: option.splits dest: map_of_SomeD)
        (metis map_of_eq_Some_iff option.distinct(1) option.inject)+
  qed
qed

subsection \<open>Words\<close>

lemma unat_lt_64: "unat (w :: 64 word) < 2 ^ 64"
  by (rule order_less_le_trans [OF unsigned_less]) simp

subsection \<open>Lists\<close>

lemma nth_update_if: "xs[k := x] ! j = (if j = k \<and> k < length xs then x else xs ! j)"
  by (cases "k < length xs") (auto simp: nth_list_update list_update_beyond)

lemma distinct_remdups_adj_sorted: "sorted xs \<Longrightarrow> distinct (remdups_adj xs)"
proof (induction xs rule: remdups_adj.induct)
  case (3 x y xs)
  then show ?case by (cases "x = y") (auto simp: order_le_neq_trans dest: order.antisym)
qed simp_all

text \<open>Multiples of a weight prime to the modulus determine the digit.\<close>

lemma weight_cancel:
  fixes a b w m p q :: nat
  assumes "coprime m w" "a < m" "b < m" "a * w + p = b * w + q" "p mod m = 0" "q mod m = 0"
  shows "a = b"
proof -
  have "int (a * w + p) = int (b * w + q)" using assms(4) by (rule arg_cong)
  then have eq: "(int a - int b) * int w = int q - int p" by (simp add: algebra_simps)
  have "int m dvd int p" "int m dvd int q" using assms(5,6) by (simp_all add: mod_eq_0_iff_dvd)
  then have "int m dvd (int a - int b) * int w" unfolding eq by (intro dvd_diff)
  moreover have "coprime (int m) (int w)" using assms(1) by simp
  ultimately have d: "int m dvd int a - int b" by (simp add: coprime_dvd_mult_left_iff)
  show ?thesis
  proof (rule ccontr)
    assume "a \<noteq> b"
    then have "int a - int b \<noteq> 0" by simp
    from dvd_imp_le_int [OF this d] show False using assms(2,3) by simp
  qed
qed

subsection \<open>Results\<close>

text \<open>The \<open>?\<close> operator: the first error is the result.\<close>

definition and_then :: "'e + 'a \<Rightarrow> ('a \<Rightarrow> 'e + 'b) \<Rightarrow> 'e + 'b" where
  "and_then m f = (case m of Inl e \<Rightarrow> Inl e | Inr x \<Rightarrow> f x)"

lemma and_then_simps [simp]: "and_then (Inl e) f = Inl e" "and_then (Inr x) f = f x"
  by (simp_all add: and_then_def)

lemma and_then_Inr: "and_then m f = Inr y \<longleftrightarrow> (\<exists>x. m = Inr x \<and> f x = Inr y)"
  by (cases m) auto

lemma and_then_Inl: "and_then m f = Inl e \<longleftrightarrow> m = Inl e \<or> (\<exists>x. m = Inr x \<and> f x = Inl e)"
  by (cases m) auto

text \<open>A \<open>for\<close> loop over a fallible body.\<close>

fun fold_res :: "('a \<Rightarrow> 's \<Rightarrow> 'e + 's) \<Rightarrow> 'a list \<Rightarrow> 's \<Rightarrow> 'e + 's" where
  "fold_res f [] s = Inr s"
| "fold_res f (x # xs) s = and_then (f x s) (fold_res f xs)"

lemma fold_res_inv:
  assumes "\<And>x s s'. x \<in> set xs \<Longrightarrow> f x s = Inr s' \<Longrightarrow> I s \<Longrightarrow> I s'" "fold_res f xs s = Inr t" "I s"
  shows "I t"
  using assms(2,3,1)
proof (induction xs arbitrary: s)
  case (Cons x xs)
  then obtain s' where "f x s = Inr s'" "fold_res f xs s' = Inr t" by (auto simp: and_then_Inr)
  with Cons show ?case by (meson list.set_intros)
qed simp

definition require :: "bool \<Rightarrow> 'e \<Rightarrow> 'e + unit" where
  "require b e = (if b then Inr () else Inl e)"

lemma require_Inr [simp]: "require b e = Inr u \<longleftrightarrow> b"
  by (simp add: require_def)

lemma require_True [simp]: "require True e = Inr ()" "require False e = Inl e"
  by (simp_all add: require_def)

definition ok_or :: "'e \<Rightarrow> 'a option \<Rightarrow> 'e + 'a" where
  "ok_or e x = (case x of None \<Rightarrow> Inl e | Some y \<Rightarrow> Inr y)"

lemma ok_or_simps [simp]:
  "ok_or e (Some y) = Inr y" "ok_or e None = Inl e" "ok_or e x = Inr z \<longleftrightarrow> x = Some z"
  by (simp_all add: ok_or_def split: option.split)

subsection \<open>Tables\<close>

text \<open>
  A table is the list of its rows in insertion order. \<open>UPDATE ... WHERE\<close> and
  \<open>DELETE ... WHERE\<close> come with the number of rows they touched.
\<close>

definition update_where :: "('r \<Rightarrow> bool) \<Rightarrow> ('r \<Rightarrow> 'r) \<Rightarrow> 'r list \<Rightarrow> 'r list" where
  "update_where P f rows = map (\<lambda>r. if P r then f r else r) rows"

definition delete_where :: "('r \<Rightarrow> bool) \<Rightarrow> 'r list \<Rightarrow> 'r list" where
  "delete_where P rows = filter (\<lambda>r. \<not> P r) rows"

definition rows_affected :: "('r \<Rightarrow> bool) \<Rightarrow> 'r list \<Rightarrow> nat" where
  "rows_affected P rows = length (filter P rows)"

text \<open>\<open>SELECT ... WHERE\<close> a unique key, as \<open>fetch_optional\<close>.\<close>

definition fetch_optional :: "('r \<Rightarrow> bool) \<Rightarrow> 'r list \<Rightarrow> 'r option" where
  "fetch_optional P rows = find P rows"

lemma set_update_where:
  "set (update_where P f rows) = f ` {r \<in> set rows. P r} \<union> {r \<in> set rows. \<not> P r}"
  by (auto simp: update_where_def)

lemma mem_update_where:
  "r \<in> set rows \<Longrightarrow> (if P r then f r else r) \<in> set (update_where P f rows)"
  by (simp add: update_where_def)

lemma map_update_where:
  "(\<And>r. P r \<Longrightarrow> g (f r) = g r) \<Longrightarrow> map g (update_where P f rows) = map g rows"
  by (simp add: update_where_def)

lemma set_delete_where [simp]: "set (delete_where P rows) = {r \<in> set rows. \<not> P r}"
  by (auto simp: delete_where_def)

lemma rows_affected_0 [simp]: "rows_affected P rows = 0 \<longleftrightarrow> (\<forall>r \<in> set rows. \<not> P r)"
  by (simp add: rows_affected_def filter_empty_conv)

lemma fetch_optional_Some: "fetch_optional P rows = Some r \<Longrightarrow> r \<in> set rows \<and> P r"
  by (auto simp: fetch_optional_def find_Some_iff)

lemma fetch_optional_None: "fetch_optional P rows = None \<longleftrightarrow> (\<forall>r \<in> set rows. \<not> P r)"
  by (auto simp: fetch_optional_def find_None_iff)

text \<open>An update that keeps the condition finds the same row, updated if it was touched.\<close>

lemma fetch_update:
  "(\<And>r. P (f r) = P r) \<Longrightarrow>
     fetch_optional P (update_where Q f rows) = map_option (\<lambda>r. if Q r then f r else r) (fetch_optional P rows)"
  by (induction rows) (auto simp: fetch_optional_def update_where_def)

text \<open>A key that is unique in the table finds its row.\<close>

lemma fetch_unique:
  assumes "distinct (map k rows)" "r \<in> set rows" "k r = x"
  shows "fetch_optional (\<lambda>r. k r = x) rows = Some r"
  using assms by (induction rows) (auto simp: fetch_optional_def)

lemma fetch_update_unique:
  assumes "distinct (map k rows)" "r \<in> set rows" "k r = x" "k (f r) = x"
  shows "fetch_optional (\<lambda>r. k r = x) (update_where (\<lambda>r. k r = x) f rows) = Some (f r)"
  using assms by (induction rows) (auto simp: fetch_optional_def update_where_def)

lemma fetch_key_None: "fetch_optional (\<lambda>r. k r = x) rows = None \<longleftrightarrow> x \<notin> k ` set rows"
  by (auto simp: fetch_optional_None)

text \<open>A new row at the end, and an update of the row of another key.\<close>

lemma fetch_append:
  "fetch_optional P (rows @ [r]) =
     (case fetch_optional P rows of Some x \<Rightarrow> Some x | None \<Rightarrow> if P r then Some r else None)"
  by (induction rows) (simp_all add: fetch_optional_def)

lemma fetch_update_other:
  "(\<And>r. Q r \<Longrightarrow> \<not> P r \<and> \<not> P (f r)) \<Longrightarrow> fetch_optional P (update_where Q f rows) = fetch_optional P rows"
  by (induction rows) (auto simp: fetch_optional_def update_where_def)

lemma distinct_append_new:
  "fetch_optional (\<lambda>r. k r = x) rows = None \<Longrightarrow> k new = x \<Longrightarrow> distinct (map k rows) \<Longrightarrow>
     distinct (map k (rows @ [new]))"
  by (auto simp: fetch_optional_None)

lemma distinct_update_where:
  "(\<And>r. P r \<Longrightarrow> k (f r) = k r) \<Longrightarrow> distinct (map k (update_where P f rows)) = distinct (map k rows)"
  by (simp add: map_update_where)

lemma list_all_update_where:
  "list_all Q rows \<Longrightarrow> (\<And>r. r \<in> set rows \<Longrightarrow> P r \<Longrightarrow> Q r \<Longrightarrow> Q (f r)) \<Longrightarrow> list_all Q (update_where P f rows)"
  by (auto simp: list_all_iff update_where_def)

subsection \<open>Interfaces\<close>

text \<open>
  A component whose state is only changed by its operations: an invariant of the initial
  states that every operation keeps holds in every reachable state.
\<close>

inductive reachable :: "('s \<Rightarrow> bool) \<Rightarrow> ('s \<Rightarrow> 's \<Rightarrow> bool) \<Rightarrow> 's \<Rightarrow> bool" for init step where
  reach_init: "init s \<Longrightarrow> reachable init step s"
| reach_step: "reachable init step s \<Longrightarrow> step s t \<Longrightarrow> reachable init step t"

locale invariant_system =
  fixes init :: "'s \<Rightarrow> bool" and step :: "'s \<Rightarrow> 's \<Rightarrow> bool" and inv :: "'s \<Rightarrow> bool"
  assumes init_inv: "init s \<Longrightarrow> inv s"
    and step_inv: "inv s \<Longrightarrow> step s t \<Longrightarrow> inv t"
begin

lemma reachable_inv: "reachable init step s \<Longrightarrow> inv s"
  by (induction rule: reachable.induct) (auto intro: init_inv step_inv)

lemma steps_inv: "step\<^sup>*\<^sup>* s t \<Longrightarrow> inv s \<Longrightarrow> inv t"
  by (induction rule: rtranclp_induct) (auto intro: step_inv)

lemma reachable_steps: "reachable init step s \<Longrightarrow> step\<^sup>*\<^sup>* s t \<Longrightarrow> inv t"
  using reachable_inv steps_inv by blast

end

text \<open>
  A buffer that keeps the last \<open>cap\<close> of the values pushed into it.
\<close>

definition last_n :: "nat \<Rightarrow> 'a list \<Rightarrow> 'a list" where
  "last_n n xs = drop (length xs - n) xs"

lemma last_n_length [simp]: "length (last_n n xs) = min n (length xs)"
  by (simp add: last_n_def)

lemma last_n_snoc: "last_n n (last_n n xs @ [x]) = last_n n (xs @ [x])"
  by (cases "length xs < n") (auto simp: last_n_def Suc_diff_le)

text \<open>Evicting the oldest value after a push, or before it.\<close>

lemma evict_after_push:
  "length xs \<le> cap \<Longrightarrow>
     (if length (xs @ [x]) > cap then tl (xs @ [x]) else xs @ [x]) = last_n cap (xs @ [x])"
  by (cases xs) (auto simp: last_n_def Suc_diff_le)

lemma evict_before_push:
  "length xs \<le> cap \<Longrightarrow> 0 < cap \<Longrightarrow>
     (if length xs \<ge> cap then tl xs else xs) @ [x] = last_n cap (xs @ [x])"
  by (cases xs) (auto simp: last_n_def Suc_diff_le)

locale bounded_window =
  fixes cap :: nat and push :: "'a \<Rightarrow> 'b \<Rightarrow> 'b" and contents :: "'b \<Rightarrow> 'a list"
  assumes push_contents:
    "length (contents b) \<le> cap \<Longrightarrow> contents (push x b) = last_n cap (contents b @ [x])"
begin

lemma push_bounded: "length (contents b) \<le> cap \<Longrightarrow> length (contents (push x b)) \<le> cap"
  by (simp add: push_contents)

lemma fold_push:
  assumes "length (contents b) \<le> cap"
  shows "contents (fold push xs b) = last_n cap (contents b @ xs)"
  using assms
proof (induction xs arbitrary: b)
  case Nil
  then show ?case by (simp add: last_n_def)
next
  case (Cons x xs)
  then have IH: "contents (fold push xs (push x b)) = last_n cap (last_n cap (contents b @ [x]) @ xs)"
    using push_bounded by (simp add: push_contents)
  have "last_n cap (last_n cap ys @ zs) = last_n cap (ys @ zs)" for ys zs :: "'a list"
    by (cases "length ys \<le> cap") (auto simp: last_n_def add.commute)
  with IH show ?case by simp
qed

end

end
