(* ===== verification/Isbn.thy ===== *)
theory Isbn
  imports Omni_Prelude
begin

text \<open>
  ISBN normalisation (\<open>shared/src/isbn/mod.rs\<close>): separators are dropped, the check digit is
  validated, and an ISBN-10 is rewritten as the ISBN-13 both metadata providers are asked for.
  The lemmas show that a normalised value is a valid ISBN-13 and its own normal form, and that
  both check digits catch a mistyped digit.
\<close>

datatype isbn_error = InvalidLength nat | InvalidChars | InvalidCheckDigit

text \<open>
  The loop of \<open>validate_isbn10\<close>. Its one caller passes ten characters, so the weight
  \<open>10 - i\<close> stays positive and the \<open>u32\<close> sum is at most 550.
\<close>

definition isbn10_value :: "nat \<Rightarrow> uchar \<Rightarrow> nat option" where
  "isbn10_value i c =
     (if is_ascii_digit c then Some (c - 48)
      else if (c = 88 \<or> c = 120) \<and> i = 9 then Some 10
      else None)"

fun isbn10_sum :: "nat \<Rightarrow> nat \<Rightarrow> ustr \<Rightarrow> isbn_error + nat" where
  "isbn10_sum i s [] = Inr s"
| "isbn10_sum i s (c # cs) =
     (case isbn10_value i c of
        None \<Rightarrow> Inl InvalidChars
      | Some v \<Rightarrow> isbn10_sum (Suc i) (s + v * (10 - i)) cs)"

definition validate_isbn10 :: "ustr \<Rightarrow> isbn_error + unit" where
  "validate_isbn10 s =
     (case isbn10_sum 0 0 s of
        Inl e \<Rightarrow> Inl e
      | Inr t \<Rightarrow> if t mod 11 = 0 then Inr () else Inl InvalidCheckDigit)"

text \<open>Callers pass at most thirteen characters, so the \<open>u32\<close> sum is at most 351.\<close>

fun isbn13_sum :: "nat \<Rightarrow> nat \<Rightarrow> ustr \<Rightarrow> isbn_error + nat" where
  "isbn13_sum i s [] = Inr s"
| "isbn13_sum i s (c # cs) =
     (case to_digit c of
        None \<Rightarrow> Inl InvalidChars
      | Some d \<Rightarrow> isbn13_sum (Suc i) (s + d * (if even i then 1 else 3)) cs)"

definition weighted_isbn13_sum :: "ustr \<Rightarrow> isbn_error + nat" where
  "weighted_isbn13_sum s = isbn13_sum 0 0 s"

definition validate_isbn13 :: "ustr \<Rightarrow> isbn_error + unit" where
  "validate_isbn13 s =
     (case weighted_isbn13_sum (take 13 s) of
        Inl e \<Rightarrow> Inl e
      | Inr t \<Rightarrow> if t mod 10 = 0 then Inr () else Inl InvalidCheckDigit)"

definition isbn13_check_digit :: "ustr \<Rightarrow> nat" where
  "isbn13_check_digit body12 =
     (let s = (case weighted_isbn13_sum body12 of Inl _ \<Rightarrow> 0 | Inr t \<Rightarrow> t)
      in (10 - s mod 10) mod 10)"

definition isbn10_to_isbn13 :: "ustr \<Rightarrow> ustr" where
  "isbn10_to_isbn13 isbn10 =
     (let body = str ''978'' @ take 9 isbn10 in body @ [48 + isbn13_check_digit body])"

definition normalize_isbn :: "ustr \<Rightarrow> isbn_error + ustr" where
  "normalize_isbn raw =
     (let stripped = filter (\<lambda>c. \<not> is_whitespace c \<and> c \<noteq> 45) raw in
      if \<not> is_ascii stripped then Inl InvalidChars
      else if byte_len stripped = 10 then
        (case validate_isbn10 stripped of
           Inl e \<Rightarrow> Inl e
         | Inr _ \<Rightarrow> Inr (isbn10_to_isbn13 stripped))
      else if byte_len stripped = 13 then
        (case validate_isbn13 stripped of
           Inl e \<Rightarrow> Inl e
         | Inr _ \<Rightarrow> Inr stripped)
      else Inl (InvalidLength (byte_len stripped)))"

subsection \<open>The loops as weighted sums\<close>

fun weighted :: "(nat \<Rightarrow> nat) \<Rightarrow> (uchar \<Rightarrow> nat) \<Rightarrow> nat \<Rightarrow> ustr \<Rightarrow> nat" where
  "weighted w v i [] = 0"
| "weighted w v i (c # cs) = v c * w i + weighted w v (Suc i) cs"

text \<open>Replacing one character moves the sum by that character's weighted difference.\<close>

lemma weighted_update:
  "k < length s \<Longrightarrow>
     weighted w v i (s[k := c]) + v (s ! k) * w (i + k) = weighted w v i s + v c * w (i + k)"
proof (induction s arbitrary: i k)
  case Nil
  then show ?case by simp
next
  case (Cons a s)
  show ?case
  proof (cases k)
    case 0
    then show ?thesis by simp
  next
    case (Suc j)
    with Cons.prems Cons.IH [of j "Suc i"] show ?thesis by simp
  qed
qed

lemma weighted_append:
  "weighted w v i (s @ t) = weighted w v i s + weighted w v (i + length s) t"
  by (induction s arbitrary: i) simp_all

definition w13 :: "nat \<Rightarrow> nat" where
  "w13 i = (if even i then 1 else 3)"

definition digit_of :: "uchar \<Rightarrow> nat" where
  "digit_of c = c - 48"

lemma to_digit_eq: "to_digit c = (if is_ascii_digit c then Some (digit_of c) else None)"
  by (simp add: to_digit_def digit_of_def)

lemma isbn13_sum_Cons:
  "isbn13_sum i a (c # cs) =
     (if is_ascii_digit c then isbn13_sum (Suc i) (a + digit_of c * w13 i) cs else Inl InvalidChars)"
  unfolding isbn13_sum.simps to_digit_eq w13_def by simp

lemma isbn13_sum_eq:
  "isbn13_sum i a s =
     (if list_all is_ascii_digit s then Inr (a + weighted w13 digit_of i s) else Inl InvalidChars)"
proof (induction s arbitrary: i a)
  case Nil
  show ?case by simp
next
  case (Cons c cs)
  show ?case by (simp only: isbn13_sum_Cons Cons.IH) (simp add: add.assoc)
qed

lemma validate_isbn13_eq:
  "length s = 13 \<Longrightarrow>
     validate_isbn13 s =
       (if \<not> list_all is_ascii_digit s then Inl InvalidChars
        else if weighted w13 digit_of 0 s mod 10 = 0 then Inr () else Inl InvalidCheckDigit)"
  by (simp add: validate_isbn13_def weighted_isbn13_sum_def isbn13_sum_eq)

text \<open>The value \<open>validate_isbn10\<close> reads at a position, with \<open>X\<close> as ten.\<close>

definition isbn10_digit :: "uchar \<Rightarrow> nat" where
  "isbn10_digit c = (if c = 88 \<or> c = 120 then 10 else c - 48)"

definition w10 :: "nat \<Rightarrow> nat" where
  "w10 i = 10 - i"

fun isbn10_chars :: "nat \<Rightarrow> ustr \<Rightarrow> bool" where
  "isbn10_chars i [] \<longleftrightarrow> True"
| "isbn10_chars i (c # cs) \<longleftrightarrow> isbn10_value i c \<noteq> None \<and> isbn10_chars (Suc i) cs"

lemma isbn10_value_digit: "isbn10_value i c = Some v \<Longrightarrow> v = isbn10_digit c"
  by (auto simp: isbn10_value_def isbn10_digit_def is_ascii_digit_def split: if_splits)

lemma isbn10_sum_Cons:
  "isbn10_sum i a (c # cs) =
     (if isbn10_value i c \<noteq> None then isbn10_sum (Suc i) (a + isbn10_digit c * w10 i) cs
      else Inl InvalidChars)"
  by (cases "isbn10_value i c") (auto simp: w10_def dest: isbn10_value_digit)

lemma isbn10_sum_eq:
  "isbn10_sum i a s =
     (if isbn10_chars i s then Inr (a + weighted w10 isbn10_digit i s) else Inl InvalidChars)"
proof (induction s arbitrary: i a)
  case Nil
  show ?case by simp
next
  case (Cons c cs)
  show ?case by (simp only: isbn10_sum_Cons Cons.IH) (simp add: add.assoc)
qed

lemma validate_isbn10_eq:
  "validate_isbn10 s =
     (if \<not> isbn10_chars 0 s then Inl InvalidChars
      else if weighted w10 isbn10_digit 0 s mod 11 = 0 then Inr () else Inl InvalidCheckDigit)"
  by (simp add: validate_isbn10_def isbn10_sum_eq)

subsection \<open>Single mistyped digits\<close>

text \<open>A weighted difference of two digits is a multiple of the modulus only when it is zero.\<close>

lemma coprime_w13: "coprime 10 (w13 i)"
proof -
  have "coprime 10 (1::nat)" "coprime 10 (3::nat)" by code_simp+
  then show ?thesis unfolding w13_def by simp
qed

lemma coprime_w10:
  assumes "i < 10"
  shows "coprime 11 (w10 i)"
proof -
  have "\<forall>j \<in> set [0..<10]. coprime 11 (w10 j)" by code_simp
  then show ?thesis using assms by (metis atLeastLessThan_upt atLeast0LessThan lessThan_iff)
qed

lemma digit_of_inj: "is_ascii_digit c \<Longrightarrow> is_ascii_digit d \<Longrightarrow> digit_of c = digit_of d \<Longrightarrow> c = d"
  by (auto simp: is_ascii_digit_def digit_of_def)

lemma digit_of_le: "is_ascii_digit c \<Longrightarrow> digit_of c \<le> 9"
  by (auto simp: is_ascii_digit_def digit_of_def)

lemma isbn10_chars_nth:
  "isbn10_chars i s \<longleftrightarrow> (\<forall>k < length s. isbn10_value (i + k) (s ! k) \<noteq> None)"
proof (induction s arbitrary: i)
  case Nil
  show ?case by simp
next
  case (Cons c cs)
  show ?case by (simp only: isbn10_chars.simps Cons.IH) (simp add: All_less_Suc2)
qed

lemma isbn10_digit_le: "isbn10_value i c \<noteq> None \<Longrightarrow> isbn10_digit c \<le> 10"
  by (auto simp: isbn10_value_def isbn10_digit_def is_ascii_digit_def split: if_splits)

lemma validate_isbn13_detects:
  assumes s: "length s = 13" "validate_isbn13 s = Inr ()"
    and k: "k < 13" "is_ascii_digit d" "d \<noteq> s ! k"
  shows "validate_isbn13 (s[k := d]) = Inl InvalidCheckDigit"
proof -
  have digits: "list_all is_ascii_digit s" and sum: "weighted w13 digit_of 0 s mod 10 = 0"
    using s by (auto simp: validate_isbn13_eq split: if_splits)
  have old: "is_ascii_digit (s ! k)" using digits s(1) k(1) by (simp add: list_all_length)
  have new: "list_all is_ascii_digit (s[k := d])"
    using digits s(1) k(2) by (auto simp: list_all_length nth_update_if)
  have "digit_of d \<noteq> digit_of (s ! k)" using digit_of_inj [OF k(2) old] k(3) by blast
  then have "weighted w13 digit_of 0 (s[k := d]) mod 10 \<noteq> 0"
    using weight_cancel [OF coprime_w13, of "digit_of (s ! k)" "digit_of d" k
        "weighted w13 digit_of 0 (s[k := d])" "weighted w13 digit_of 0 s"] weighted_update [of k s w13 digit_of 0 d]
      digit_of_le [OF k(2)] digit_of_le [OF old] sum s(1) k(1)
    by (auto simp: add.commute)
  with new s(1) show ?thesis by (simp add: validate_isbn13_eq)
qed

lemma isbn10_chars_update:
  "isbn10_chars 0 s \<Longrightarrow> isbn10_value k d \<noteq> None \<Longrightarrow> isbn10_chars 0 (s[k := d])"
  by (auto simp: isbn10_chars_nth nth_update_if)

subsection \<open>Normal forms\<close>

lemma utf8_len_ascii: "is_ascii s \<Longrightarrow> byte_len s = length s"
  by (induction s) (simp_all add: is_ascii_def byte_len_def utf8_len_def)

lemma digits_ascii: "list_all is_ascii_digit s \<Longrightarrow> is_ascii s"
  by (auto simp: is_ascii_def is_ascii_digit_def list_all_iff)

lemma filter_digits:
  "list_all is_ascii_digit s \<Longrightarrow> filter (\<lambda>c. \<not> is_whitespace c \<and> c \<noteq> 45) s = s"
  by (induction s) (auto simp: is_ascii_digit_def is_whitespace_def)

lemma validate_isbn13_digits: "length s = 13 \<Longrightarrow> validate_isbn13 s = Inr () \<Longrightarrow> list_all is_ascii_digit s"
  by (auto simp: validate_isbn13_eq split: if_splits)

lemma normalize_isbn13:
  "length s = 13 \<Longrightarrow> validate_isbn13 s = Inr () \<Longrightarrow> normalize_isbn s = Inr s"
  using validate_isbn13_digits [of s]
  by (simp add: normalize_isbn_def filter_digits digits_ascii utf8_len_ascii)

lemma isbn10_value_inner: "i < 9 \<Longrightarrow> isbn10_value i c \<noteq> None \<longleftrightarrow> is_ascii_digit c"
  by (auto simp: isbn10_value_def)

lemma isbn10_body_digits:
  "length s = 10 \<Longrightarrow> isbn10_chars 0 s \<Longrightarrow> list_all is_ascii_digit (take 9 s)"
  by (simp add: isbn10_chars_nth list_all_length isbn10_value_inner [symmetric])

lemma complement_mod: "(t + (10 - t mod 10) mod 10) mod 10 = (0::nat)"
proof -
  define r where "r = t mod 10"
  have r: "r < 10" by (simp add: r_def)
  have "(t + (10 - t mod 10) mod 10) mod 10 = (r + (10 - r)) mod 10"
    unfolding r_def by (simp only: mod_add_left_eq mod_add_right_eq)
  also have "\<dots> = 0" using r by simp
  finally show ?thesis .
qed

lemma check_digit_completes:
  assumes "length body = 12" "list_all is_ascii_digit body"
  shows "validate_isbn13 (body @ [48 + isbn13_check_digit body]) = Inr ()"
proof -
  have "isbn13_check_digit body = (10 - weighted w13 digit_of 0 body mod 10) mod 10"
    using assms(2) by (simp add: isbn13_check_digit_def weighted_isbn13_sum_def isbn13_sum_eq)
  moreover have "w13 12 = 1" by (simp add: w13_def)
  ultimately show ?thesis
    using assms by (simp add: validate_isbn13_eq weighted_append digit_of_def complement_mod)
qed

lemma isbn10_to_isbn13_valid:
  assumes "length s = 10" "validate_isbn10 s = Inr ()"
  shows "length (isbn10_to_isbn13 s) = 13 \<and> validate_isbn13 (isbn10_to_isbn13 s) = Inr ()"
proof -
  have "list_all is_ascii_digit (take 9 s)"
    using assms isbn10_body_digits [of s] by (auto simp: validate_isbn10_eq split: if_splits)
  then have "list_all is_ascii_digit (str ''978'' @ take 9 s)"
    by (simp add: str_def is_ascii_digit_def)
  then have "validate_isbn13 (isbn10_to_isbn13 s) = Inr ()"
    unfolding isbn10_to_isbn13_def Let_def using assms(1)
    by (intro check_digit_completes) (simp_all add: str_def)
  moreover have "length (isbn10_to_isbn13 s) = 13"
    using assms(1) by (simp add: isbn10_to_isbn13_def Let_def str_def)
  ultimately show ?thesis by blast
qed

text \<open>
  C20: every value \<open>normalize_isbn\<close> accepts comes out as a thirteen-digit ISBN with a correct
  check digit, whichever of the two forms went in, and is its own normal form.
\<close>

theorem normalize_isbn_sound:
  assumes "normalize_isbn raw = Inr s"
  shows "length s = 13 \<and> validate_isbn13 s = Inr () \<and> normalize_isbn s = Inr s"
proof -
  let ?t = "filter (\<lambda>c. \<not> is_whitespace c \<and> c \<noteq> 45) raw"
  have ascii: "is_ascii ?t" using assms by (auto simp: normalize_isbn_def Let_def split: if_splits)
  then have len: "byte_len ?t = length ?t" by (rule utf8_len_ascii)
  have "length s = 13 \<and> validate_isbn13 s = Inr ()"
    using assms isbn10_to_isbn13_valid [of ?t] len
    by (auto simp: normalize_isbn_def Let_def split: if_splits sum.splits)
  then show ?thesis using normalize_isbn13 by blast
qed

theorem normalize_isbn_sound_witness:
  "normalize_isbn (str ''0-306-40615-2'') = Inr (str ''9780306406157'') \<and>
   validate_isbn13 (str ''9780306406157'') = Inr ()"
proof -
  have n: "normalize_isbn (str ''0-306-40615-2'') = Inr (str ''9780306406157'')" by code_simp
  with normalize_isbn_sound [OF n] show ?thesis by blast
qed

text \<open>
  a valid ISBN-10 with one character replaced by a character of another value is refused
  as a wrong check digit, at every one of the ten positions.
\<close>

theorem validate_isbn10_detects:
  assumes "length s = 10" "validate_isbn10 s = Inr ()"
    and "k < 10" "isbn10_value k d \<noteq> None" "isbn10_value k d \<noteq> isbn10_value k (s ! k)"
  shows "validate_isbn10 (s[k := d]) = Inl InvalidCheckDigit"
proof -
  have chars: "isbn10_chars 0 s" and sum: "weighted w10 isbn10_digit 0 s mod 11 = 0"
    using assms(2) by (auto simp: validate_isbn10_eq split: if_splits)
  have old: "isbn10_value k (s ! k) \<noteq> None" using chars assms(1,3) by (simp add: isbn10_chars_nth)
  have "isbn10_digit d \<noteq> isbn10_digit (s ! k)"
    using old assms(4,5) isbn10_value_digit by fastforce
  then have "weighted w10 isbn10_digit 0 (s[k := d]) mod 11 \<noteq> 0"
    using weight_cancel [OF coprime_w10 [OF assms(3)], of "isbn10_digit (s ! k)" "isbn10_digit d"
        "weighted w10 isbn10_digit 0 (s[k := d])" "weighted w10 isbn10_digit 0 s"]
      weighted_update [of k s w10 isbn10_digit 0 d] isbn10_digit_le [OF assms(4)]
      isbn10_digit_le [OF old] sum assms(1,3)
    by (auto simp: add.commute)
  with isbn10_chars_update [OF chars assms(4)] show ?thesis by (simp add: validate_isbn10_eq)
qed

theorem validate_isbn10_detects_witness:
  "validate_isbn10 ((str ''080442957X'')[3 := 53]) = Inl InvalidCheckDigit"
  by (rule validate_isbn10_detects) code_simp+

end
