(* ===== verification/Http_Range.thy ===== *)
theory Http_Range
  imports Omni_Prelude
begin

text \<open>
  The single-range \<open>Range\<close> parser (\<open>shared/src/http_range.rs\<close>), shared by the server's
  byte-serving endpoints and the mobile media proxy. Lengths and offsets are \<open>u64\<close>, modelled
  as 64-bit words, so the subtractions below really could wrap. The locale \<open>byte_ranges\<close> is
  what the serving side relies on.
\<close>

datatype range_outcome = Full | Partial "64 word" "64 word" | NotSatisfiable

definition parse_u64 :: "ustr \<Rightarrow> 64 word option" where
  "parse_u64 s = map_option word_of_nat (parse_uint 64 s)"

definition saturating_sub :: "'a::len word \<Rightarrow> 'a word \<Rightarrow> 'a word" where
  "saturating_sub a b = (if a < b then 0 else a - b)"

definition parse_range :: "ustr option \<Rightarrow> 64 word \<Rightarrow> range_outcome" where
  "parse_range header len =
     (case header of None \<Rightarrow> Full | Some raw \<Rightarrow>
      (case strip_prefix (str ''bytes='') (trim raw) of None \<Rightarrow> Full | Some spec \<Rightarrow>
       if 44 \<in> set spec then Full else
      (case split_once 45 spec of None \<Rightarrow> Full | Some (a, b) \<Rightarrow>
       let start_s = trim a; end_s = trim b in
       if start_s = [] then
         (case parse_u64 end_s of None \<Rightarrow> Full | Some suffix \<Rightarrow>
            if suffix = 0 \<or> len = 0 then NotSatisfiable
            else Partial (saturating_sub len suffix) (len - 1))
       else
      (case parse_u64 start_s of None \<Rightarrow> Full | Some start \<Rightarrow>
       if start \<ge> len then NotSatisfiable
       else
      (case (if end_s = [] then Some (len - 1)
             else case parse_u64 end_s of None \<Rightarrow> None | Some e \<Rightarrow> Some (min e (len - 1))) of
         None \<Rightarrow> Full
       | Some e \<Rightarrow> if e < start then Full else Partial start e)))))"

subsection \<open>Words\<close>

lemma unat_pred: "x < len \<Longrightarrow> unat (len - 1) = unat (len :: 64 word) - 1"
proof -
  assume "x < len"
  then have "0 < unat len" by (simp add: word_less_nat_alt)
  then have "1 \<le> len" by (simp add: word_le_nat_alt)
  then show ?thesis by (simp add: unat_sub)
qed

lemma word_pred_bound: "x < len \<Longrightarrow> len - 1 < (len :: 64 word) \<and> x \<le> len - 1"
  using unat_pred [of x len] by (simp add: word_less_nat_alt word_le_nat_alt)

lemma saturating_sub_le:
  "b \<noteq> 0 \<Longrightarrow> len \<noteq> 0 \<Longrightarrow> saturating_sub len b \<le> (len :: 64 word) - 1"
proof -
  assume b: "b \<noteq> 0" and len: "len \<noteq> 0"
  then have "0 < unat b" "0 < unat len" by (simp_all add: unat_gt_0)
  then show ?thesis
    using unat_pred [of 0 len] len
    by (auto simp: saturating_sub_def word_le_nat_alt word_less_nat_alt unat_sub not_less word_gt_0)
qed

lemma pred_less: "x < len \<Longrightarrow> len - 1 < (len :: 64 word)"
  using word_pred_bound by blast

subsection \<open>What the serving side relies on\<close>

locale byte_ranges =
  fixes parse :: "ustr option \<Rightarrow> 64 word \<Rightarrow> range_outcome"
  assumes partial_in_file: "parse h len = Partial a b \<Longrightarrow> a \<le> b \<and> b < len"
    and absent_is_full: "parse None len = Full"
begin

text \<open>The span \<open>end - start + 1\<close> neither wraps nor reaches past the last byte.\<close>

lemma span:
  assumes "parse h len = Partial a b"
  shows "unat (b - a + 1) = Suc (unat b) - unat a" and "unat a + unat (b - a + 1) \<le> unat len"
proof -
  from partial_in_file [OF assms] have ab: "unat a \<le> unat b" "unat b < unat len"
    by (simp_all add: word_le_nat_alt word_less_nat_alt)
  have "unat b - unat a + 1 < 2 ^ 64" using ab unat_lt_64 [of len] by simp
  then show s: "unat (b - a + 1) = Suc (unat b) - unat a"
    using ab by (simp add: unat_word_ariths unat_sub word_le_nat_alt)
  show "unat a + unat (b - a + 1) \<le> unat len" unfolding s using ab by simp
qed

lemma slice_length:
  assumes "parse h len = Partial a b" "length bytes = unat len"
  shows "length (take (unat (b - a + 1)) (drop (unat a) bytes)) = unat (b - a + 1)"
  using span [OF assms(1)] assms(2) by simp

lemma empty_file: "parse h 0 \<noteq> Partial a b"
  using partial_in_file [of h 0 a b] by auto

end

lemma parse_range_partial:
  "parse_range h len = Partial a b \<Longrightarrow> a \<le> b \<and> b < len"
  using word_pred_bound [of a len] word_pred_bound [of 0 len] saturating_sub_le [of _ len]
  by (auto simp: parse_range_def Let_def not_le not_less word_gt_0 min_less_iff_disj
      split: option.splits prod.splits if_splits)

interpretation http_range: byte_ranges parse_range
  by unfold_locales (fact parse_range_partial, simp add: parse_range_def)

subsection \<open>What a client asks for\<close>

lemma trim_digits: "list_all is_ascii_digit s \<Longrightarrow> trim s = s"
  by (intro trim_by_none) (auto simp: list_all_iff digit_not_space)

lemma parse_u64_show: "parse_u64 (show_nat (unat w)) = Some w"
  using parse_uint_show_nat [OF unat_lt_64] by (simp add: parse_u64_def)

definition range_request :: "ustr \<Rightarrow> ustr \<Rightarrow> ustr" where
  "range_request a b = str ''bytes='' @ a @ 45 # b"

lemma range_request_trim:
  assumes "list_all is_ascii_digit b"
  shows "trim (range_request a b) = range_request a b"
proof (rule trim_by_id)
  show "\<not> is_whitespace (last (range_request a b))"
    using assms
    by (cases b rule: rev_cases)
      (simp_all add: range_request_def digit_not_space, simp add: is_whitespace_def)
qed (simp_all add: range_request_def str_def is_whitespace_def)

lemma range_request_split:
  assumes "list_all is_ascii_digit a" "list_all is_ascii_digit b"
  shows "44 \<notin> set (a @ 45 # b)" and "split_once 45 (a @ 45 # b) = Some (a, b)"
proof -
  show "44 \<notin> set (a @ 45 # b)" using assms by (auto simp: list_all_iff is_ascii_digit_def)
  have "45 \<notin> set a" using assms(1) by (auto simp: list_all_iff is_ascii_digit_def)
  then show "split_once 45 (a @ 45 # b) = Some (a, b)" by (rule split_once_app)
qed


lemma range_request_parts:
  "list_all is_ascii_digit b \<Longrightarrow>
     strip_prefix (str ''bytes='') (trim (range_request a b)) = Some (a @ 45 # b)"
  using range_request_trim [of b a] by (simp add: range_request_def)

lemmas range_request_simps =
  range_request_parts range_request_split show_nat_digits trim_digits parse_u64_show

lemma parse_range_closed:
  assumes "a < len" "a \<le> b"
  shows "parse_range (Some (range_request (show_nat (unat a)) (show_nat (unat b)))) len =
    Partial a (min b (len - 1))"
  using assms word_pred_bound [OF assms(1)]
  by (simp add: parse_range_def Let_def range_request_simps min_less_iff_disj not_le not_less)

lemma parse_range_open:
  assumes "a < len"
  shows "parse_range (Some (range_request (show_nat (unat a)) [])) len = Partial a (len - 1)"
  using assms word_pred_bound [OF assms(1)] range_request_split [of "show_nat (unat a)" "[]"]
  by (simp add: parse_range_def range_request_simps not_le not_less)

lemma parse_range_beyond:
  assumes "len \<le> a"
  shows "parse_range (Some (range_request (show_nat (unat a)) [])) len = NotSatisfiable"
  using assms range_request_split [of "show_nat (unat a)" "[]"]
  by (simp add: parse_range_def range_request_simps)

lemma parse_range_suffix:
  assumes "0 < n" "0 < len"
  shows "parse_range (Some (range_request [] (show_nat (unat n)))) len =
    Partial (saturating_sub len n) (len - 1)"
  using assms range_request_split [of "[]" "show_nat (unat n)"]
  by (simp add: parse_range_def range_request_simps word_gt_0)

text \<open>
  the three forms a player or a download engine sends, with both offsets printed in
  decimal, resolve to exactly the bytes they name: a closed range is clamped to the last byte,
  an open one runs to the end, and a suffix counts back from it.
\<close>

theorem parse_range_forms:
  assumes "a < len" "a \<le> b" "0 < n"
  shows "parse_range (Some (range_request (show_nat (unat a)) (show_nat (unat b)))) len =
      Partial a (min b (len - 1)) \<and>
    parse_range (Some (range_request (show_nat (unat a)) [])) len = Partial a (len - 1) \<and>
    parse_range (Some (range_request [] (show_nat (unat n)))) len =
      Partial (saturating_sub len n) (len - 1)"
proof -
  have "0 < len" using assms(1) by (rule order.strict_trans1 [rotated]) simp
  then show ?thesis
    using parse_range_closed [OF assms(1,2)] parse_range_open [OF assms(1)]
      parse_range_suffix [OF assms(3)] by blast
qed

theorem parse_range_forms_witness:
  "parse_range (Some (range_request (show_nat (unat (2::64 word))) (show_nat (unat (9::64 word)))))
     (8::64 word) = Partial 2 7"
proof -
  have "min 9 (8 - 1 :: 64 word) = 7" by simp
  with parse_range_forms [of 2 8 9 1] show ?thesis by simp
qed

end
