(* ===== verification/Conditional.thy ===== *)
theory Conditional
  imports Http_Range
begin

text \<open>
  Preconditions and byte serving (\<open>server/src/backend/conditional.rs\<close>): the validator of an
  open file, the five preconditions of RFC 9110 in their order, and the response built from one
  handle. A request's \<open>HeaderMap\<close> is a map from the header names this module reads or writes
  to values; file times are nanoseconds since the epoch. Parsing and printing of HTTP dates is
  the \<open>httpdate\<close> crate's, a parameter.
\<close>

datatype header_name =
    If_Match | If_Unmodified_Since | If_None_Match | If_Modified_Since | If_Range | Range
  | Content_Range | Accept_Ranges | Cache_Control | Vary | ETag | Content_Type | Content_Length
  | Last_Modified | X_Content_Type_Options | Content_Disposition

type_synonym header_map = "header_name \<Rightarrow> ustr option"

record validator =
  etag :: ustr
  last_modified :: int

record open_file =
  bytes :: "nat list"
  len :: "64 word"
  validator :: validator

subsection \<open>The validator of an open file\<close>

text \<open>\<open>format!("{:x}")\<close> and \<open>format!("{:08x}")\<close>.\<close>

definition hex_digit :: "nat \<Rightarrow> uchar" where
  "hex_digit d = (if d < 10 then 48 + d else 87 + d)"

fun show_hex :: "nat \<Rightarrow> ustr" where
  "show_hex n = (if n < 16 then [hex_digit n] else show_hex (n div 16) @ [hex_digit (n mod 16)])"

declare show_hex.simps [simp del]

definition pad_left :: "nat \<Rightarrow> uchar \<Rightarrow> ustr \<Rightarrow> ustr" where
  "pad_left w c s = replicate (w - length s) c @ s"

text \<open>
  The metadata \<open>fstat\<close> returns for a handle: inode (where the platform has one), modification
  time and size.
\<close>

record file_meta =
  ino :: "nat option"
  mtime :: int
  size_bytes :: "64 word"

definition inode_prefix :: "file_meta \<Rightarrow> ustr" where
  "inode_prefix m = (case ino m of Some i \<Rightarrow> show_hex i @ [45] | None \<Rightarrow> [])"

definition etag_of :: "file_meta \<Rightarrow> ustr" where
  "etag_of m =
     [34] @ inode_prefix m @ show_hex (nat (mtime m div 1000000000)) @ [46] @
     pad_left 8 48 (show_hex (nat (mtime m mod 1000000000))) @ [45] @
     show_hex (unat (size_bytes m)) @ [34]"

text \<open>\<open>open\<close>: the bytes and the metadata come from one handle; a time before the epoch is an error.\<close>

definition open_path :: "(nat list \<times> file_meta) option \<Rightarrow> open_file option" where
  "open_path handle =
     do {
       (content, m) \<leftarrow> handle;
       (if mtime m < 0 then None
        else Some \<lparr> bytes = content, len = size_bytes m,
                    validator = \<lparr> etag = etag_of m, last_modified = mtime m \<rparr> \<rparr>)
     }"

subsection \<open>Preconditions\<close>

datatype precondition = NotModified ustr | Failed | Proceed range_outcome

definition truncate_secs :: "int \<Rightarrow> int" where
  "truncate_secs t = (if t \<ge> 0 then t div 1000000000 * 1000000000 else t)"

text \<open>\<open>HeaderValue::to_str\<close> succeeds on visible ASCII and tab.\<close>

definition header_str :: "header_map \<Rightarrow> header_name \<Rightarrow> ustr option" where
  "header_str headers name =
     (case headers name of
        None \<Rightarrow> None
      | Some v \<Rightarrow> if list_all (\<lambda>c. (32 \<le> c \<and> c < 127) \<or> c = 9) v then Some v else None)"

definition strip_weak :: "ustr \<Rightarrow> ustr" where
  "strip_weak tag = (case strip_prefix (str ''W/'') tag of Some t \<Rightarrow> t | None \<Rightarrow> tag)"

definition strong_eq :: "ustr \<Rightarrow> ustr \<Rightarrow> bool" where
  "strong_eq candidate tag \<longleftrightarrow>
     \<not> starts_with (str ''W/'') candidate \<and> \<not> starts_with (str ''W/'') tag \<and> candidate = tag"

definition weak_eq :: "ustr \<Rightarrow> ustr \<Rightarrow> bool" where
  "weak_eq candidate tag \<longleftrightarrow> strip_weak candidate = strip_weak tag"

definition if_match_passes :: "ustr \<Rightarrow> ustr \<Rightarrow> bool" where
  "if_match_passes value tag =
     (let v = trim value in
      if v = [42] then True else list_ex (\<lambda>c. strong_eq (trim c) tag) (split_on 44 v))"

definition if_none_match_hits :: "ustr \<Rightarrow> ustr \<Rightarrow> bool" where
  "if_none_match_hits value tag =
     (let v = trim value in
      if v = [42] then True else list_ex (\<lambda>c. weak_eq (trim c) tag) (split_on 44 v))"

definition if_range_matches ::
  "(ustr \<Rightarrow> int option) \<Rightarrow> ustr \<Rightarrow> validator \<Rightarrow> bool" where
  "if_range_matches parse_http_date value v =
     (let t = trim value in
      if starts_with [34] t \<or> starts_with (str ''W/'') t then strong_eq t (etag v)
      else case parse_http_date t of
             Some date \<Rightarrow> truncate_secs (last_modified v) = truncate_secs date
           | None \<Rightarrow> False)"

definition resolve_range ::
  "(ustr \<Rightarrow> int option) \<Rightarrow> header_map \<Rightarrow> validator \<Rightarrow> 64 word \<Rightarrow> range_outcome" where
  "resolve_range parse_http_date headers v n =
     (case header_str headers If_Range of
        Some value \<Rightarrow>
          if \<not> if_range_matches parse_http_date value v then Full
          else parse_range (header_str headers Range) n
      | None \<Rightarrow> parse_range (header_str headers Range) n)"

definition evaluate ::
  "(ustr \<Rightarrow> int option) \<Rightarrow> header_map \<Rightarrow> validator \<Rightarrow> 64 word \<Rightarrow> precondition" where
  "evaluate parse_http_date headers v n =
     (if (case header_str headers If_Match of
            Some value \<Rightarrow> \<not> if_match_passes value (etag v)
          | None \<Rightarrow>
              (case header_str headers If_Unmodified_Since of
                 Some value \<Rightarrow>
                   (case parse_http_date value of
                      Some since \<Rightarrow> truncate_secs (last_modified v) > truncate_secs since
                    | None \<Rightarrow> False)
               | None \<Rightarrow> False))
      then Failed
      else
        case header_str headers If_None_Match of
          Some value \<Rightarrow>
            if if_none_match_hits value (etag v) then NotModified (etag v)
            else Proceed (resolve_range parse_http_date headers v n)
        | None \<Rightarrow>
            if (case header_str headers If_Modified_Since of
                  Some value \<Rightarrow>
                    (case parse_http_date value of
                       Some since \<Rightarrow> truncate_secs (last_modified v) \<le> truncate_secs since
                     | None \<Rightarrow> False)
                | None \<Rightarrow> False)
            then NotModified (etag v)
            else Proceed (resolve_range parse_http_date headers v n))"

subsection \<open>The response\<close>

record response =
  status :: nat
  resp_headers :: header_map
  body :: "nat list"

record file_response =
  content_type :: ustr
  cache_control :: ustr
  vary :: ustr
  disposition :: "ustr option"

text \<open>\<open>HeaderValue::from_str\<close> refuses control bytes other than tab; \<open>insert\<close> replaces.\<close>

definition header_value_ok :: "ustr \<Rightarrow> bool" where
  "header_value_ok v \<longleftrightarrow> list_all (\<lambda>c. (32 \<le> c \<and> c \<noteq> 127) \<or> c = 9) v"

fun insert_headers :: "header_map \<Rightarrow> (header_name \<times> ustr) list \<Rightarrow> header_map" where
  "insert_headers h [] = h"
| "insert_headers h ((n, v) # fs) = insert_headers (if header_value_ok v then h(n \<mapsto> v) else h) fs"

definition MEDIA_VARY :: ustr where
  "MEDIA_VARY = str ''Cookie, Authorization''"

definition MEDIA_CACHE_CONTROL :: ustr where
  "MEDIA_CACHE_CONTROL = str ''private, no-cache''"

definition media :: "ustr \<Rightarrow> ustr option \<Rightarrow> file_response" where
  "media ct d =
     \<lparr> content_type = ct, cache_control = MEDIA_CACHE_CONTROL, vary = MEDIA_VARY, disposition = d \<rparr>"

definition not_modified :: "ustr \<Rightarrow> ustr \<Rightarrow> ustr \<Rightarrow> response" where
  "not_modified tag cc vy =
     \<lparr> status = 304,
       resp_headers = insert_headers Map.empty [(Cache_Control, cc), (ETag, tag), (Vary, vy)],
       body = [] \<rparr>"

text \<open>\<open>http_errors::internal\<close>: the generic 500.\<close>

definition internal :: response where
  "internal =
     \<lparr> status = 500, resp_headers = [Content_Type \<mapsto> str ''text/plain; charset=utf-8''],
       body = str ''internal server error'' \<rparr>"

definition response_fields ::
  "(int \<Rightarrow> ustr) \<Rightarrow> open_file \<Rightarrow> file_response \<Rightarrow> nat \<Rightarrow> 64 word \<Rightarrow> 64 word \<Rightarrow> (header_name \<times> ustr) list" where
  "response_fields fmt_http_date f spec code start span =
     [(Content_Type, content_type spec),
      (Content_Length, show_nat (unat span)),
      (Accept_Ranges, str ''bytes''),
      (Cache_Control, cache_control spec),
      (Vary, vary spec),
      (ETag, etag (validator f)),
      (Last_Modified, fmt_http_date (last_modified (validator f))),
      (X_Content_Type_Options, str ''nosniff'')] @
     (if code = 206
      then [(Content_Range,
             str ''bytes '' @ show_nat (unat start) @ [45] @
             show_nat (unat (start + span - 1)) @ [47] @ show_nat (unat (len f)))]
      else []) @
     (case disposition spec of Some d \<Rightarrow> [(Content_Disposition, d)] | None \<Rightarrow> [])"

definition send ::
  "(int \<Rightarrow> ustr) \<Rightarrow> bool \<Rightarrow> open_file \<Rightarrow> file_response \<Rightarrow> nat \<Rightarrow> 64 word \<Rightarrow> 64 word \<Rightarrow> response" where
  "send fmt_http_date seek_ok f spec code start span =
     (if start > 0 \<and> \<not> seek_ok then internal
      else
        \<lparr> status = code,
          resp_headers =
            insert_headers Map.empty (response_fields fmt_http_date f spec code start span),
          body = take (unat span) (drop (unat start) (bytes f)) \<rparr>)"

definition serve ::
  "(int \<Rightarrow> ustr) \<Rightarrow> bool \<Rightarrow> open_file \<Rightarrow> range_outcome \<Rightarrow> file_response \<Rightarrow> response" where
  "serve fmt_http_date seek_ok f outcome spec =
     (case outcome of
        Full \<Rightarrow> send fmt_http_date seek_ok f spec 200 0 (len f)
      | Partial start e \<Rightarrow> send fmt_http_date seek_ok f spec 206 start (e - start + 1)
      | NotSatisfiable \<Rightarrow>
          \<lparr> status = 416,
            resp_headers = insert_headers Map.empty
              [(Content_Range, str ''bytes */'' @ show_nat (unat (len f))),
               (Accept_Ranges, str ''bytes''),
               (Cache_Control, cache_control spec),
               (Vary, vary spec),
               (ETag, etag (validator f))],
            body = [] \<rparr>)"

lemma insert_headers_keep:
  "n \<notin> fst ` set fs \<Longrightarrow> insert_headers h fs n = h n"
  by (induction h fs rule: insert_headers.induct) auto

lemma digits_ok: "header_value_ok (show_nat n)"
  using show_nat_digit [of _ n] by (fastforce simp: header_value_ok_def list_all_iff is_ascii_digit_def)

lemma send_simps [simp]:
  "status (send fmt True f spec code start span) = code"
  "body (send fmt True f spec code start span) = take (unat span) (drop (unat start) (bytes f))"
  "resp_headers (send fmt True f spec code start span) Content_Length = Some (show_nat (unat span))"
  by (simp_all add: send_def response_fields_def digits_ok insert_headers_keep split: option.split)

subsection \<open>Entity tags identify the file version\<close>

definition hex_value :: "ustr \<Rightarrow> nat" where
  "hex_value s = foldl (\<lambda>a c. 16 * a + (if c < 58 then c - 48 else c - 87)) 0 s"

lemma hex_value_snoc:
  "hex_value (s @ [c]) = 16 * hex_value s + (if c < 58 then c - 48 else c - 87)"
  by (simp add: hex_value_def)

lemma hex_value_show_hex [simp]: "hex_value (show_hex n) = n"
proof (induction n rule: show_hex.induct)
  case (1 n)
  show ?case
  proof (cases "n < 16")
    case True
    then show ?thesis by (subst show_hex.simps) (simp add: hex_value_def hex_digit_def)
  next
    case False
    with 1 show ?thesis
      by (subst show_hex.simps) (simp add: hex_value_snoc hex_digit_def)
  qed
qed

lemma hex_value_pad [simp]: "hex_value (pad_left w 48 s) = hex_value s"
proof -
  have "foldl (\<lambda>a c. 16 * a + (if c < 58 then c - 48 else c - 87)) 0 (replicate k 48) = (0::nat)" for k
    by (induction k) simp_all
  then show ?thesis by (simp add: hex_value_def pad_left_def)
qed

lemma show_hex_inj: "show_hex m = show_hex n \<longleftrightarrow> m = n"
  by (metis hex_value_show_hex)

lemma pad_hex_inj: "pad_left w 48 (show_hex m) = pad_left w 48 (show_hex n) \<longleftrightarrow> m = n"
  using hex_value_show_hex hex_value_pad by metis

lemma show_hex_chars: "c \<in> set (show_hex n) \<Longrightarrow> is_ascii_hexdigit c"
proof (induction n rule: show_hex.induct)
  case (1 n)
  have "is_ascii_hexdigit (hex_digit d)" if "d < 16" for d
    using that by (auto simp: hex_digit_def is_ascii_hexdigit_def is_ascii_digit_def)
  moreover have "set (show_hex n) =
      (if n < 16 then {hex_digit n} else set (show_hex (n div 16)) \<union> {hex_digit (n mod 16)})"
    by (subst show_hex.simps) simp
  ultimately show ?case using 1 by (cases "n < 16") auto
qed

lemma show_hex_no_sep [simp]: "45 \<notin> set (show_hex n)" "46 \<notin> set (show_hex n)"
  using show_hex_chars by (fastforce simp: is_ascii_hexdigit_def is_ascii_digit_def)+

lemma pad_hex_no_sep [simp]: "45 \<notin> set (pad_left w 48 (show_hex n))"
  by (simp add: pad_left_def)

lemma cut_inj:
  fixes p q :: ustr
  assumes p: "d \<notin> set p" "d \<notin> set q"
  shows "p @ d # s = q @ d # t \<longleftrightarrow> p = q \<and> s = t"
proof
  assume eq: "p @ d # s = q @ d # t"
  show "p = q \<and> s = t"
    using arg_cong [OF eq, of "split_once d"] p by simp
qed simp

lemma time_parts_inj:
  fixes t u k :: int
  assumes "0 \<le> t" "0 \<le> u" "0 < k"
    and "nat (t div k) = nat (u div k)" "nat (t mod k) = nat (u mod k)"
  shows "t = u"
proof -
  have "t div k = u div k" "t mod k = u mod k"
    using assms by (simp_all add: nat_eq_iff2 pos_imp_zdiv_nonneg_iff)
  then show ?thesis by (metis div_mult_mod_eq)
qed

lemma etag_of_inj:
  fixes m m' :: file_meta
  assumes "etag_of m = etag_of m'" "0 \<le> mtime m" "0 \<le> mtime m'"
  shows "m = (m' :: file_meta)"
proof -
  define h where "h (m :: file_meta) = inode_prefix m @ show_hex (nat (mtime m div 1000000000))" for m
  define t where "t (m :: file_meta) = pad_left 8 48 (show_hex (nat (mtime m mod 1000000000)))" for m
  have no46: "46 \<notin> set (h m)" for m by (simp add: h_def inode_prefix_def split: option.splits)
  have no45: "45 \<notin> set (t m)" for m by (simp add: t_def)
  have shape: "etag_of m = 34 # h m @ 46 # t m @ 45 # show_hex (unat (size_bytes m)) @ [34]" for m :: file_meta
    by (simp add: etag_of_def h_def t_def)
  have eqs: "h m = h m'" "t m = t m'" "unat (size_bytes m) = unat (size_bytes m')"
    using assms(1) unfolding shape by (simp_all add: cut_inj no46 no45 show_hex_inj)
  have ino45: "45 \<in> set (h m) \<longleftrightarrow> ino m \<noteq> None" for m :: file_meta
    by (cases "ino m") (simp_all add: h_def inode_prefix_def)
  have "ino m = ino m' \<and> nat (mtime m div 1000000000) = nat (mtime m' div 1000000000)"
    using eqs(1) ino45 [of m] ino45 [of m']
    by (auto simp: h_def inode_prefix_def cut_inj show_hex_inj split: option.splits)
  moreover have "nat (mtime m mod 1000000000) = nat (mtime m' mod 1000000000)"
    using eqs(2) by (simp add: t_def pad_hex_inj)
  ultimately have "ino m = ino m'" "mtime m = mtime m'"
    using time_parts_inj [OF assms(2,3), of 1000000000] by simp_all
  with eqs(3) show ?thesis by (simp add: word_unat_eq_iff)
qed

subsection \<open>Resuming a download\<close>

lemma show_hex_visible: "c \<in> set (show_hex n) \<Longrightarrow> 48 \<le> c \<and> c < 127"
  using show_hex_chars by (fastforce simp: is_ascii_hexdigit_def is_ascii_digit_def)

lemma etag_visible: "c \<in> set (etag_of m) \<Longrightarrow> 34 \<le> c \<and> c < 127"
  by (auto simp: etag_of_def inode_prefix_def pad_left_def dest: show_hex_visible split: option.splits)

lemma etag_trim [simp]: "trim (etag_of m) = etag_of m"
proof (rule trim_by_none, rule ballI)
  fix c assume "c \<in> set (etag_of m)"
  then have "34 \<le> c \<and> c < 127" by (rule etag_visible)
  then show "\<not> is_whitespace c" by (auto simp: is_whitespace_def)
qed

lemma etag_quoted [simp]:
  "starts_with [34] (etag_of m)" "\<not> starts_with (str ''W/'') (etag_of m)"
  by (simp_all add: etag_of_def starts_with_def str_def)

lemma header_str_visible:
  "headers name = Some v \<Longrightarrow> (\<And>c. c \<in> set v \<Longrightarrow> 32 \<le> c \<and> c < 127) \<Longrightarrow> header_str headers name = Some v"
  by (auto simp: header_str_def list_all_iff)

text \<open>
  What an \<open>If-Range\<close> value names. The tag form names one version; a tag is strong, so a
  weak one names none. The date form can tell versions apart only by the second.
\<close>

definition names_version :: "(ustr \<Rightarrow> int option) \<Rightarrow> ustr \<Rightarrow> file_meta \<Rightarrow> bool" where
  "names_version parse_http_date v m \<longleftrightarrow>
     trim v = etag_of m \<or>
     \<not> starts_with [34] (trim v) \<and> \<not> starts_with (str ''W/'') (trim v) \<and>
     (\<exists>date. parse_http_date (trim v) = Some date \<and>
        date div 1000000000 = mtime m div 1000000000)"

lemma truncate_secs_same:
  assumes "0 \<le> t"
  shows "truncate_secs t = truncate_secs d \<longleftrightarrow> d div 1000000000 = t div 1000000000"
proof (cases "0 \<le> d")
  case True
  then show ?thesis using assms by (auto simp: truncate_secs_def)
next
  case False
  then have "d div 1000000000 < 0" by (simp add: neg_imp_zdiv_neg_iff)
  moreover have "0 \<le> t div 1000000000" using assms by (simp add: pos_imp_zdiv_nonneg_iff)
  ultimately show ?thesis using False assms by (simp add: truncate_secs_def)
qed

lemma if_range_names:
  assumes "etag v = etag_of m" "last_modified v = mtime m" "0 \<le> mtime m"
  shows "if_range_matches parse_http_date cond v \<longleftrightarrow> names_version parse_http_date cond m"
proof (cases "starts_with [34] (trim cond) \<or> starts_with (str ''W/'') (trim cond)")
  case True
  then show ?thesis
    using etag_quoted [of m] unfolding if_range_matches_def names_version_def strong_eq_def Let_def
      assms(1) by metis
next
  case False
  then have "trim cond \<noteq> etag_of m" using etag_quoted(1) [of m] by metis
  then show ?thesis
    using False truncate_secs_same [OF assms(3)]
    by (cases "parse_http_date (trim cond)")
      (simp_all add: if_range_matches_def names_version_def Let_def assms(2))
qed

lemma tag_names_one_version:
  assumes "0 \<le> mtime m0" "0 \<le> mtime m"
  shows "names_version parse_http_date (etag_of m0) m \<longleftrightarrow> m0 = m"
  using assms etag_of_inj [of m0 m] by (auto simp: names_version_def)

lemma serve_partial_body:
  assumes "parse_range h (len f) = Partial a b"
  shows "body (serve fmt True f (Partial a b) spec) =
      take (Suc (unat b) - unat a) (drop (unat a) (bytes f))"
  using http_range.span(1) [OF assms] by (simp add: serve_def)

definition resume_headers :: "64 word \<Rightarrow> ustr \<Rightarrow> header_map" where
  "resume_headers k v =
     [Range \<mapsto> range_request (show_nat (unat k)) [], If_Range \<mapsto> v]"

lemma resume_range:
  "parse_range (header_str (resume_headers k v) Range) n =
     (if k < n then Partial k (n - 1) else NotSatisfiable)"
proof -
  have "32 \<le> c \<and> c < 127" if "c \<in> set (range_request (show_nat (unat k)) [])" for c
    using that show_nat_digit [of c "unat k"]
    by (auto simp: range_request_def str_def is_ascii_digit_def)
  then have "header_str (resume_headers k v) Range =
      Some (range_request (show_nat (unat k)) [])"
    by (intro header_str_visible) (auto simp: resume_headers_def)
  then show ?thesis by (simp add: parse_range_open parse_range_beyond)
qed

lemma resume_outcome:
  assumes "etag v = etag_of m" "last_modified v = mtime m" "0 \<le> mtime m"
    and "list_all (\<lambda>c. 32 \<le> c \<and> c < 127) cond"
  shows "evaluate parse_http_date (resume_headers k cond) v n =
    Proceed (if \<not> names_version parse_http_date cond m then Full
             else if k < n then Partial k (n - 1) else NotSatisfiable)"
proof -
  have given: "header_str (resume_headers k cond) If_Range = Some cond"
    using assms(4) by (intro header_str_visible) (auto simp: resume_headers_def list_all_iff)
  have none: "header_str (resume_headers k cond) n = None" if "n \<noteq> Range" "n \<noteq> If_Range" for n
    using that by (simp add: header_str_def resume_headers_def)
  show ?thesis
    using if_range_names [OF assms(1-3), of parse_http_date cond]
    by (simp add: evaluate_def resolve_range_def none given resume_range)
qed

text \<open>
  C1: a client that holds the first \<open>k\<close> bytes of a version, asks for the rest and sends any
  printable \<open>If-Range\<close> value gets, from the file as it now is: the whole of it when the value
  does not name its version; when it does, exactly the tail from \<open>k\<close>, or a 416 without a body
  where there is none. A version's own tag names that version and no other, so a resume
  with a tag is never a splice of two versions. A date names every version of its second: with
  the date form two versions written within one second can be spliced.
\<close>

theorem resume_never_splices:
  assumes "open_path (Some (content, m)) = Some f" "length content = unat (size_bytes m)"
    and "list_all (\<lambda>c. 32 \<le> c \<and> c < 127) cond"
  shows "(\<exists>outcome.
      evaluate parse_http_date (resume_headers k cond) (validator f) (len f) = Proceed outcome \<and>
      (let r = serve fmt_http_date True f outcome spec in
       if \<not> names_version parse_http_date cond m then status r = 200 \<and> body r = content
       else if k < size_bytes m then status r = 206 \<and> take (unat k) content @ body r = content
       else status r = 416 \<and> body r = [])) \<and>
    (\<forall>m0. 0 \<le> mtime m0 \<longrightarrow> names_version parse_http_date (etag_of m0) m = (m0 = m))"
proof -
  have f: "bytes f = content" "len f = size_bytes m" "etag (validator f) = etag_of m"
      "last_modified (validator f) = mtime m" "0 \<le> mtime m"
    using assms(1) by (auto simp: open_path_def split: if_splits)
  note outcome = resume_outcome [OF f(3-5) assms(3), of parse_http_date k "size_bytes m"]
  have tail: "body (serve fmt_http_date True f (Partial k (size_bytes m - 1)) spec) = drop (unat k) content"
    if "k < size_bytes m"
    using serve_partial_body [of _ f, unfolded f, OF parse_range_open [OF that]]
      unat_pred [OF that] assms(2)
    by simp
  have full: "body (serve fmt_http_date True f Full spec) = content"
    using assms(2) by (simp add: serve_def f)
  have "let r = serve fmt_http_date True f
          (if \<not> names_version parse_http_date cond m then Full
           else if k < size_bytes m then Partial k (size_bytes m - 1) else NotSatisfiable) spec in
       if \<not> names_version parse_http_date cond m then status r = 200 \<and> body r = content
       else if k < size_bytes m then status r = 206 \<and> take (unat k) content @ body r = content
       else status r = 416 \<and> body r = []"
    using tail full by (simp add: Let_def) (simp add: serve_def)
  then show ?thesis
    using outcome tag_names_one_version [OF _ f(5)] unfolding f(2) by blast
qed

definition version_at :: "int \<Rightarrow> file_meta" where
  "version_at t = \<lparr> ino = Some 7, mtime = t, size_bytes = 3 \<rparr>"

definition current_file :: open_file where
  "current_file = \<lparr> bytes = [1, 2, 3], len = 3,
     validator = \<lparr> etag = etag_of (version_at 6000000001), last_modified = 6000000001 \<rparr> \<rparr>"

text \<open>
  Two bytes of a three byte file are held. The tag of an older version yields the new file
  whole; the file's own tag, and a date of its second, yield the last byte.
\<close>

theorem resume_never_splices_witness:
  "(\<exists>outcome. evaluate (\<lambda>_. None) (resume_headers 2 (etag_of (version_at 5000000001)))
      (validator current_file) 3 = Proceed outcome \<and>
      status (serve (\<lambda>_. []) True current_file outcome (media [] None)) = 200 \<and>
      body (serve (\<lambda>_. []) True current_file outcome (media [] None)) = [1, 2, 3]) \<and>
   (\<exists>outcome. evaluate (\<lambda>_. None) (resume_headers 2 (etag_of (version_at 6000000001)))
      (validator current_file) 3 = Proceed outcome \<and>
      status (serve (\<lambda>_. []) True current_file outcome (media [] None)) = 206 \<and>
      body (serve (\<lambda>_. []) True current_file outcome (media [] None)) = [3]) \<and>
   (\<exists>outcome. evaluate (\<lambda>_. Some 6000000000) (resume_headers 2 (str ''a date''))
      (validator current_file) 3 = Proceed outcome \<and>
      status (serve (\<lambda>_. []) True current_file outcome (media [] None)) = 206 \<and>
      body (serve (\<lambda>_. []) True current_file outcome (media [] None)) = [3])"
proof -
  have f: "open_path (Some ([1, 2, 3], version_at 6000000001)) = Some current_file"
    "length [1, 2, 3 :: nat] = unat (size_bytes (version_at 6000000001))" "len current_file = 3"
    by (simp_all add: open_path_def current_file_def version_at_def)
  have tags: "list_all (\<lambda>c. 32 \<le> c \<and> c < 127) (etag_of m)" for m
    using etag_visible [of _ m] by (fastforce simp: list_all_iff)
  have date: "list_all (\<lambda>c. 32 \<le> c \<and> c < 127) (str ''a date'')" by code_simp
  have date_text: "trim (str ''a date'') = str ''a date''" "\<not> starts_with [34] (str ''a date'')"
      "\<not> starts_with (str ''W/'') (str ''a date'')" by code_simp+
  have names: "\<not> names_version p (etag_of (version_at 5000000001)) (version_at 6000000001)"
      "names_version p (etag_of (version_at 6000000001)) (version_at 6000000001)"
      "names_version (\<lambda>_. Some 6000000000) (str ''a date'') (version_at 6000000001)" for p
    using tag_names_one_version [of "version_at 5000000001" "version_at 6000000001" p]
      date_text
    by (simp_all add: version_at_def names_version_def)
  note use = resume_never_splices [OF f(1,2), where k = 2 and fmt_http_date = "\<lambda>_. []"
      and spec = "media [] None", unfolded f(3) Let_def, THEN conjunct1]
  show ?thesis
    using use [OF tags [of "version_at 5000000001"], of "\<lambda>_. None"]
      use [OF tags [of "version_at 6000000001"], of "\<lambda>_. None"]
      use [OF date, of "\<lambda>_. Some 6000000000"] names
    by (simp add: version_at_def)
qed

text \<open>
  C19: whatever range a request asked for, the response the file is served with announces
  exactly the bytes it carries, and a 206 carries only bytes of the file.
\<close>

theorem serve_announces_its_bytes:
  assumes "length (bytes f) = unat (len f)"
  shows "let r = serve fmt_http_date True f (parse_range h (len f)) spec in
    (status r = 416 \<and> body r = [] \<or>
     resp_headers r Content_Length = Some (show_nat (length (body r)))) \<and>
    (status r = 206 \<longrightarrow> (\<exists>a b. a \<le> b \<and> b < len f \<and>
       body r = take (Suc (unat b) - unat a) (drop (unat a) (bytes f)) \<and> body r \<noteq> []))"
proof (cases "parse_range h (len f)")
  case Full
  then show ?thesis
    using assms by (simp add: serve_def)
next
  case NotSatisfiable
  then show ?thesis by (simp add: serve_def Let_def)
next
  case (Partial a b)
  note bound = parse_range_partial [OF Partial] and slice = http_range.slice_length [OF Partial assms]
  have "0 < unat (b - a + 1)"
    using http_range.span(1) [OF Partial] bound by (simp add: word_le_nat_alt)
  then have "body (serve fmt_http_date True f (Partial a b) spec) \<noteq> []"
    using slice by (auto simp: serve_def)
  moreover have "resp_headers (serve fmt_http_date True f (Partial a b) spec) Content_Length =
      Some (show_nat (length (body (serve fmt_http_date True f (Partial a b) spec))))"
    using slice by (simp add: serve_def)
  ultimately show ?thesis
    using bound serve_partial_body [OF Partial] unfolding Partial Let_def by blast
qed

text \<open>A three byte file asked for from its second byte on.\<close>

theorem serve_announces_its_bytes_witness:
  "let r = serve (\<lambda>_. []) True current_file
             (parse_range (Some (range_request (show_nat 1) [])) (len current_file)) (media [] None)
   in status r = 206 \<and> body r = [2, 3] \<and> resp_headers r Content_Length = Some (show_nat 2)"
proof -
  have f: "length (bytes current_file) = unat (len current_file)" by (simp add: current_file_def)
  have p: "parse_range (Some (range_request (show_nat 1) [])) (len current_file) = Partial 1 2"
    using parse_range_open [of 1 3] by (simp add: current_file_def)
  have "status (serve (\<lambda>_. []) True current_file (Partial 1 2) (media [] None)) = 206"
    "body (serve (\<lambda>_. []) True current_file (Partial 1 2) (media [] None)) = [2, 3]"
    by (simp_all add: serve_def current_file_def)
  then show ?thesis
    using serve_announces_its_bytes [OF f, of "\<lambda>_. []" "Some (range_request (show_nat 1) [])" "media [] None"]
    unfolding p Let_def by (simp add: numeral_2_eq_2)
qed

end
