(* ===== verification/Rate_Limit.thy ===== *)
theory Rate_Limit
  imports Omni_Prelude "HOL-Library.AList_Mapping"
begin

text \<open>
  The per-IP fixed-window limiter and the principal it is keyed on
  (\<open>server/src/rate_limit.rs\<close>). Instants and durations are natural numbers, whose truncated
  difference is \<open>Instant::duration_since\<close>; the mutex makes a run a sequence of \<open>allow\<close> steps.
  The lemmas reduce the limiter to an independent fixed window per address, so that neither
  the other clients nor the pruning of stale buckets changes an answer, and bound what any
  interval of one window's length can admit.
\<close>

subsection \<open>The switch\<close>

datatype rate_limits = Enforced | Disabled

definition is_truthy :: "ustr \<Rightarrow> bool" where
  "is_truthy v \<longleftrightarrow> v = str ''1'' \<or> v = str ''true'' \<or> v = str ''yes''"

text \<open>An \<open>OsStr\<close> that is not UTF-8 is \<open>Some None\<close>.\<close>

definition from_dev_flag :: "ustr option option \<Rightarrow> bool \<Rightarrow> rate_limits" where
  "from_dev_flag dev_flag release_build =
     (if release_build then Enforced
      else case dev_flag of
             Some (Some v) \<Rightarrow> if is_truthy v then Disabled else Enforced
           | _ \<Rightarrow> Enforced)"

definition at_boot :: "bool \<Rightarrow> ustr option option \<Rightarrow> rate_limits" where
  "at_boot debug_assertions dev_flag = from_dev_flag dev_flag (\<not> debug_assertions)"

definition trust_forwarded_for :: "ustr option \<Rightarrow> bool" where
  "trust_forwarded_for env = (case env of Some v \<Rightarrow> is_truthy v | None \<Rightarrow> False)"

subsection \<open>The limiter\<close>

record bucket =
  window_start :: nat
  bcount :: nat

record 'ip rate_limiter =
  inner :: "('ip, bucket) mapping"
  window :: nat
  max_requests :: nat
  limits :: rate_limits

definition WINDOW_SECS :: nat where "WINDOW_SECS = 60"

definition MAX_REQUESTS :: nat where "MAX_REQUESTS = 10"

definition MAX_BUCKETS :: nat where "MAX_BUCKETS = 10000"

definition with_policy :: "nat \<Rightarrow> nat \<Rightarrow> 'ip rate_limiter" where
  "with_policy w m =
     \<lparr> inner = Mapping.empty, window = w, max_requests = m, limits = Enforced \<rparr>"

definition new_limiter :: "'ip rate_limiter" where
  "new_limiter = with_policy WINDOW_SECS MAX_REQUESTS"

definition with_limits :: "rate_limits \<Rightarrow> 'ip rate_limiter \<Rightarrow> 'ip rate_limiter" where
  "with_limits k l = l\<lparr> limits := k \<rparr>"

definition allow :: "nat \<Rightarrow> 'ip \<Rightarrow> 'ip rate_limiter \<Rightarrow> bool \<times> 'ip rate_limiter" where
  "allow now ip l =
     (if limits l = Disabled then (True, l)
      else
        let m = (if Mapping.size (inner l) \<ge> MAX_BUCKETS
                 then Mapping.filter (\<lambda>_ b. now - window_start b < window l * 2) (inner l)
                 else inner l);
            b = (case Mapping.lookup m ip of
                   Some b \<Rightarrow> b | None \<Rightarrow> \<lparr> window_start = now, bcount = 0 \<rparr>);
            b = (if now - window_start b \<ge> window l
                 then \<lparr> window_start = now, bcount = 0 \<rparr> else b)
        in if bcount b \<ge> max_requests l then (False, l\<lparr> inner := Mapping.update ip b m \<rparr>)
           else (True, l\<lparr> inner := Mapping.update ip (b\<lparr> bcount := bcount b + 1 \<rparr>) m \<rparr>))"

subsection \<open>Whose budget a request spends\<close>

definition visible_ascii :: "ustr \<Rightarrow> bool" where
  "visible_ascii v \<longleftrightarrow> list_all (\<lambda>c. (32 \<le> c \<and> c < 127) \<or> c = 9) v"

text \<open>\<open>xff\<close> holds the values of the request's \<open>X-Forwarded-For\<close> lines, in order.\<close>

definition trusted_forwarded_hop :: "(ustr \<Rightarrow> 'ip option) \<Rightarrow> ustr list \<Rightarrow> 'ip option" where
  "trusted_forwarded_hop parse_ip xff =
     (if xff = [] then None
      else let line = last xff in
        if \<not> visible_ascii line then None
        else parse_ip (trim (case rsplit_once 44 line of Some (_, hop) \<Rightarrow> hop | None \<Rightarrow> line)))"

definition client_ip ::
  "(ustr \<Rightarrow> 'ip option) \<Rightarrow> 'ip \<Rightarrow> bool \<Rightarrow> 'ip option \<Rightarrow> ustr list \<Rightarrow> 'ip" where
  "client_ip parse_ip unspecified trust connect_info xff =
     (case (if trust then trusted_forwarded_hop parse_ip xff else None) of
        Some ip \<Rightarrow> ip
      | None \<Rightarrow> (case connect_info of Some ip \<Rightarrow> ip | None \<Rightarrow> unspecified))"

datatype 'r answer = TooManyRequests | Next 'r

text \<open>The middleware, over an inner service \<open>next\<close>; the address is \<open>resolve_ip\<close>'s.\<close>

definition rate_limit_by_ip ::
  "nat \<Rightarrow> ('req \<Rightarrow> 'ip) \<Rightarrow> ('req \<Rightarrow> 'r) \<Rightarrow> 'req \<Rightarrow> 'ip rate_limiter \<Rightarrow> 'r answer \<times> 'ip rate_limiter" where
  "rate_limit_by_ip now resolve_ip run_next req l =
     (case allow now (resolve_ip req) l of
        (False, l') \<Rightarrow> (TooManyRequests, l')
      | (True, l') \<Rightarrow> (Next (run_next req), l'))"

definition rate_limit_paths ::
  "ustr list \<Rightarrow> ('req \<Rightarrow> ustr) \<Rightarrow> nat \<Rightarrow> ('req \<Rightarrow> 'ip) \<Rightarrow> ('req \<Rightarrow> 'r) \<Rightarrow> 'req \<Rightarrow> 'ip rate_limiter \<Rightarrow>
     'r answer \<times> 'ip rate_limiter" where
  "rate_limit_paths prefixes path now resolve_ip run_next req l =
     (if \<not> list_ex (\<lambda>p. starts_with p (path req)) prefixes then (Next (run_next req), l)
      else rate_limit_by_ip now resolve_ip run_next req l)"

text \<open>A run of the limiter: the requests in the order they take the lock.\<close>

fun answers :: "'ip rate_limiter \<Rightarrow> (nat \<times> 'ip) list \<Rightarrow> bool list" where
  "answers l [] = []"
| "answers l ((now, ip) # reqs) = (case allow now ip l of (ok, l') \<Rightarrow> ok # answers l' reqs)"

subsection \<open>The specification: one fixed window\<close>

type_synonym fw = "(nat \<times> nat) option"

definition fw_open :: "nat \<Rightarrow> fw \<Rightarrow> nat \<Rightarrow> nat \<times> nat" where
  "fw_open w s t =
     (case s of None \<Rightarrow> (t, 0) | Some (st, c) \<Rightarrow> if t - st \<ge> w then (t, 0) else (st, c))"

definition fw_step :: "nat \<Rightarrow> nat \<Rightarrow> fw \<Rightarrow> nat \<Rightarrow> bool \<times> fw" where
  "fw_step w m s t =
     (case fw_open w s t of
        (st, c) \<Rightarrow> if c \<ge> m then (False, Some (st, c)) else (True, Some (st, c + 1)))"

fun fw_answers :: "nat \<Rightarrow> nat \<Rightarrow> fw \<Rightarrow> nat list \<Rightarrow> bool list" where
  "fw_answers w m s [] = []"
| "fw_answers w m s (t # ts) = (case fw_step w m s t of (ok, s') \<Rightarrow> ok # fw_answers w m s' ts)"

text \<open>The answers one address received.\<close>

definition own :: "'ip \<Rightarrow> (nat \<times> 'ip) list \<Rightarrow> bool list \<Rightarrow> bool list" where
  "own ip reqs oks = map snd (filter (\<lambda>((_, i), _). i = ip) (zip reqs oks))"

definition own_times :: "'ip \<Rightarrow> (nat \<times> 'ip) list \<Rightarrow> nat list" where
  "own_times ip reqs = map fst (filter (\<lambda>(_, i). i = ip) reqs)"

lemma own_Cons [simp]:
  "own ip ((t, i) # reqs) (ok # oks) = (if i = ip then ok # own ip reqs oks else own ip reqs oks)"
  by (simp add: own_def)

lemma own_times_Cons [simp]:
  "own_times ip ((t, i) # reqs) = (if i = ip then t # own_times ip reqs else own_times ip reqs)"
  by (simp add: own_times_def)

lemma own_Nil [simp]: "own ip [] oks = []" "own_times ip [] = []"
  by (simp_all add: own_def own_times_def)

text \<open>
  The bucket of an address simulates its window; a bucket may be missing only when its window
  is already over.
\<close>

definition simulates :: "nat \<Rightarrow> nat \<Rightarrow> bucket option \<Rightarrow> fw \<Rightarrow> bool" where
  "simulates w now b s \<longleftrightarrow>
     (case b of
        Some b \<Rightarrow> s = Some (window_start b, bcount b)
      | None \<Rightarrow> (case s of None \<Rightarrow> True | Some (st, c) \<Rightarrow> now - st \<ge> w))"

lemma simulates_mono: "simulates w t b s \<Longrightarrow> t \<le> t' \<Longrightarrow> simulates w t' b s"
  by (auto simp: simulates_def split: option.splits)

lemma simulates_prune:
  "simulates w t b s \<Longrightarrow>
     simulates w t (case b of Some b \<Rightarrow> if t - window_start b < w * 2 then Some b else None | None \<Rightarrow> None) s"
  by (auto simp: simulates_def split: option.splits)

lemma allow_refines:
  assumes "limits l = Enforced" and sim: "\<forall>i. simulates (window l) t (Mapping.lookup (inner l) i) (s i)"
    and "allow t ip l = (ok, l')"
  shows "window l' = window l \<and> max_requests l' = max_requests l \<and> limits l' = Enforced \<and>
    ok = fst (fw_step (window l) (max_requests l) (s ip) t) \<and>
    (\<forall>i. simulates (window l) t (Mapping.lookup (inner l') i)
      ((s(ip := snd (fw_step (window l) (max_requests l) (s ip) t))) i))"
proof -
  define m where "m = (if Mapping.size (inner l) \<ge> MAX_BUCKETS
    then Mapping.filter (\<lambda>_ b. t - window_start b < window l * 2) (inner l) else inner l)"
  define b where "b = (case Mapping.lookup m ip of Some b \<Rightarrow> b | None \<Rightarrow> \<lparr> window_start = t, bcount = 0 \<rparr>)"
  define b' where "b' = (if t - window_start b \<ge> window l then \<lparr> window_start = t, bcount = 0 \<rparr> else b)"
  have simm: "simulates (window l) t (Mapping.lookup m i) (s i)" for i
    using sim simulates_prune [of "window l" t "Mapping.lookup (inner l) i" "s i"]
    by (simp add: m_def lookup_filter)
  have same: "fw_open (window l) (s ip) t = (window_start b', bcount b')"
    using simm [of ip] by (auto simp: b'_def b_def fw_open_def simulates_def split: option.splits)
  have "allow t ip l =
      (if bcount b' \<ge> max_requests l then (False, l\<lparr> inner := Mapping.update ip b' m \<rparr>)
       else (True, l\<lparr> inner := Mapping.update ip (b'\<lparr> bcount := bcount b' + 1 \<rparr>) m \<rparr>))"
    using assms(1) by (simp add: allow_def m_def b_def b'_def Let_def)
  with assms(1,3) simm show ?thesis
    by (auto simp: fw_step_def same lookup_update' simulates_def split: if_splits)
qed

lemma answers_refine:
  assumes "limits l = Enforced"
    and "\<forall>i. simulates (window l) t0 (Mapping.lookup (inner l) i) (s i)"
    and "sorted (t0 # map fst reqs)"
  shows "own ip reqs (answers l reqs) =
    fw_answers (window l) (max_requests l) (s ip) (own_times ip reqs)"
  using assms
proof (induction reqs arbitrary: l t0 s)
  case (Cons r reqs)
  obtain t i where r: "r = (t, i)" by (cases r)
  obtain ok l' where a: "allow t i l = (ok, l')" by (cases "allow t i l")
  have "\<forall>j. simulates (window l) t (Mapping.lookup (inner l) j) (s j)"
    using Cons.prems(2,3) simulates_mono by (fastforce simp: r)
  note step = allow_refines [OF Cons.prems(1) this a]
  have "sorted (t # map fst reqs)" using Cons.prems(3) by (simp add: r)
  with step Cons.IH [of l' t "s(i := snd (fw_step (window l) (max_requests l) (s i) t))"]
  have "own ip reqs (answers l' reqs) =
      fw_answers (window l) (max_requests l)
        ((s(i := snd (fw_step (window l) (max_requests l) (s i) t))) ip) (own_times ip reqs)"
    by simp
  with step show ?case by (auto simp: r a split: prod.split)
qed simp

text \<open>
  C18: the answers one address gets depend only on its own requests, as one fixed window counts
  them: neither other clients nor the pruning of a full map changes any of them.
\<close>

theorem limiter_is_fixed_window_per_ip:
  assumes "sorted (map fst reqs)"
  shows "own ip reqs (answers (with_policy w m) reqs) = fw_answers w m None (own_times ip reqs)"
proof -
  have "sorted (0 # map fst reqs)" using assms by simp
  from answers_refine [of "with_policy w m", OF _ _ this, of "\<lambda>_. None" ip] show ?thesis
    by (simp add: with_policy_def simulates_def)
qed

theorem limiter_is_fixed_window_per_ip_witness:
  "own (1::nat) [(5, 1::nat), (6, 2), (7, 1), (20, 1)]
     (answers (with_policy 10 1) [(5, 1::nat), (6, 2), (7, 1), (20, 1)]) = [True, False, True]"
proof -
  have s: "sorted (map fst [(5::nat, 1::nat), (6, 2), (7, 1), (20, 1)])" by simp
  show ?thesis unfolding limiter_is_fixed_window_per_ip [OF s] by code_simp
qed

subsection \<open>The budget of any interval\<close>

definition admitted_in :: "nat \<Rightarrow> nat \<Rightarrow> nat list \<Rightarrow> bool list \<Rightarrow> nat" where
  "admitted_in a w ts oks = length (filter (\<lambda>(t, ok). ok \<and> a \<le> t \<and> t < a + w) (zip ts oks))"

lemma admitted_in_Cons [simp]:
  "admitted_in a w (t # ts) (ok # oks) =
     (if ok \<and> a \<le> t \<and> t < a + w then 1 else 0) + admitted_in a w ts oks"
  by (simp add: admitted_in_def)

lemma admitted_in_Nil [simp]: "admitted_in a w [] oks = 0"
  by (simp add: admitted_in_def)

lemma admitted_late: "\<forall>t \<in> set ts. a + w \<le> t \<Longrightarrow> admitted_in a w ts oks = 0"
proof (induction ts arbitrary: oks)
  case (Cons t ts)
  then show ?case by (cases oks) (auto simp: admitted_in_def)
qed simp

lemma fw_answers_same:
  "\<not> w \<le> t - st \<Longrightarrow> fw_answers w m (Some (st, c)) (t # ts) =
     (c < m) # fw_answers w m (Some (st, if c < m then c + 1 else c)) ts"
  by (simp add: fw_step_def fw_open_def)

lemma admitted_in_window:
  assumes "sorted (st # ts)" "a \<le> st" "c \<le> m"
  shows "admitted_in a w ts (fw_answers w m (Some (st, c)) ts) \<le> m - c"
  using assms
proof (induction ts arbitrary: c)
  case (Cons t ts)
  show ?case
  proof (cases "t - st \<ge> w")
    case True
    then have "\<forall>u \<in> set (t # ts). a + w \<le> u" using Cons.prems by fastforce
    then have "admitted_in a w (t # ts) oks = 0" for oks by (rule admitted_late)
    then show ?thesis by (simp only: le0)
  next
    case False
    have st: "sorted (st # ts)" using Cons.prems(1) by simp
    show ?thesis
      using Cons.IH [OF st Cons.prems(2), of "if c < m then c + 1 else c"] Cons.prems(3)
      unfolding fw_answers_same [OF False] by (cases "c < m") auto
  qed
qed simp

lemma admitted_after_reset:
  assumes "sorted (t # ts)" "a \<le> t"
  shows "admitted_in a w (t # ts) (case fw_step w m (Some (t, 0)) t of
    (ok, s') \<Rightarrow> ok # fw_answers w m s' ts) \<le> m"
  using admitted_in_window [OF assms, of 1 m w] admitted_in_window [OF assms, of 0 m w]
  by (cases "m = 0") (auto simp: fw_step_def fw_open_def)

lemma fw_reset: "t - st \<ge> w \<Longrightarrow> fw_step w m (Some (st, c)) t = fw_step w m (Some (t, 0)) t"
  by (simp add: fw_step_def fw_open_def)

lemma admitted_in_tail:
  assumes "sorted (st # ts)" "\<forall>t \<in> set ts. a \<le> t" "c \<le> m"
  shows "admitted_in a w ts (fw_answers w m (Some (st, c)) ts) \<le> (m - c) + m"
  using assms
proof (induction ts arbitrary: c)
  case (Cons t ts)
  show ?case
  proof (cases "t - st \<ge> w")
    case True
    have "sorted (t # ts)" "a \<le> t" using Cons.prems by auto
    from admitted_after_reset [OF this, of w m] show ?thesis
      unfolding fw_answers.simps fw_reset [OF True] by simp
  next
    case False
    have st: "sorted (st # ts)" "\<forall>t \<in> set ts. a \<le> t" using Cons.prems by simp_all
    show ?thesis
      using Cons.IH [OF st, of "if c < m then c + 1 else c"] Cons.prems(3)
      unfolding fw_answers_same [OF False] by (cases "c < m") auto
  qed
qed simp

lemma fw_state_le:
  assumes "sorted (st # t # ts)" "c \<le> m"
  obtains st' c' where "snd (fw_step w m (Some (st, c)) t) = Some (st', c')"
    "sorted (st' # ts)" "c' \<le> m"
proof -
  obtain st' c' where o: "fw_open w (Some (st, c)) t = (st', c')" by force
  have "st' \<in> {st, t}" "c' \<le> m" using o assms by (auto simp: fw_open_def split: if_splits)
  with assms that [of st' c'] that [of st' "c' + 1"] show ?thesis
    by (cases "c' \<ge> m") (auto simp: fw_step_def o)
qed

lemma admitted_in_any:
  assumes "sorted (st # ts)" "c \<le> m"
  shows "admitted_in a w ts (fw_answers w m (Some (st, c)) ts) \<le> 2 * m"
  using assms
proof (induction ts arbitrary: st c)
  case (Cons t ts)
  show ?case
  proof (cases "a \<le> t")
    case True
    then have "\<forall>u \<in> set (t # ts). a \<le> u" using Cons.prems(1) by auto
    from admitted_in_tail [OF Cons.prems(1) this Cons.prems(2), of w] show ?thesis by linarith
  next
    case False
    obtain st' c' where s': "snd (fw_step w m (Some (st, c)) t) = Some (st', c')"
      "sorted (st' # ts)" "c' \<le> m"
      using fw_state_le [OF Cons.prems] by blast
    from Cons.IH [OF s'(2,3)] False s'(1) show ?thesis
      by (cases "fw_step w m (Some (st, c)) t") simp
  qed
qed simp

text \<open>
  an address whose requests come in time order is admitted at most twice its budget in any
  interval of one window's length, wherever the interval starts.
\<close>

theorem admitted_at_most_twice:
  assumes "sorted (map fst reqs)"
  shows "admitted_in a w (own_times ip reqs) (own ip reqs (answers (with_policy w m) reqs)) \<le> 2 * m"
proof -
  have "sorted (0 # map fst reqs)" using assms by simp
  then have a: "own ip reqs (answers (with_policy w m) reqs) = fw_answers w m None (own_times ip reqs)"
    using answers_refine [of "with_policy w m" 0 "\<lambda>_. None" reqs ip]
    by (simp add: with_policy_def simulates_def)
  have sorted: "sorted (own_times ip reqs)"
    using assms by (simp add: own_times_def sorted_filter)
  show ?thesis
  proof (cases "own_times ip reqs")
    case (Cons t ts)
    have "fw_step w m None t = fw_step w m (Some (t, 0)) t" by (simp add: fw_step_def fw_open_def)
    then have "fw_answers w m None (t # ts) = fw_answers w m (Some (t, 0)) (t # ts)" by simp
    then show ?thesis
      using admitted_in_any [of t "t # ts" 0 m a w] sorted unfolding a Cons by simp
  qed simp
qed

theorem admitted_at_most_twice_witness:
  "admitted_in 9 10 [8, 9, 10, 18, 18]
     (own (1::nat) [(8, 1::nat), (9, 1), (10, 1), (18, 1), (18, 1)]
       (answers (with_policy 10 2) [(8, 1::nat), (9, 1), (10, 1), (18, 1), (18, 1)])) \<le> 4"
  using admitted_at_most_twice [of "[(8, 1), (9, 1), (10, 1), (18, 1), (18, 1)]" 9 10 "1::nat" 2]
  by (simp add: own_times_def)

subsection \<open>The key cannot be chosen by the client\<close>

lemma rsplit_once_last: "d \<notin> set hop \<Longrightarrow> rsplit_once d (pre @ d # hop) = Some (pre, hop)"
  by (simp add: rsplit_once_def)

text \<open>
  without the opt-in the header is not consulted; with it, only what the nearest proxy
  appended counts, on whatever line and after whatever hops the client sent, so a client that
  rotates its own hops stays in one bucket.
\<close>

theorem client_hops_are_ignored:
  assumes "44 \<notin> set hop" "visible_ascii (pre @ 44 # hop)" "visible_ascii (pre' @ 44 # hop)"
  shows "client_ip parse_ip unspec False peer xff = client_ip parse_ip unspec False peer xff' \<and>
    client_ip parse_ip unspec True peer (lines @ [pre @ 44 # hop]) =
      client_ip parse_ip unspec True peer (lines' @ [pre' @ 44 # hop])"
  using assms by (simp add: client_ip_def trusted_forwarded_hop_def rsplit_once_last)

theorem client_hops_are_ignored_witness:
  "client_ip (\<lambda>s. if s = str ''10.0.0.9'' then Some 9 else None) (0::nat) True (Some 7)
       [str ''6.6.6.6'', str ''1.2.3.4, 10.0.0.9''] =
     client_ip (\<lambda>s. if s = str ''10.0.0.9'' then Some 9 else None) 0 True (Some 7)
       [str ''5.5.5.5, 10.0.0.9'']"
proof -
  have l: "str ''1.2.3.4, 10.0.0.9'' = str ''1.2.3.4'' @ 44 # str '' 10.0.0.9''"
    "str ''5.5.5.5, 10.0.0.9'' = str ''5.5.5.5'' @ 44 # str '' 10.0.0.9''" by code_simp+
  have v: "44 \<notin> set (str '' 10.0.0.9'')" "visible_ascii (str ''1.2.3.4'' @ 44 # str '' 10.0.0.9'')"
    "visible_ascii (str ''5.5.5.5'' @ 44 # str '' 10.0.0.9'')" by code_simp+
  show ?thesis
    unfolding l using conjunct2 [OF client_hops_are_ignored [OF v]]
    by (metis (no_types, lifting) append_Cons append_Nil)
qed

text \<open>A release build never switches the limiters off.\<close>

lemma release_build_enforces: "from_dev_flag flag True = Enforced"
  by (simp add: from_dev_flag_def)

end
