(* ===== verification/Auth_Model.thy ===== *)
theory Auth_Model
  imports Omni_Prelude
begin

text \<open>
  The data the auth layer shares (\<open>db/src/auth.rs\<close>, \<open>password.rs\<close>, \<open>token.rs\<close>,
  \<open>device.rs\<close>): error space, table rows, wire records and the pure validators and parsers.
  \<open>auth_env\<close> holds what is outside the source: argon2, SHA-256, the random source, Unicode
  lower-casing, base64/UTF-8 decoding and the clock.
\<close>

datatype auth_error =
    InvalidCredentials
  | Validation ustr
  | UsernameTaken
  | UserNotFound
  | LastAdmin
  | SessionNotFound
  | DeviceNotFound
  | ApiTokenNotFound
  | AccountLocked int
  | RegistrationDisabled
  | Internal ustr
  | Crypto ustr

datatype session_kind = Cookie | Bearer | Basic | ApiToken

fun session_kind_str :: "session_kind \<Rightarrow> string" where
  "session_kind_str Cookie = ''cookie''"
| "session_kind_str Bearer = ''bearer''"
| "session_kind_str Basic = ''basic''"
| "session_kind_str ApiToken = ''api_token''"

record auth_env =
  now :: int
  argon2_verify :: "ustr \<Rightarrow> ustr \<Rightarrow> auth_error + bool"
  argon2_hash :: "ustr \<Rightarrow> auth_error + ustr"
  sha256 :: "ustr \<Rightarrow> ustr"
  random_token :: "auth_error + ustr"
  lowercase :: "ustr \<Rightarrow> ustr"

subsection \<open>Tables\<close>

record user_row =
  u_id :: int
  u_username :: ustr
  u_password_hash :: ustr
  u_is_admin :: int
  u_can_upload :: int
  u_can_edit :: int
  u_can_download :: int
  u_can_request :: int
  u_kindle_email :: "ustr option"
  u_display_name :: "ustr option"
  u_hidden_formats :: "ustr option"
  u_book_detail_scroll_stops :: int
  u_stack_series :: int
  u_share_stats :: int
  u_stats_exclusions :: "ustr option"
  u_failed_login_count :: int
  u_locked_until :: "int option"
  u_created_at :: int
  u_password_changed_at :: int

record session_row =
  s_id :: int
  s_token_hash :: ustr
  s_user_id :: int
  s_device_id :: "int option"
  s_impersonator_id :: "int option"
  s_kind :: string
  s_created_at :: int
  s_last_used_at :: int
  s_expires_at :: int
  s_revoked_at :: "int option"
  s_user_agent :: "ustr option"

record device =
  d_id :: int
  d_user_id :: int
  d_name :: ustr
  d_client_kind :: ustr
  d_client_version :: "ustr option"
  d_created_at :: int
  d_last_seen_at :: int

record api_token_row =
  t_id :: int
  t_token_hash :: ustr
  t_user_id :: int
  t_name :: ustr
  t_created_at :: int
  t_last_used_at :: "int option"
  t_revoked_at :: "int option"
  t_suffix :: "ustr option"

record auth_db =
  users :: "user_row list"
  user_seq :: int
  sessions :: "session_row list"
  session_seq :: int
  devices :: "device list"
  device_seq :: int
  api_tokens :: "api_token_row list"
  token_seq :: int
  avatars :: "int list"
  wishlists :: "(int \<times> ustr) list"
  registration_setting :: "string option"

subsection \<open>Wire records\<close>

record user =
  usr_id :: int
  usr_username :: ustr
  usr_is_admin :: bool
  usr_can_upload :: bool
  usr_can_edit :: bool
  usr_can_download :: bool
  usr_can_request :: bool
  usr_kindle_email :: "ustr option"
  usr_display_name :: "ustr option"
  usr_has_avatar :: bool
  usr_hidden_formats :: "ustr list"
  usr_book_detail_scroll_stops :: bool
  usr_stack_series :: bool
  usr_share_stats :: bool
  usr_stats_exclusions :: "ustr option"

record session =
  ses_id :: int
  ses_user_id :: int
  ses_device_id :: "int option"
  ses_impersonator_id :: "int option"
  ses_kind :: session_kind
  ses_created_at :: int
  ses_last_used_at :: int
  ses_expires_at :: int
  ses_user_agent :: "ustr option"

record new_session =
  ns_session :: session
  ns_raw_token :: ustr

text \<open>
  The stored filter blob is passed on as it is: its JSON reading
  (\<open>parse_stats_exclusions\<close>) belongs to the stats filters.
\<close>

definition parse_hidden_formats :: "ustr option \<Rightarrow> ustr list" where
  "parse_hidden_formats raw =
     (case raw of
        None \<Rightarrow> []
      | Some s \<Rightarrow> filter (\<lambda>t. t \<noteq> []) (map trim (split_on 44 s)))"

definition has_avatar :: "auth_db \<Rightarrow> int \<Rightarrow> bool" where
  "has_avatar db i \<longleftrightarrow> list_ex (\<lambda>j. j = i) (avatars db)"

definition row_to_user :: "auth_db \<Rightarrow> user_row \<Rightarrow> user" where
  "row_to_user db r =
     \<lparr> usr_id = u_id r, usr_username = u_username r,
       usr_is_admin = (u_is_admin r \<noteq> 0),
       usr_can_upload = (u_can_upload r \<noteq> 0),
       usr_can_edit = (u_can_edit r \<noteq> 0),
       usr_can_download = (u_can_download r \<noteq> 0),
       usr_can_request = (u_can_request r \<noteq> 0),
       usr_kindle_email = u_kindle_email r,
       usr_display_name = u_display_name r,
       usr_has_avatar = has_avatar db (u_id r),
       usr_hidden_formats = parse_hidden_formats (u_hidden_formats r),
       usr_book_detail_scroll_stops = (u_book_detail_scroll_stops r \<noteq> 0),
       usr_stack_series = (u_stack_series r \<noteq> 0),
       usr_share_stats = (u_share_stats r \<noteq> 0),
       usr_stats_exclusions = u_stats_exclusions r \<rparr>"

text \<open>The joined credential and user row carries the same columns.\<close>

definition build_user_from_joined_row :: "auth_db \<Rightarrow> user_row \<Rightarrow> user" where
  "build_user_from_joined_row db r = row_to_user db r"

subsection \<open>The database after its migrations, and concrete rows\<close>

definition fresh_auth_db :: auth_db where
  "fresh_auth_db =
     \<lparr> users = [], user_seq = 0, sessions = [], session_seq = 0, devices = [], device_seq = 0,
       api_tokens = [], token_seq = 0, avatars = [], wishlists = [],
       registration_setting = Some ''1'' \<rparr>"

text \<open>An environment for evaluation: the identity as hash, equality as its check.\<close>

definition plain_env :: "int \<Rightarrow> ustr \<Rightarrow> auth_env" where
  "plain_env t token =
     \<lparr> now = t, argon2_verify = (\<lambda>p h. Inr (p = h)), argon2_hash = (\<lambda>p. Inr p),
       sha256 = (\<lambda>s. s), random_token = Inr token, lowercase = to_ascii_lowercase \<rparr>"

definition plain_user :: "int \<Rightarrow> ustr \<Rightarrow> ustr \<Rightarrow> user_row" where
  "plain_user i name password =
     \<lparr> u_id = i, u_username = name, u_password_hash = password, u_is_admin = 1,
       u_can_upload = 1, u_can_edit = 1, u_can_download = 1, u_can_request = 1,
       u_kindle_email = None, u_display_name = None, u_hidden_formats = None,
       u_book_detail_scroll_stops = 0, u_stack_series = 0, u_share_stats = 1,
       u_stats_exclusions = None, u_failed_login_count = 0, u_locked_until = None,
       u_created_at = 0, u_password_changed_at = 0 \<rparr>"

definition plain_session :: "int \<Rightarrow> ustr \<Rightarrow> int \<Rightarrow> int \<Rightarrow> int \<Rightarrow> session_row" where
  "plain_session i h uid used expires =
     \<lparr> s_id = i, s_token_hash = h, s_user_id = uid, s_device_id = None, s_impersonator_id = None,
       s_kind = ''cookie'', s_created_at = 0, s_last_used_at = used, s_expires_at = expires,
       s_revoked_at = None, s_user_agent = None \<rparr>"

definition plain_db :: auth_db where
  "plain_db = fresh_auth_db\<lparr>
     users := [plain_user 1 (str ''ada'') (str ''pw''), plain_user 2 (str ''bob'') (str ''pw2'')],
     user_seq := 2,
     sessions := [plain_session 1 (str ''t1'') 1 900 5000, plain_session 2 (str ''t2'') 1 900 950,
                  plain_session 3 (str ''t3'') 2 900 5000],
     session_seq := 3 \<rparr>"

end
