(* ===== verification/Sessions.thy ===== *)
theory Sessions
  imports Auth_Model
begin

text \<open>
  Sessions, API tokens and devices (\<open>db/src/auth/session.rs\<close>, \<open>api_token.rs\<close>,
  \<open>device.rs\<close>, \<open>token.rs\<close>): minting, resolving, listing, revoking and pruning. The locale
  \<open>credential_store\<close> is what the extractors rely on, and both token tables provide it.
\<close>

subsection \<open>Tokens in request headers\<close>

definition SESSION_COOKIE_NAME :: ustr where
  "SESSION_COOKIE_NAME = str ''omnibus_session''"

definition SESSION_COOKIE_NAME_HOST_PREFIXED :: ustr where
  "SESSION_COOKIE_NAME_HOST_PREFIXED = str ''__Host-omnibus_session''"

definition is_session_cookie_name :: "ustr \<Rightarrow> bool" where
  "is_session_cookie_name name \<longleftrightarrow>
     name = SESSION_COOKIE_NAME \<or> name = SESSION_COOKIE_NAME_HOST_PREFIXED"

text \<open>The cookie loop of \<open>parse_session_token\<close>, with the plain-name fallback it carries.\<close>

fun scan_cookies :: "ustr list \<Rightarrow> ustr option \<Rightarrow> ustr option" where
  "scan_cookies [] fallback = fallback"
| "scan_cookies (pair # pairs) fallback =
     (case split_once 61 (trim pair) of
        None \<Rightarrow> scan_cookies pairs fallback
      | Some (n, v) \<Rightarrow>
          let name = trim n; token = trim v in
          if token = [] then scan_cookies pairs fallback
          else if name = SESSION_COOKIE_NAME_HOST_PREFIXED then Some token
          else if name = SESSION_COOKIE_NAME \<and> fallback = None then scan_cookies pairs (Some token)
          else scan_cookies pairs fallback)"

definition bearer_token :: "ustr option \<Rightarrow> ustr option" where
  "bearer_token authorization =
     (case authorization of
        None \<Rightarrow> None
      | Some value \<Rightarrow>
          (case strip_prefix (str ''Bearer '') value of
             None \<Rightarrow> None
           | Some rest \<Rightarrow> if trim rest = [] then None else Some (trim rest)))"

definition parse_session_token ::
  "ustr option \<Rightarrow> ustr option \<Rightarrow> (ustr \<times> session_kind) option" where
  "parse_session_token authorization cookie_header =
     (case bearer_token authorization of
        Some token \<Rightarrow> Some (token, Bearer)
      | None \<Rightarrow>
          (case cookie_header of
             None \<Rightarrow> None
           | Some cookies \<Rightarrow>
               map_option (\<lambda>token. (token, Cookie)) (scan_cookies (split_on 59 cookies) None)))"

text \<open>Base64 and UTF-8 decoding are parameters; only the first colon splits.\<close>

definition parse_basic_credentials ::
  "(ustr \<Rightarrow> ustr option) \<Rightarrow> ustr \<Rightarrow> (ustr \<times> ustr) option" where
  "parse_basic_credentials decode_text authorization =
     do {
       encoded \<leftarrow> strip_prefix (str ''Basic '') authorization;
       text \<leftarrow> decode_text (trim encoded);
       (name, password) \<leftarrow> split_once 58 text;
       (if name = [] then None else Some (name, password))
     }"

subsection \<open>Sessions\<close>

definition SESSION_TOUCH_THRESHOLD_SECS :: int where "SESSION_TOUCH_THRESHOLD_SECS = 5 * 60"
definition SESSION_IDLE_TIMEOUT_SECS :: int where "SESSION_IDLE_TIMEOUT_SECS = 7 * 24 * 60 * 60"
definition LIST_SESSIONS_LIMIT :: nat where "LIST_SESSIONS_LIMIT = 500"
definition MAX_USER_AGENT_CHARS :: nat where "MAX_USER_AGENT_CHARS = 512"

definition clamp_user_agent :: "ustr option \<Rightarrow> ustr option" where
  "clamp_user_agent ua =
     (case ua of
        None \<Rightarrow> None
      | Some s \<Rightarrow> if trim s = [] then None else Some (take MAX_USER_AGENT_CHARS (trim s)))"

definition row_to_session :: "session_row \<Rightarrow> auth_error + session" where
  "row_to_session r =
     and_then
       (if s_kind r = ''cookie'' then Inr Cookie
        else if s_kind r = ''bearer'' then Inr Bearer else Inl SessionNotFound)
       (\<lambda>k. Inr \<lparr> ses_id = s_id r, ses_user_id = s_user_id r, ses_device_id = s_device_id r,
                  ses_impersonator_id = s_impersonator_id r, ses_kind = k,
                  ses_created_at = s_created_at r, ses_last_used_at = s_last_used_at r,
                  ses_expires_at = s_expires_at r, ses_user_agent = s_user_agent r \<rparr>)"

text \<open>The UNIQUE constraint on \<open>token_hash\<close> and the CHECK on \<open>kind\<close> make the insert fail.\<close>

definition insert_session ::
  "auth_env \<Rightarrow> int \<Rightarrow> int option \<Rightarrow> int option \<Rightarrow> session_kind \<Rightarrow> int \<Rightarrow> ustr option \<Rightarrow> auth_db \<Rightarrow>
     auth_error + new_session \<times> auth_db" where
  "insert_session env uid did imp kind ttl ua db =
     and_then (random_token env) (\<lambda>raw.
     let h = sha256 env raw; i = session_seq db + 1;
         row = \<lparr> s_id = i, s_token_hash = h, s_user_id = uid, s_device_id = did,
                 s_impersonator_id = imp, s_kind = session_kind_str kind,
                 s_created_at = now env, s_last_used_at = now env,
                 s_expires_at = now env + ttl, s_revoked_at = None,
                 s_user_agent = clamp_user_agent ua \<rparr>
     in
     if list_ex (\<lambda>r. s_token_hash r = h) (sessions db) \<or> \<not> (kind = Cookie \<or> kind = Bearer)
     then Inl (Internal (str ''constraint failed''))
     else
       Inr (\<lparr> ns_session =
                \<lparr> ses_id = i, ses_user_id = uid, ses_device_id = did, ses_impersonator_id = imp,
                  ses_kind = kind, ses_created_at = now env, ses_last_used_at = now env,
                  ses_expires_at = now env + ttl, ses_user_agent = clamp_user_agent ua \<rparr>,
              ns_raw_token = raw \<rparr>,
            db\<lparr> sessions := sessions db @ [row], session_seq := i \<rparr>))"

definition create_session ::
  "auth_env \<Rightarrow> int \<Rightarrow> int option \<Rightarrow> session_kind \<Rightarrow> int \<Rightarrow> ustr option \<Rightarrow> auth_db \<Rightarrow>
     auth_error + new_session \<times> auth_db" where
  "create_session env uid did kind ttl ua db = insert_session env uid did None kind ttl ua db"

definition create_impersonation_session ::
  "auth_env \<Rightarrow> int \<Rightarrow> int \<Rightarrow> int \<Rightarrow> ustr option \<Rightarrow> auth_db \<Rightarrow> auth_error + new_session \<times> auth_db" where
  "create_impersonation_session env uid imp ttl ua db =
     insert_session env uid None (Some imp) Cookie ttl ua db"

definition fetch_session_row :: "ustr \<Rightarrow> auth_db \<Rightarrow> auth_error + session_row \<times> user_row" where
  "fetch_session_row h db =
     and_then (ok_or SessionNotFound (fetch_optional (\<lambda>r. s_token_hash r = h) (sessions db))) (\<lambda>r.
     and_then (ok_or SessionNotFound (fetch_optional (\<lambda>u. u_id u = s_user_id r) (users db))) (\<lambda>u.
     Inr (r, u)))"

definition check_session_validity :: "session_row \<Rightarrow> int \<Rightarrow> auth_error + unit" where
  "check_session_validity r t =
     (if s_revoked_at r \<noteq> None \<or> s_expires_at r \<le> t then Inl SessionNotFound
      else if t - s_last_used_at r > SESSION_IDLE_TIMEOUT_SECS then Inl SessionNotFound
      else Inr ())"

definition touch_last_used :: "int \<Rightarrow> int \<Rightarrow> auth_db \<Rightarrow> auth_db" where
  "touch_last_used i t db =
     db\<lparr> sessions := update_where (\<lambda>r. s_id r = i \<and> s_revoked_at r = None \<and> s_expires_at r > t)
           (\<lambda>r. r\<lparr> s_last_used_at := t \<rparr>) (sessions db) \<rparr>"

definition lookup_session :: "auth_env \<Rightarrow> ustr \<Rightarrow> auth_db \<Rightarrow> auth_error + (user \<times> session) \<times> auth_db" where
  "lookup_session env raw db =
     and_then (fetch_session_row (sha256 env raw) db) (\<lambda>(r, u).
     and_then (check_session_validity r (now env)) (\<lambda>_.
     and_then (row_to_session r) (\<lambda>s.
     Inr ((build_user_from_joined_row db u, s),
          if now env - s_last_used_at r \<ge> SESSION_TOUCH_THRESHOLD_SECS
          then touch_last_used (s_id r) (now env) db else db))))"

subsection \<open>Revocation, listing, pruning\<close>

definition revoke_where :: "(session_row \<Rightarrow> bool) \<Rightarrow> int \<Rightarrow> auth_db \<Rightarrow> auth_db" where
  "revoke_where P t db =
     db\<lparr> sessions := update_where P (\<lambda>r. r\<lparr> s_revoked_at := Some t \<rparr>) (sessions db) \<rparr>"

definition revoke_session :: "auth_env \<Rightarrow> int \<Rightarrow> auth_db \<Rightarrow> auth_db" where
  "revoke_session env i db = revoke_where (\<lambda>r. s_id r = i) (now env) db"

definition revoke_all_sessions_for_user :: "auth_env \<Rightarrow> int \<Rightarrow> auth_db \<Rightarrow> nat \<times> auth_db" where
  "revoke_all_sessions_for_user env uid db =
     (let P = (\<lambda>r. (s_user_id r = uid \<or> s_impersonator_id r = Some uid) \<and> s_revoked_at r = None)
      in (rows_affected P (sessions db), revoke_where P (now env) db))"

definition revoke_all_sessions_for_user_except ::
  "auth_env \<Rightarrow> int \<Rightarrow> int \<Rightarrow> auth_db \<Rightarrow> nat \<times> auth_db" where
  "revoke_all_sessions_for_user_except env uid keep db =
     (let P = (\<lambda>r. (s_user_id r = uid \<or> s_impersonator_id r = Some uid) \<and> s_id r \<noteq> keep \<and>
                   s_revoked_at r = None)
      in (rows_affected P (sessions db), revoke_where P (now env) db))"

definition revoke_session_for_user :: "auth_env \<Rightarrow> int \<Rightarrow> int \<Rightarrow> auth_db \<Rightarrow> auth_error + auth_db" where
  "revoke_session_for_user env uid i db =
     (let P = (\<lambda>r. s_id r = i \<and> s_user_id r = uid \<and> s_revoked_at r = None) in
      if rows_affected P (sessions db) = 0 then Inl SessionNotFound
      else Inr (revoke_where P (now env) db))"

definition revoke_session_checked :: "auth_env \<Rightarrow> int \<Rightarrow> auth_db \<Rightarrow> auth_error + auth_db" where
  "revoke_session_checked env i db =
     (let P = (\<lambda>r. s_id r = i \<and> s_revoked_at r = None) in
      if rows_affected P (sessions db) = 0 then Inl SessionNotFound
      else Inr (revoke_where P (now env) db))"

text \<open>\<open>ORDER BY last_used_at DESC\<close>; rows with equal keys keep their table order.\<close>

fun collect_results :: "('e + 'a) list \<Rightarrow> 'e + 'a list" where
  "collect_results [] = Inr []"
| "collect_results (x # xs) = and_then x (\<lambda>y. and_then (collect_results xs) (\<lambda>ys. Inr (y # ys)))"

definition list_sessions_for_user :: "auth_env \<Rightarrow> int \<Rightarrow> auth_db \<Rightarrow> auth_error + session list" where
  "list_sessions_for_user env uid db =
     (let idle_cutoff = now env - SESSION_IDLE_TIMEOUT_SECS;
          live = filter (\<lambda>r. s_user_id r = uid \<and> s_revoked_at r = None \<and> s_expires_at r > now env \<and>
                             s_last_used_at r \<ge> idle_cutoff) (sessions db)
      in collect_results
           (map row_to_session
             (take LIST_SESSIONS_LIMIT (sort_key (\<lambda>r. - s_last_used_at r) live))))"

definition prune_expired_sessions :: "auth_env \<Rightarrow> auth_db \<Rightarrow> nat \<times> auth_db" where
  "prune_expired_sessions env db =
     (let idle_cutoff = now env - SESSION_IDLE_TIMEOUT_SECS;
          P1 = (\<lambda>r. s_revoked_at r \<noteq> None); rows1 = delete_where P1 (sessions db);
          P2 = (\<lambda>r. s_expires_at r \<le> now env); rows2 = delete_where P2 rows1;
          P3 = (\<lambda>r. s_last_used_at r < idle_cutoff); rows3 = delete_where P3 rows2
      in (rows_affected P1 (sessions db) + rows_affected P2 rows1 + rows_affected P3 rows2,
          db\<lparr> sessions := rows3 \<rparr>))"

subsection \<open>API tokens\<close>

definition API_TOKEN_PREFIX :: ustr where "API_TOKEN_PREFIX = str ''omni_''"
definition API_TOKEN_RAW_LEN :: nat where "API_TOKEN_RAW_LEN = byte_len API_TOKEN_PREFIX + 43"
definition MAX_API_TOKEN_NAME_CHARS :: nat where "MAX_API_TOKEN_NAME_CHARS = 100"
definition LIST_API_TOKENS_LIMIT :: nat where "LIST_API_TOKENS_LIMIT = 500"
definition API_TOKEN_TOUCH_THRESHOLD_SECS :: int where "API_TOKEN_TOUCH_THRESHOLD_SECS = 5 * 60"
definition API_TOKEN_SUFFIX_CHARS :: nat where "API_TOKEN_SUFFIX_CHARS = 4"

definition is_api_token_shaped :: "ustr \<Rightarrow> bool" where
  "is_api_token_shaped raw \<longleftrightarrow>
     byte_len raw = API_TOKEN_RAW_LEN \<and> starts_with API_TOKEN_PREFIX raw"

record api_token =
  at_id :: int
  at_user_id :: int
  at_name :: ustr
  at_created_at :: int
  at_last_used_at :: "int option"
  at_revoked_at :: "int option"
  at_suffix :: "ustr option"

definition row_to_api_token :: "api_token_row \<Rightarrow> api_token" where
  "row_to_api_token r =
     \<lparr> at_id = t_id r, at_user_id = t_user_id r, at_name = t_name r,
       at_created_at = t_created_at r, at_last_used_at = t_last_used_at r,
       at_revoked_at = t_revoked_at r, at_suffix = t_suffix r \<rparr>"

definition validate_token_name :: "ustr \<Rightarrow> auth_error + ustr" where
  "validate_token_name name =
     (if trim name = [] \<or> length (trim name) > MAX_API_TOKEN_NAME_CHARS
      then Inl (Validation (str ''token name must be 1'' @ [8211] @
                            show_nat MAX_API_TOKEN_NAME_CHARS @ str '' characters''))
      else Inr (trim name))"

definition create_api_token ::
  "auth_env \<Rightarrow> int \<Rightarrow> ustr \<Rightarrow> auth_db \<Rightarrow> auth_error + (api_token \<times> ustr) \<times> auth_db" where
  "create_api_token env uid name db =
     and_then (validate_token_name name) (\<lambda>name.
     and_then (random_token env) (\<lambda>body.
     let raw = API_TOKEN_PREFIX @ body; h = sha256 env raw; i = token_seq db + 1;
         row = \<lparr> t_id = i, t_token_hash = h, t_user_id = uid, t_name = name,
                 t_created_at = now env, t_last_used_at = None, t_revoked_at = None,
                 t_suffix = Some (drop (length raw - API_TOKEN_SUFFIX_CHARS) raw) \<rparr>
     in
     if list_ex (\<lambda>r. t_token_hash r = h) (api_tokens db)
     then Inl (Internal (str ''constraint failed''))
     else Inr ((row_to_api_token row, raw),
               db\<lparr> api_tokens := api_tokens db @ [row], token_seq := i \<rparr>)))"

definition touch_api_token :: "int \<Rightarrow> int \<Rightarrow> auth_db \<Rightarrow> auth_db" where
  "touch_api_token i t db =
     db\<lparr> api_tokens := update_where (\<lambda>r. t_id r = i \<and> t_revoked_at r = None)
           (\<lambda>r. r\<lparr> t_last_used_at := Some t \<rparr>) (api_tokens db) \<rparr>"

definition lookup_api_token ::
  "auth_env \<Rightarrow> ustr \<Rightarrow> auth_db \<Rightarrow> auth_error + (user \<times> api_token) \<times> auth_db" where
  "lookup_api_token env raw db =
     and_then (ok_or SessionNotFound
        (fetch_optional (\<lambda>r. t_token_hash r = sha256 env raw) (api_tokens db))) (\<lambda>r.
     and_then (ok_or SessionNotFound (fetch_optional (\<lambda>u. u_id u = t_user_id r) (users db))) (\<lambda>u.
     if t_revoked_at r \<noteq> None then Inl SessionNotFound
     else
       Inr ((build_user_from_joined_row db u, row_to_api_token r),
            if now env - (case t_last_used_at r of Some x \<Rightarrow> x | None \<Rightarrow> 0)
                 \<ge> API_TOKEN_TOUCH_THRESHOLD_SECS
            then touch_api_token (t_id r) (now env) db else db)))"

definition list_api_tokens_for_user :: "int \<Rightarrow> auth_db \<Rightarrow> api_token list" where
  "list_api_tokens_for_user uid db =
     map row_to_api_token
       (take LIST_API_TOKENS_LIMIT
         (sort_key (\<lambda>r. - t_created_at r) (sort_key (\<lambda>r. - t_id r)
           (filter (\<lambda>r. t_user_id r = uid \<and> t_revoked_at r = None) (api_tokens db)))))"

definition revoke_tokens_where :: "(api_token_row \<Rightarrow> bool) \<Rightarrow> int \<Rightarrow> auth_db \<Rightarrow> auth_db" where
  "revoke_tokens_where P t db =
     db\<lparr> api_tokens := update_where P (\<lambda>r. r\<lparr> t_revoked_at := Some t \<rparr>) (api_tokens db) \<rparr>"

definition revoke_api_token_for_user :: "auth_env \<Rightarrow> int \<Rightarrow> int \<Rightarrow> auth_db \<Rightarrow> auth_error + auth_db" where
  "revoke_api_token_for_user env uid i db =
     (let P = (\<lambda>r. t_id r = i \<and> t_user_id r = uid \<and> t_revoked_at r = None) in
      if rows_affected P (api_tokens db) = 0 then Inl ApiTokenNotFound
      else Inr (revoke_tokens_where P (now env) db))"

definition rename_api_token_for_user :: "int \<Rightarrow> int \<Rightarrow> ustr \<Rightarrow> auth_db \<Rightarrow> auth_error + auth_db" where
  "rename_api_token_for_user uid i name db =
     and_then (validate_token_name name) (\<lambda>name.
     let P = (\<lambda>r. t_id r = i \<and> t_user_id r = uid \<and> t_revoked_at r = None) in
     if rows_affected P (api_tokens db) = 0 then Inl ApiTokenNotFound
     else Inr (db\<lparr> api_tokens := update_where P (\<lambda>r. r\<lparr> t_name := name \<rparr>) (api_tokens db) \<rparr>))"

subsection \<open>Resolving a raw token\<close>

text \<open>\<open>i64::MAX\<close> is the API token's expiry.\<close>

definition resolve_token :: "auth_env \<Rightarrow> ustr \<Rightarrow> auth_db \<Rightarrow> auth_error + (user \<times> session) \<times> auth_db" where
  "resolve_token env raw db =
     (if is_api_token_shaped raw then
        and_then (lookup_api_token env raw db) (\<lambda>((user, token), db').
        Inr ((user,
              \<lparr> ses_id = 0, ses_user_id = usr_id user, ses_device_id = None,
                ses_impersonator_id = None, ses_kind = ApiToken,
                ses_created_at = at_created_at token,
                ses_last_used_at =
                  (case at_last_used_at token of Some t \<Rightarrow> t | None \<Rightarrow> at_created_at token),
                ses_expires_at = 2 ^ 63 - 1, ses_user_agent = None \<rparr>), db'))
      else lookup_session env raw db)"

datatype session_auth_error = Unauthenticated | AuthInternal auth_error

definition validate_session ::
  "auth_env \<Rightarrow> ustr option \<Rightarrow> ustr option \<Rightarrow> auth_db \<Rightarrow> session_auth_error + (user \<times> session) \<times> auth_db" where
  "validate_session env authorization cookie_header db =
     (case parse_session_token authorization cookie_header of
        None \<Rightarrow> Inl Unauthenticated
      | Some (token, _) \<Rightarrow>
          (case resolve_token env token db of
             Inr pair \<Rightarrow> Inr pair
           | Inl SessionNotFound \<Rightarrow> Inl Unauthenticated
           | Inl e \<Rightarrow> Inl (AuthInternal e)))"

subsection \<open>Devices\<close>

definition MAX_DEVICE_NAME_CHARS :: nat where "MAX_DEVICE_NAME_CHARS = 255"
definition MAX_CLIENT_VERSION_CHARS :: nat where "MAX_CLIENT_VERSION_CHARS = 64"
definition LIST_DEVICES_LIMIT :: nat where "LIST_DEVICES_LIMIT = 500"
definition MAX_DEVICES_PER_USER :: nat where "MAX_DEVICES_PER_USER = 50"

definition validate_device_field :: "ustr option \<Rightarrow> nat \<Rightarrow> ustr \<Rightarrow> auth_error + unit" where
  "validate_device_field value max_chars label =
     (case value of
        None \<Rightarrow> Inr ()
      | Some v \<Rightarrow>
          if length v > max_chars
          then Inl (Validation (str ''invalid '' @ label @ str '': too long''))
          else if list_ex is_control v
          then Inl (Validation (str ''invalid '' @ label @ str '': contains control characters''))
          else Inr ())"

definition validate_device_name :: "ustr option \<Rightarrow> auth_error + unit" where
  "validate_device_name name = validate_device_field name MAX_DEVICE_NAME_CHARS (str ''device_name'')"

definition validate_client_version :: "ustr option \<Rightarrow> auth_error + unit" where
  "validate_client_version v =
     validate_device_field v MAX_CLIENT_VERSION_CHARS (str ''client_version'')"

text \<open>
  Deleting devices sets the \<open>device_id\<close> of their sessions to NULL; the cap trigger of
  migration 0041 keeps the fifty most recently seen.
\<close>

definition delete_devices :: "(device \<Rightarrow> bool) \<Rightarrow> auth_db \<Rightarrow> auth_db" where
  "delete_devices P db =
     (let gone = map d_id (filter P (devices db)) in
      db\<lparr> devices := delete_where P (devices db),
          sessions := update_where (\<lambda>r. case s_device_id r of Some d \<Rightarrow> d \<in> set gone | None \<Rightarrow> False)
            (\<lambda>r. r\<lparr> s_device_id := None \<rparr>) (sessions db) \<rparr>)"

definition cap_devices :: "int \<Rightarrow> auth_db \<Rightarrow> auth_db" where
  "cap_devices uid db =
     (let kept = map d_id (take MAX_DEVICES_PER_USER
            (sort_key (\<lambda>d. - d_last_seen_at d) (sort_key (\<lambda>d. - d_id d)
              (filter (\<lambda>d. d_user_id d = uid) (devices db)))))
      in delete_devices (\<lambda>d. d_user_id d = uid \<and> d_id d \<notin> set kept) db)"

definition register_device ::
  "auth_env \<Rightarrow> int \<Rightarrow> ustr \<Rightarrow> ustr \<Rightarrow> ustr option \<Rightarrow> auth_db \<Rightarrow> auth_error + device \<times> auth_db" where
  "register_device env uid name client_kind version db =
     and_then (validate_device_name (Some name)) (\<lambda>_.
     and_then (validate_client_version version) (\<lambda>_.
     let i = device_seq db + 1;
         d = \<lparr> d_id = i, d_user_id = uid, d_name = name, d_client_kind = client_kind,
               d_client_version = version, d_created_at = now env, d_last_seen_at = now env \<rparr>
     in Inr (d, cap_devices uid (db\<lparr> devices := devices db @ [d], device_seq := i \<rparr>))))"

definition list_devices_for_user :: "int \<Rightarrow> auth_db \<Rightarrow> device list" where
  "list_devices_for_user uid db =
     take LIST_DEVICES_LIMIT
       (sort_key (\<lambda>d. - d_last_seen_at d) (filter (\<lambda>d. d_user_id d = uid) (devices db)))"

definition revoke_device :: "auth_env \<Rightarrow> int \<Rightarrow> auth_db \<Rightarrow> auth_error + auth_db" where
  "revoke_device env i db =
     (if rows_affected (\<lambda>d. d_id d = i) (devices db) = 0 then Inl DeviceNotFound
      else Inr (delete_devices (\<lambda>d. d_id d = i)
             (revoke_where (\<lambda>r. s_device_id r = Some i \<and> s_revoked_at r = None) (now env) db)))"

subsection \<open>What the extractors rely on\<close>

text \<open>
  A table of hashed credentials: a token resolves to the live row with its hash, and a
  revocation sweep takes rows out of the live ones for good.
\<close>

locale credential_store =
  fixes rows :: "'db \<Rightarrow> 'r list" and key :: "'r \<Rightarrow> ustr" and live :: "int \<Rightarrow> 'r \<Rightarrow> bool"
    and resolve :: "int \<Rightarrow> ustr \<Rightarrow> 'db \<Rightarrow> 'r option"
    and revoke :: "('r \<Rightarrow> bool) \<Rightarrow> int \<Rightarrow> 'db \<Rightarrow> 'db" and kill :: "int \<Rightarrow> 'r \<Rightarrow> 'r"
  assumes resolve_iff: "distinct (map key (rows db)) \<Longrightarrow>
      resolve t h db = Some r \<longleftrightarrow> r \<in> set (rows db) \<and> key r = h \<and> live t r"
    and revoke_rows: "rows (revoke P t db) = update_where P (kill t) (rows db)"
    and kill_key: "key (kill t r) = key r" and kill_dead: "\<not> live t' (kill t r)"
begin

lemma revoke_keys: "map key (rows (revoke P t db)) = map key (rows db)"
  by (simp add: revoke_rows map_update_where kill_key)

lemma same_key: "distinct (map key (rows db)) \<Longrightarrow> r \<in> set (rows db) \<Longrightarrow> r' \<in> set (rows db) \<Longrightarrow>
    key r = key r' \<Longrightarrow> r = r'"
  by (simp add: distinct_map inj_on_def)

lemma resolve_revoked_iff:
  assumes "distinct (map key (rows db))"
  shows "resolve t' h (revoke P t db) = Some x \<longleftrightarrow> x \<in> set (rows db) \<and> \<not> P x \<and> key x = h \<and> live t' x"
proof -
  have "distinct (map key (rows (revoke P t db)))" using assms by (simp only: revoke_keys)
  from resolve_iff [OF this] show ?thesis
    using kill_dead by (auto simp: revoke_rows set_update_where)
qed

lemma revoked_stays_out:
  assumes "distinct (map key (rows db))" "r \<in> set (rows db)" "P r"
  shows "resolve t' (key r) (revoke P t db) = None"
proof -
  have "resolve t' (key r) (revoke P t db) \<noteq> Some x" for x
    unfolding resolve_revoked_iff [OF assms(1)]
    using same_key [OF assms(1,2), of x] assms(3) by metis
  then show ?thesis by (rule option_NoneI)
qed

lemma others_unaffected:
  assumes "distinct (map key (rows db))" "r \<in> set (rows db)" "\<not> P r"
  shows "resolve t' (key r) (revoke P t db) = resolve t' (key r) db"
proof -
  have "resolve t' (key r) (revoke P t db) = Some x \<longleftrightarrow> resolve t' (key r) db = Some x" for x
    unfolding resolve_revoked_iff [OF assms(1)] resolve_iff [OF assms(1)]
    using same_key [OF assms(1,2), of x] assms(3) by metis
  then show ?thesis by (rule option_eqI)
qed

lemma resolve_live_only:
  assumes "distinct (map key (rows db))" "rows db' = filter (live t) (rows db)"
  shows "resolve t h db' = resolve t h db"
proof -
  have "distinct (map key (rows db'))" using assms by (simp add: distinct_map_filter)
  then have "resolve t h db' = Some x \<longleftrightarrow> resolve t h db = Some x" for x
    using assms by (auto simp: resolve_iff)
  then show ?thesis by (rule option_eqI)
qed

end

definition session_live :: "int \<Rightarrow> session_row \<Rightarrow> bool" where
  "session_live t r \<longleftrightarrow>
     s_revoked_at r = None \<and> s_expires_at r > t \<and> t - s_last_used_at r \<le> SESSION_IDLE_TIMEOUT_SECS"

definition resolve_session :: "int \<Rightarrow> ustr \<Rightarrow> auth_db \<Rightarrow> session_row option" where
  "resolve_session t h db =
     (case fetch_optional (\<lambda>r. s_token_hash r = h) (sessions db) of
        Some r \<Rightarrow> if session_live t r then Some r else None
      | None \<Rightarrow> None)"

definition resolve_api_token :: "int \<Rightarrow> ustr \<Rightarrow> auth_db \<Rightarrow> api_token_row option" where
  "resolve_api_token t h db =
     (case fetch_optional (\<lambda>r. t_token_hash r = h) (api_tokens db) of
        Some r \<Rightarrow> if t_revoked_at r = None then Some r else None
      | None \<Rightarrow> None)"

lemma fetch_key_iff:
  "distinct (map k rows) \<Longrightarrow> fetch_optional (\<lambda>r. k r = x) rows = Some r \<longleftrightarrow> r \<in> set rows \<and> k r = x"
  using fetch_unique [of k rows] fetch_optional_Some [of "\<lambda>r. k r = x" rows] by blast

lemma fetch_live_iff:
  assumes "distinct (map k rows)"
  shows "(case fetch_optional (\<lambda>r. k r = x) rows of Some r \<Rightarrow> if L r then Some r else None | None \<Rightarrow> None)
      = Some r \<longleftrightarrow> r \<in> set rows \<and> k r = x \<and> L r"
proof (cases "fetch_optional (\<lambda>r. k r = x) rows")
  case None
  then show ?thesis using fetch_optional_None [of "\<lambda>r. k r = x" rows] by auto
next
  case (Some r')
  then have "r' \<in> set rows \<and> k r' = x" by (auto dest: fetch_optional_Some)
  moreover have "r = r'" if "r \<in> set rows" "k r = x"
    using that fetch_unique [OF assms] Some by simp
  ultimately show ?thesis using Some by (auto split: if_splits)
qed

interpretation session_store: credential_store sessions s_token_hash session_live resolve_session
  revoke_where "\<lambda>t r. r\<lparr> s_revoked_at := Some t \<rparr>"
  by unfold_locales
    (simp_all add: resolve_session_def revoke_where_def session_live_def fetch_live_iff)

interpretation token_store: credential_store api_tokens t_token_hash "\<lambda>_ r. t_revoked_at r = None"
  resolve_api_token revoke_tokens_where "\<lambda>t r. r\<lparr> t_revoked_at := Some t \<rparr>"
  by unfold_locales
    (simp_all add: resolve_api_token_def revoke_tokens_where_def fetch_live_iff)

subsection \<open>Which token a request carries\<close>

text \<open>The cookies of a header that carry a value, in order.\<close>

definition cookie_pair :: "ustr \<Rightarrow> (ustr \<times> ustr) option" where
  "cookie_pair p =
     (case split_once 61 (trim p) of
        None \<Rightarrow> None
      | Some (n, v) \<Rightarrow> if trim v = [] then None else Some (trim n, trim v))"

lemma cookie_names_differ [simp]:
  "SESSION_COOKIE_NAME \<noteq> SESSION_COOKIE_NAME_HOST_PREFIXED"
  "SESSION_COOKIE_NAME_HOST_PREFIXED \<noteq> SESSION_COOKIE_NAME"
  by (simp_all add: SESSION_COOKIE_NAME_def SESSION_COOKIE_NAME_HOST_PREFIXED_def str_def)

definition or_else :: "'a option \<Rightarrow> 'a option \<Rightarrow> 'a option" where
  "or_else a b = (case a of Some x \<Rightarrow> Some x | None \<Rightarrow> b)"

lemma or_else_simps [simp]: "or_else (Some x) b = Some x" "or_else None b = b" "or_else a None = a"
  by (simp_all add: or_else_def split: option.split)

lemma scan_cookies_spec:
  "scan_cookies pairs fb =
     (let cs = List.map_filter cookie_pair pairs in
      or_else (map_of cs SESSION_COOKIE_NAME_HOST_PREFIXED)
        (or_else fb (map_of cs SESSION_COOKIE_NAME)))"
proof (induction pairs arbitrary: fb)
  case Nil
  then show ?case by (simp add: map_filter_simps)
next
  case (Cons p pairs)
  show ?case
  proof (cases "cookie_pair p")
    case None
    then have "scan_cookies (p # pairs) fb = scan_cookies pairs fb"
      by (auto simp: cookie_pair_def Let_def split: option.splits if_splits)
    with None Cons.IH show ?thesis by (simp add: map_filter_simps)
  next
    case (Some nv)
    obtain n v where nv: "nv = (n, v)" by (cases nv)
    then have "scan_cookies (p # pairs) fb =
        (if n = SESSION_COOKIE_NAME_HOST_PREFIXED then Some v
         else if n = SESSION_COOKIE_NAME \<and> fb = None then scan_cookies pairs (Some v)
         else scan_cookies pairs fb)"
      using Some by (auto simp: cookie_pair_def Let_def split: option.splits if_splits)
    with Some nv Cons.IH show ?thesis by (cases fb) (auto simp: map_filter_simps Let_def)
  qed
qed

text \<open>
  C10: the bearer token of a request wins over its cookies; among the cookies that carry a value
  the first \<open>__Host-\<close> prefixed one wins, wherever it stands, and only without one the first
  plain one counts.
\<close>

theorem parse_session_token_precedence:
  "parse_session_token authorization (Some cookies) =
     (let cs = List.map_filter cookie_pair (split_on 59 cookies) in
      or_else (map_option (\<lambda>t. (t, Bearer)) (bearer_token authorization))
        (map_option (\<lambda>t. (t, Cookie))
          (or_else (map_of cs SESSION_COOKIE_NAME_HOST_PREFIXED) (map_of cs SESSION_COOKIE_NAME))))"
  by (simp add: parse_session_token_def scan_cookies_spec Let_def split: option.split)

subsection \<open>The life of a session\<close>

definition session_answer :: "auth_error + 'a \<times> auth_db \<Rightarrow> auth_error + 'a" where
  "session_answer = map_sum id fst"

lemma lookup_session_answer:
  "session_answer (lookup_session env raw db) =
     and_then (ok_or SessionNotFound (resolve_session (now env) (sha256 env raw) db)) (\<lambda>r.
     and_then (ok_or SessionNotFound (fetch_optional (\<lambda>u. u_id u = s_user_id r) (users db))) (\<lambda>u.
     and_then (row_to_session r) (\<lambda>s. Inr (build_user_from_joined_row db u, s))))"
proof (cases "fetch_optional (\<lambda>r. s_token_hash r = sha256 env raw) (sessions db)")
  case None
  then show ?thesis
    by (simp add: lookup_session_def fetch_session_row_def session_answer_def resolve_session_def)
next
  case (Some r)
  have valid: "check_session_validity r (now env) =
      (if session_live (now env) r then Inr () else Inl SessionNotFound)"
    by (auto simp: check_session_validity_def session_live_def)
  show ?thesis
    using Some valid
    by (cases "fetch_optional (\<lambda>u. u_id u = s_user_id r) (users db)"; cases "row_to_session r")
      (auto simp: lookup_session_def fetch_session_row_def session_answer_def resolve_session_def)
qed

lemma prune_rows:
  "sessions (snd (prune_expired_sessions env db)) = filter (session_live (now env)) (sessions db)"
  by (auto simp: prune_expired_sessions_def Let_def delete_where_def session_live_def
      intro!: filter_cong)

lemma rows_affected_delete: "rows_affected P rows + length (delete_where P rows) = length rows"
  by (simp add: rows_affected_def delete_where_def sum_length_filter_compl)

lemma rows_affected_delete3:
  "rows_affected P rows + rows_affected Q (delete_where P rows) +
     rows_affected R (delete_where Q (delete_where P rows)) +
     length (delete_where R (delete_where Q (delete_where P rows))) = length rows"
  using rows_affected_delete [of P rows] rows_affected_delete [of Q "delete_where P rows"]
    rows_affected_delete [of R "delete_where Q (delete_where P rows)"]
  by linarith

text \<open>
  C16: pruning deletes every session row that no longer authenticates and nothing else: no token
  answers differently afterwards, what is left is live, and the count is the rows deleted.
\<close>

theorem prune_deletes_exactly_the_dead:
  assumes "distinct (map s_token_hash (sessions db))"
  shows "session_answer (lookup_session env raw (snd (prune_expired_sessions env db))) =
      session_answer (lookup_session env raw db) \<and>
    (\<forall>r \<in> set (sessions (snd (prune_expired_sessions env db))). session_live (now env) r) \<and>
    fst (prune_expired_sessions env db) + length (sessions (snd (prune_expired_sessions env db))) =
      length (sessions db)"
proof -
  let ?db = "snd (prune_expired_sessions env db)"
  have "resolve_session (now env) h ?db = resolve_session (now env) h db" for h
    by (rule session_store.resolve_live_only [OF assms prune_rows])
  moreover have "users ?db = users db" "avatars ?db = avatars db"
    by (simp_all add: prune_expired_sessions_def Let_def)
  ultimately have "session_answer (lookup_session env raw ?db) = session_answer (lookup_session env raw db)"
    by (simp add: lookup_session_answer build_user_from_joined_row_def row_to_user_def has_avatar_def)
  moreover have "fst (prune_expired_sessions env db) + length (sessions ?db) = length (sessions db)"
    unfolding prune_expired_sessions_def Let_def by (simp add: rows_affected_delete3)
  ultimately show ?thesis by (simp add: prune_rows)
qed

theorem prune_deletes_exactly_the_dead_witness:
  "map s_id (sessions (snd (prune_expired_sessions (plain_env 1000 []) plain_db))) = [1, 3] \<and>
   fst (prune_expired_sessions (plain_env 1000 []) plain_db) = 1"
proof -
  have d: "distinct (map s_token_hash (sessions plain_db))" by code_simp
  have l: "map s_id (sessions (snd (prune_expired_sessions (plain_env 1000 []) plain_db))) = [1, 3]"
    by code_simp
  have "length (sessions plain_db) = 3" by code_simp
  moreover have "length (sessions (snd (prune_expired_sessions (plain_env 1000 []) plain_db))) = 2"
    using arg_cong [OF l, of length] by simp
  ultimately show ?thesis
    using l prune_deletes_exactly_the_dead [OF d, of "plain_env 1000 []" "[]"] by simp
qed

lemma collect_results_Inr: "collect_results xs = Inr ys \<longleftrightarrow> xs = map Inr ys"
proof (induction xs arbitrary: ys)
  case Nil
  show ?case by auto
next
  case (Cons x xs)
  show ?case by (cases x; cases ys) (auto simp: and_then_Inr Cons.IH)
qed

text \<open>
  the session list of a user shows only sessions whose token would still authenticate as
  that user, and shows all of them up to its limit.
\<close>

theorem listed_sessions_authenticate:
  assumes "list_sessions_for_user env uid db = Inr ss"
    and "distinct (map s_token_hash (sessions db))"
  shows "(\<forall>s \<in> set ss. \<exists>r. row_to_session r = Inr s \<and> s_user_id r = uid \<and>
        resolve_session (now env) (s_token_hash r) db = Some r) \<and>
    (length ss < LIST_SESSIONS_LIMIT \<longrightarrow>
       (\<forall>h r. resolve_session (now env) h db = Some r \<and> s_user_id r = uid \<longrightarrow>
          (\<exists>s \<in> set ss. row_to_session r = Inr s)))"
proof -
  define live where "live = filter (\<lambda>r. s_user_id r = uid \<and> session_live (now env) r) (sessions db)"
  have "list_sessions_for_user env uid db =
      collect_results (map row_to_session
        (take LIST_SESSIONS_LIMIT (sort_key (\<lambda>r. - s_last_used_at r) live)))"
    unfolding list_sessions_for_user_def Let_def live_def session_live_def
    by (intro arg_cong [where f = collect_results] arg_cong2 [where f = map] refl
        arg_cong2 [where f = take] arg_cong2 [where f = sort_key] filter_cong) auto
  with assms(1) have rows: "map row_to_session
      (take LIST_SESSIONS_LIMIT (sort_key (\<lambda>r. - s_last_used_at r) live)) = map Inr ss"
    by (simp add: collect_results_Inr)
  have res: "resolve_session (now env) h db = Some r \<longleftrightarrow>
      r \<in> set (sessions db) \<and> s_token_hash r = h \<and> session_live (now env) r" for h r
    by (rule session_store.resolve_iff [OF assms(2)])
  let ?shown = "take LIST_SESSIONS_LIMIT (sort_key (\<lambda>r. - s_last_used_at r) live)"
  have "\<exists>r \<in> set ?shown. row_to_session r = Inr s" if "s \<in> set ss" for s
  proof -
    have "Inr s \<in> set (map row_to_session ?shown)" unfolding rows using that by simp
    then show ?thesis by (metis (mono_tags, lifting) image_iff list.set_map)
  qed
  then have one: "\<exists>r. row_to_session r = Inr s \<and> s_user_id r = uid \<and>
      resolve_session (now env) (s_token_hash r) db = Some r" if "s \<in> set ss" for s
    using that set_take_subset [of LIST_SESSIONS_LIMIT "sort_key (\<lambda>r. - s_last_used_at r) live"]
    unfolding res by (fastforce simp: live_def)
  have "\<exists>s \<in> set ss. row_to_session r = Inr s"
    if "length ss < LIST_SESSIONS_LIMIT" "resolve_session (now env) h db = Some r" "s_user_id r = uid"
    for h r
  proof -
    have "length ?shown < LIST_SESSIONS_LIMIT"
      using arg_cong [OF rows, of length] that(1) by simp
    then have "?shown = sort_key (\<lambda>r. - s_last_used_at r) live" by simp
    moreover have "r \<in> set live" using that(2,3) by (simp add: live_def res)
    ultimately have "row_to_session r \<in> set (map Inr ss)" using rows [symmetric] by auto
    then show ?thesis by auto
  qed
  with one show ?thesis by blast
qed

theorem listed_sessions_authenticate_witness:
  "\<exists>ss. list_sessions_for_user (plain_env 951 []) 1 plain_db = Inr ss \<and> map ses_id ss = [1] \<and>
     (\<forall>s \<in> set ss. \<exists>r. row_to_session r = Inr s \<and>
        resolve_session (now (plain_env 951 [])) (s_token_hash r) plain_db = Some r)"
proof -
  obtain ss where l: "list_sessions_for_user (plain_env 951 []) 1 plain_db = Inr ss"
    and i: "map ses_id ss = [1]"
  proof -
    have "map_sum id (map ses_id) (list_sessions_for_user (plain_env 951 []) 1 plain_db) = Inr [1]"
      by code_simp
    with that show thesis by (cases "list_sessions_for_user (plain_env 951 []) 1 plain_db") auto
  qed
  have d: "distinct (map s_token_hash (sessions plain_db))" by code_simp
  from listed_sessions_authenticate [OF l d] l i show ?thesis by (intro exI [of _ ss]) auto
qed

lemma find_append_last: "\<forall>r \<in> set rows. \<not> P r \<Longrightarrow> P x \<Longrightarrow> fetch_optional P (rows @ [x]) = Some x"
  by (induction rows) (auto simp: fetch_optional_def)

lemma minted_session_lookup:
  assumes "insert_session env uid did imp kind ttl ua db = Inr (ns, db')"
    and "fetch_optional (\<lambda>u. u_id u = uid) (users db) = Some u"
  shows "session_answer (lookup_session (env\<lparr> now := t \<rparr>) (ns_raw_token ns) db') =
    (if t < now env + ttl \<and> t - now env \<le> SESSION_IDLE_TIMEOUT_SECS
     then Inr (row_to_user db u, ns_session ns) else Inl SessionNotFound)"
proof -
  obtain raw where raw: "random_token env = Inr raw"
    using assms(1) by (auto simp: insert_session_def and_then_Inr)
  let ?row = "\<lparr> s_id = session_seq db + 1, s_token_hash = sha256 env raw, s_user_id = uid,
      s_device_id = did, s_impersonator_id = imp, s_kind = session_kind_str kind,
      s_created_at = now env, s_last_used_at = now env, s_expires_at = now env + ttl,
      s_revoked_at = None, s_user_agent = clamp_user_agent ua \<rparr>"
  have kind: "kind = Cookie \<or> kind = Bearer"
    and new: "\<forall>r \<in> set (sessions db). s_token_hash r \<noteq> sha256 env raw"
    and db': "db' = db\<lparr> sessions := sessions db @ [?row], session_seq := session_seq db + 1 \<rparr>"
    and ns: "ns_raw_token ns = raw" "row_to_session ?row = Inr (ns_session ns)"
    using assms(1) by (auto simp: insert_session_def raw Let_def list_ex_iff row_to_session_def
        split: if_splits)
  have "fetch_optional (\<lambda>r. s_token_hash r = sha256 env raw) (sessions db') = Some ?row"
    unfolding db' using new by (simp add: find_append_last)
  then have "resolve_session t (sha256 env raw) db' =
      (if t < now env + ttl \<and> t - now env \<le> SESSION_IDLE_TIMEOUT_SECS then Some ?row else None)"
    by (simp add: resolve_session_def session_live_def)
  then show ?thesis
    using assms(2) ns db'
    by (simp add: lookup_session_answer build_user_from_joined_row_def row_to_user_def has_avatar_def)
qed

text \<open>
  a freshly minted session token resolves to its user and to the session that was returned,
  for as long as neither its lifetime nor the idle timeout is over, and to nothing afterwards.
\<close>

theorem minted_session_resolves:
  assumes "insert_session env uid did imp kind ttl ua db = Inr (ns, db')"
    and "fetch_optional (\<lambda>u. u_id u = uid) (users db) = Some u"
  shows "session_answer (lookup_session (env\<lparr> now := t \<rparr>) (ns_raw_token ns) db') =
    (if t < now env + ttl \<and> t - now env \<le> SESSION_IDLE_TIMEOUT_SECS
     then Inr (row_to_user db u, ns_session ns) else Inl SessionNotFound)"
  by (rule minted_session_lookup [OF assms])

theorem minted_session_resolves_witness:
  "\<exists>ns db'. insert_session (plain_env 1000 (str ''new'')) 2 None None Bearer 100 None plain_db = Inr (ns, db') \<and>
     session_answer (lookup_session (plain_env 1099 (str ''new'')) (ns_raw_token ns) db') =
       Inr (row_to_user plain_db (plain_user 2 (str ''bob'') (str ''pw2'')), ns_session ns)"
proof -
  let ?env = "plain_env 1000 (str ''new'')"
  obtain ns db' where i: "insert_session ?env 2 None None Bearer 100 None plain_db = Inr (ns, db')"
    by (auto simp: insert_session_def plain_env_def plain_db_def plain_session_def fresh_auth_db_def
        Let_def str_def)
  have u: "fetch_optional (\<lambda>u. u_id u = 2) (users plain_db) = Some (plain_user 2 (str ''bob'') (str ''pw2''))"
    by (simp add: fetch_optional_def plain_db_def plain_user_def)
  have "?env\<lparr> now := 1099 \<rparr> = plain_env 1099 (str ''new'')" by (simp add: plain_env_def)
  with minted_session_resolves [OF i u, of 1099] i show ?thesis
    by (auto simp: plain_env_def SESSION_IDLE_TIMEOUT_SECS_def)
qed

lemma lookup_api_token_answer:
  "session_answer (lookup_api_token env raw db) =
     and_then (ok_or SessionNotFound
        (fetch_optional (\<lambda>r. t_token_hash r = sha256 env raw) (api_tokens db))) (\<lambda>r.
     and_then (ok_or SessionNotFound (fetch_optional (\<lambda>u. u_id u = t_user_id r) (users db))) (\<lambda>u.
     if t_revoked_at r \<noteq> None then Inl SessionNotFound
     else Inr (row_to_user db u, row_to_api_token r)))"
  by (auto simp: lookup_api_token_def session_answer_def and_then_def ok_or_def
      build_user_from_joined_row_def split: option.splits)

definition api_principal :: "user \<Rightarrow> api_token \<Rightarrow> session" where
  "api_principal user token =
     \<lparr> ses_id = 0, ses_user_id = usr_id user, ses_device_id = None, ses_impersonator_id = None,
       ses_kind = ApiToken, ses_created_at = at_created_at token,
       ses_last_used_at = (case at_last_used_at token of Some t \<Rightarrow> t | None \<Rightarrow> at_created_at token),
       ses_expires_at = 2 ^ 63 - 1, ses_user_agent = None \<rparr>"

lemma resolve_token_answer:
  "session_answer (resolve_token env raw db) =
     (if is_api_token_shaped raw
      then and_then (session_answer (lookup_api_token env raw db))
             (\<lambda>(u, token). Inr (u, api_principal u token))
      else session_answer (lookup_session env raw db))"
  by (cases "lookup_api_token env raw db")
    (auto simp: resolve_token_def session_answer_def api_principal_def)

lemma row_to_session_kind: "row_to_session r = Inr s \<Longrightarrow> ses_kind s = Cookie \<or> ses_kind s = Bearer"
  by (auto simp: row_to_session_def split: if_splits)

lemma session_kind_of_lookup:
  "session_answer (lookup_session env raw db) = Inr (u, s) \<Longrightarrow> ses_kind s = Cookie \<or> ses_kind s = Bearer"
  by (auto simp: lookup_session_answer and_then_Inr dest: row_to_session_kind)

text \<open>
  a token of the API-token shape is never looked up among the sessions and any other token
  never among the API tokens, and a principal carries the session id 0 and the API-token kind
  exactly when an API token resolved to it.
\<close>

theorem token_tables_are_not_crossed:
  fixes db :: auth_db
  shows "(if is_api_token_shaped raw
    then session_answer (resolve_token env raw (db\<lparr> sessions := ss \<rparr>)) =
           session_answer (resolve_token env raw db)
    else session_answer (resolve_token env raw (db\<lparr> api_tokens := ts \<rparr>)) =
           session_answer (resolve_token env raw db)) \<and>
   (case session_answer (resolve_token env raw db) of
      Inl _ \<Rightarrow> True
    | Inr (u, s) \<Rightarrow> (ses_kind s = ApiToken) = is_api_token_shaped raw \<and>
        (is_api_token_shaped raw \<longrightarrow> ses_id s = 0 \<and> ses_user_id s = usr_id u))"
proof -
  have "row_to_user (db\<lparr> sessions := ss \<rparr> :: auth_db) = row_to_user db"
    "row_to_user (db\<lparr> api_tokens := ts \<rparr> :: auth_db) = row_to_user db"
    by (rule ext, simp add: row_to_user_def has_avatar_def)+
  moreover have "case session_answer (resolve_token env raw db) of
      Inl _ \<Rightarrow> True
    | Inr (u, s) \<Rightarrow> (ses_kind s = ApiToken) = is_api_token_shaped raw \<and>
        (is_api_token_shaped raw \<longrightarrow> ses_id s = 0 \<and> ses_user_id s = usr_id u)"
    using session_kind_of_lookup [of env raw db]
    by (auto simp: resolve_token_answer and_then_def api_principal_def split: sum.split)
  ultimately show ?thesis
    by (simp add: resolve_token_answer lookup_api_token_answer lookup_session_answer
        resolve_session_def build_user_from_joined_row_def cong: if_cong)
qed

theorem token_tables_are_not_crossed_witness:
  "session_answer (resolve_token (plain_env 951 []) (str ''t1'') (plain_db\<lparr> api_tokens := [] \<rparr>)) =
     session_answer (resolve_token (plain_env 951 []) (str ''t1'') plain_db)"
proof -
  have "\<not> is_api_token_shaped (str ''t1'')" by code_simp
  with token_tables_are_not_crossed [where raw = "str ''t1''" and env = "plain_env 951 []"
      and db = plain_db and ts = "[]"]
  show ?thesis by simp
qed

end
