(* ===== verification/Login.thy ===== *)
theory Login
  imports Users
begin

text \<open>
  Password login and the lockout (\<open>db/src/auth/login.rs\<close>). The read of the account and the
  write after the password check are separate statements, so \<open>verify_login\<close> is the
  composition of two steps: the lemmas about a single client follow its sequential runs, and
  the last section interleaves the steps of two of them.
\<close>

definition LOCKOUT_MIN_AFTER :: int where "LOCKOUT_MIN_AFTER = 5"
definition LOCKOUT_DURATION_SECS :: int where "LOCKOUT_DURATION_SECS = 15 * 60"
definition LOCKOUT_DISCLOSURE_ATTEMPTS :: int where "LOCKOUT_DISCLOSURE_ATTEMPTS = 3"

text \<open>The password whose hash stands in for an unknown user's.\<close>

definition SENTINEL_PASSWORD :: ustr where
  "SENTINEL_PASSWORD = str ''__timing_equalizer_not_a_real_password__''"

definition login_read :: "ustr \<Rightarrow> auth_db \<Rightarrow> user_row option" where
  "login_read name db = fetch_optional (\<lambda>u. nocase_eq (u_username u) name) (users db)"

text \<open>
  The rest of \<open>verify_login\<close>, from the row it read. In a lock window the failure count is
  incremented in the database (\<open>RETURNING\<close> the new count); outside one it is overwritten
  with what was read plus one.
\<close>

definition login_finish ::
  "auth_env \<Rightarrow> ustr \<Rightarrow> user_row option \<Rightarrow> auth_db \<Rightarrow> (auth_error + user) \<times> auth_db" where
  "login_finish env password read db =
     (case read of
        None \<Rightarrow>
          (case argon2_hash env SENTINEL_PASSWORD of
             Inl e \<Rightarrow> (Inl e, db)
           | Inr _ \<Rightarrow> (Inl InvalidCredentials, db))
      | Some row \<Rightarrow>
          (case argon2_verify env password (u_password_hash row) of
             Inl e \<Rightarrow> (Inl e, db)
           | Inr ok \<Rightarrow>
               if (case u_locked_until row of Some until \<Rightarrow> until > now env | None \<Rightarrow> False) then
                 (let db' = update_user (u_id row)
                        (\<lambda>u. u\<lparr> u_failed_login_count := u_failed_login_count u + 1 \<rparr>) db
                  in case fetch_optional (\<lambda>u. u_id u = u_id row) (users db') of
                       None \<Rightarrow> (Inl (Internal (str ''no rows returned'')), db')
                     | Some u \<Rightarrow>
                         if ok \<and> u_failed_login_count u \<le> LOCKOUT_MIN_AFTER + LOCKOUT_DISCLOSURE_ATTEMPTS
                         then (Inl (AccountLocked (the (u_locked_until row))), db')
                         else (Inl InvalidCredentials, db'))
               else
                 (let effective_failed =
                        (case u_locked_until row of Some _ \<Rightarrow> 0 | None \<Rightarrow> u_failed_login_count row)
                  in if \<not> ok then
                       (let new_failed = effective_failed + 1;
                            new_lock = (if new_failed \<ge> LOCKOUT_MIN_AFTER
                                        then Some (now env + LOCKOUT_DURATION_SECS) else None)
                        in (Inl InvalidCredentials,
                            update_user (u_id row)
                              (\<lambda>u. u\<lparr> u_failed_login_count := new_failed, u_locked_until := new_lock \<rparr>) db))
                     else
                       (Inr (row_to_user db row),
                        update_user (u_id row)
                          (\<lambda>u. u\<lparr> u_failed_login_count := 0, u_locked_until := None \<rparr>) db))))"

definition verify_login :: "auth_env \<Rightarrow> ustr \<Rightarrow> ustr \<Rightarrow> auth_db \<Rightarrow> (auth_error + user) \<times> auth_db" where
  "verify_login env name password db = login_finish env password (login_read name db) db"

subsection \<open>One account's attempts\<close>

text \<open>The lockout state of an account, and what an attempt does to it.\<close>

type_synonym lock_state = "int \<times> int option"

definition lock_of :: "user_row \<Rightarrow> lock_state" where
  "lock_of u = (u_failed_login_count u, u_locked_until u)"

definition locked_at :: "int \<Rightarrow> lock_state \<Rightarrow> bool" where
  "locked_at t s = (case snd s of Some until \<Rightarrow> until > t | None \<Rightarrow> False)"

definition failed_attempt :: "int \<Rightarrow> lock_state \<Rightarrow> lock_state" where
  "failed_attempt t s =
     (if locked_at t s then (fst s + 1, snd s)
      else let n = (case snd s of Some _ \<Rightarrow> 0 | None \<Rightarrow> fst s) + 1
           in (n, if n \<ge> LOCKOUT_MIN_AFTER then Some (t + LOCKOUT_DURATION_SECS) else None))"

definition users_wf :: "auth_db \<Rightarrow> bool" where
  "users_wf db \<longleftrightarrow> distinct (map u_id (users db)) \<and>
     distinct (map (to_ascii_lowercase \<circ> u_username) (users db))"

text \<open>A failed attempt through the database is one on the account's lockout state.\<close>

lemma find_update_keep:
  assumes "fetch_optional P rows = Some r" "\<And>u. P (f u) = P u"
    and "distinct (map k rows)"
  shows "fetch_optional P (update_where (\<lambda>u. k u = k r) f rows) = Some (f r)"
  using assms
proof (induction rows)
  case (Cons a rows)
  show ?case
  proof (cases "P a")
    case True
    then show ?thesis using Cons.prems by (simp add: fetch_optional_def update_where_def)
  next
    case False
    then have rest: "fetch_optional P rows = Some r"
      using Cons.prems(1) by (simp add: fetch_optional_def)
    then have "k a \<noteq> k r"
      using Cons.prems(3) fetch_optional_Some [OF rest] by auto
    with False rest Cons show ?thesis by (simp add: fetch_optional_def update_where_def)
  qed
qed (simp add: fetch_optional_def)

lemma wrong_password_step:
  assumes "users_wf db" "login_read name db = Some u"
    and "argon2_verify env password (u_password_hash u) = Inr False"
  shows "fst (verify_login env name password db) = Inl InvalidCredentials \<and>
    login_read name (snd (verify_login env name password db)) =
      Some (u\<lparr> u_failed_login_count := fst (failed_attempt (now env) (lock_of u)),
              u_locked_until := snd (failed_attempt (now env) (lock_of u)) \<rparr>)"
proof -
  have d: "distinct (map u_id (users db))" using assms(1) by (simp add: users_wf_def)
  have f: "fetch_optional (\<lambda>u. nocase_eq (u_username u) name) (users db) = Some u"
    using assms(2) by (simp add: login_read_def)
  have u: "u \<in> set (users db)" using fetch_optional_Some [OF f] by simp
  show ?thesis
  proof (cases "locked_at (now env) (lock_of u)")
    case True
    let ?f = "\<lambda>u. u\<lparr> u_failed_login_count := u_failed_login_count u + 1 \<rparr>"
    have "fetch_optional (\<lambda>x. u_id x = u_id u) (update_where (\<lambda>x. u_id x = u_id u) ?f (users db)) = Some (?f u)"
      by (rule fetch_update_unique [OF d u]) simp_all
    moreover have "fetch_optional (\<lambda>x. nocase_eq (u_username x) name)
        (update_where (\<lambda>x. u_id x = u_id u) ?f (users db)) = Some (?f u)"
      by (rule find_update_keep [OF f _ d]) simp
    ultimately show ?thesis
      using True assms(3)
      by (auto simp: verify_login_def login_finish_def f locked_at_def lock_of_def
          failed_attempt_def update_user_def login_read_def split: option.splits)
  next
    case False
    have keep: "fetch_optional (\<lambda>x. nocase_eq (u_username x) name)
        (update_where (\<lambda>x. u_id x = u_id u) f (users db)) = Some (f u)"
      if "\<And>x. u_username (f x) = u_username x" for f
      by (rule find_update_keep [OF f _ d]) (simp add: that)
    show ?thesis
      using False assms(3)
      by (auto simp: verify_login_def login_finish_def f locked_at_def lock_of_def Let_def
          failed_attempt_def update_user_def login_read_def keep split: option.splits)
  qed
qed

lemma nocase_key: "nocase_eq (u_username u) name \<longleftrightarrow> (to_ascii_lowercase \<circ> u_username) u = to_ascii_lowercase name"
  by (simp add: nocase_eq_def)

text \<open>A run of wrong guesses against one account, each at its own time.\<close>

fun wrong_guesses :: "auth_env \<Rightarrow> ustr \<Rightarrow> (int \<times> ustr) list \<Rightarrow> auth_db \<Rightarrow> auth_db" where
  "wrong_guesses env name [] db = db"
| "wrong_guesses env name ((t, pw) # gs) db =
     wrong_guesses env name gs (snd (verify_login (env\<lparr> now := t \<rparr>) name pw db))"

lemma users_wf_update:
  "users_wf db \<Longrightarrow> (\<And>u. u_id (f u) = u_id u) \<Longrightarrow> (\<And>u. u_username (f u) = u_username u) \<Longrightarrow>
     users_wf (update_user i f db)"
  by (simp add: users_wf_def update_user_def map_update_where)

lemma verify_login_wf: "users_wf db \<Longrightarrow> users_wf (snd (verify_login env name pw db))"
  by (auto simp: verify_login_def login_finish_def Let_def intro: users_wf_update
      split: option.split sum.split)

lemma wrong_guesses_wf: "users_wf db \<Longrightarrow> users_wf (wrong_guesses env name gs db)"
  by (induction env name gs db rule: wrong_guesses.induct) (simp_all add: verify_login_wf)

lemma wrong_guesses_state:
  assumes "users_wf db" "login_read name db = Some u"
    and "\<forall>(t, pw) \<in> set gs. argon2_verify env pw (u_password_hash u) = Inr False"
  shows "\<exists>u'. login_read name (wrong_guesses env name gs db) = Some u' \<and>
    u_id u' = u_id u \<and> u_password_hash u' = u_password_hash u \<and>
    lock_of u' = fold failed_attempt (map fst gs) (lock_of u)"
  using assms
proof (induction gs arbitrary: db u)
  case (Cons g gs)
  obtain t pw where g: "g = (t, pw)" by (cases g)
  let ?u = "u\<lparr> u_failed_login_count := fst (failed_attempt t (lock_of u)),
              u_locked_until := snd (failed_attempt t (lock_of u)) \<rparr>"
  have v: "argon2_verify (env\<lparr> now := t \<rparr>) pw (u_password_hash u) = Inr False"
    using Cons.prems(3) g by simp
  from wrong_password_step [OF Cons.prems(1,2) v]
  have "login_read name (snd (verify_login (env\<lparr> now := t \<rparr>) name pw db)) = Some ?u" by simp
  from Cons.IH [OF verify_login_wf [OF Cons.prems(1)] this] Cons.prems(3) show ?case
    by (auto simp: g lock_of_def)
qed auto

subsection \<open>The lockout bounds what guessing can learn\<close>

text \<open>Wrong guesses in a lock window only count up.\<close>

lemma locked_run:
  assumes "\<forall>t \<in> set ts. t < until"
  shows "fold failed_attempt ts (n, Some until) = (n + int (length ts), Some until)"
  using assms by (induction ts arbitrary: n) (auto simp: failed_attempt_def locked_at_def)

lemma unlocked_run:
  assumes "n + int (length ts) < LOCKOUT_MIN_AFTER" "0 \<le> n"
  shows "fold failed_attempt ts (n, None) = (n + int (length ts), None)"
  using assms by (induction ts arbitrary: n) (auto simp: failed_attempt_def locked_at_def)

text \<open>The fifth wrong guess in a row closes the account for fifteen minutes.\<close>

lemma fifth_locks:
  assumes "length pre = 4" "sorted (t # ts)" "\<forall>s \<in> set ts. s < t + LOCKOUT_DURATION_SECS"
  shows "fold failed_attempt (pre @ t # ts) (0, None) =
    (5 + int (length ts), Some (t + LOCKOUT_DURATION_SECS))"
proof -
  have "fold failed_attempt pre (0, None) = (4, None)"
    using unlocked_run [of 0 pre] assms(1) by (simp add: LOCKOUT_MIN_AFTER_def)
  then have "fold failed_attempt (pre @ [t]) (0, None) = (5, Some (t + LOCKOUT_DURATION_SECS))"
    by (simp add: failed_attempt_def locked_at_def LOCKOUT_MIN_AFTER_def)
  then show ?thesis using locked_run [OF assms(3), of 5] by simp
qed

lemma locked_attempt:
  assumes "users_wf db" "login_read name db = Some u" "locked_at (now env) (lock_of u)"
    and "argon2_verify env pw (u_password_hash u) = Inr ok"
  shows "fst (verify_login env name pw db) =
    Inl (if ok \<and> u_failed_login_count u + 1 \<le> LOCKOUT_MIN_AFTER + LOCKOUT_DISCLOSURE_ATTEMPTS
         then AccountLocked (the (u_locked_until u)) else InvalidCredentials)"
proof -
  have d: "distinct (map u_id (users db))" using assms(1) by (simp add: users_wf_def)
  have f: "fetch_optional (\<lambda>u. nocase_eq (u_username u) name) (users db) = Some u"
    using assms(2) by (simp add: login_read_def)
  have u: "u \<in> set (users db)" using fetch_optional_Some [OF f] by simp
  let ?f = "\<lambda>u. u\<lparr> u_failed_login_count := u_failed_login_count u + 1 \<rparr>"
  have "fetch_optional (\<lambda>x. u_id x = u_id u) (update_where (\<lambda>x. u_id x = u_id u) ?f (users db)) = Some (?f u)"
    by (rule fetch_update_unique [OF d u]) simp_all
  with assms(3,4) show ?thesis
    by (auto simp: verify_login_def login_finish_def f locked_at_def lock_of_def
        update_user_def login_read_def split: option.splits)
qed

text \<open>
  C14: after five wrong guesses in a row the account is closed for fifteen minutes from the
  fifth: no password logs in, and from the fourth attempt in the window on every password, the
  right one included, gets the same answer, so the window itself cannot be searched. The window
  does not move however many guesses follow.
\<close>

theorem lockout_hides_the_password:
  assumes "users_wf db" "login_read name db = Some u" "lock_of u = (0, None)"
    and "\<forall>(t, pw) \<in> set gs. argon2_verify env pw (u_password_hash u) = Inr False"
    and "map fst gs = pre @ t5 # ts" "length pre = 4" "sorted (t5 # ts)"
    and "\<forall>t \<in> set ts. t < t5 + LOCKOUT_DURATION_SECS" "t < t5 + LOCKOUT_DURATION_SECS"
    and "argon2_verify env pw (u_password_hash u) = Inr ok"
  shows "fst (verify_login (env\<lparr> now := t \<rparr>) name pw (wrong_guesses env name gs db)) =
    Inl (if ok \<and> length ts < 3 then AccountLocked (t5 + LOCKOUT_DURATION_SECS) else InvalidCredentials)"
proof -
  from wrong_guesses_state [OF assms(1,2,4)] obtain u' where
    u': "login_read name (wrong_guesses env name gs db) = Some u'"
    "u_password_hash u' = u_password_hash u"
    "lock_of u' = fold failed_attempt (map fst gs) (lock_of u)" by blast
  have l: "lock_of u' = (5 + int (length ts), Some (t5 + LOCKOUT_DURATION_SECS))"
    unfolding u'(3) assms(3,5) by (rule fifth_locks [OF assms(6-8)])
  then have "locked_at (now (env\<lparr> now := t \<rparr>)) (lock_of u')"
    using assms(9) by (simp add: locked_at_def)
  moreover have "argon2_verify (env\<lparr> now := t \<rparr>) pw (u_password_hash u') = Inr ok"
    using assms(10) u'(2) by simp
  ultimately show ?thesis
    using locked_attempt [OF wrong_guesses_wf [OF assms(1)] u'(1)] l
    by (auto simp: lock_of_def LOCKOUT_MIN_AFTER_def LOCKOUT_DISCLOSURE_ATTEMPTS_def)
qed

definition plain_guesses :: "(int \<times> ustr) list" where
  "plain_guesses = [(1, str ''a''), (2, str ''b''), (3, str ''c''), (4, str ''d''), (5, str ''e''),
     (6, str ''f''), (7, str ''g''), (8, str ''h'')]"

theorem lockout_hides_the_password_witness:
  "fst (verify_login (plain_env 900 []) (str ''Ada'') (str ''pw'')
      (wrong_guesses (plain_env 0 []) (str ''Ada'') plain_guesses plain_db)) = Inl InvalidCredentials"
proof -
  let ?u = "plain_user 1 (str ''ada'') (str ''pw'')"
  have wf: "users_wf plain_db" unfolding users_wf_def by code_simp
  have r: "login_read (str ''Ada'') plain_db = Some ?u"
    by (simp add: login_read_def fetch_optional_def plain_db_def plain_user_def nocase_eq_def
        to_ascii_lowercase_def str_def)
  have w: "\<forall>(t, pw) \<in> set plain_guesses.
      argon2_verify (plain_env 0 []) pw (u_password_hash ?u) = Inr False"
    by (simp add: plain_guesses_def plain_env_def plain_user_def str_def)
  have ok: "argon2_verify (plain_env 0 []) (str ''pw'') (u_password_hash ?u) = Inr True"
    by (simp add: plain_env_def plain_user_def)
  have e: "plain_env 0 []\<lparr> now := 900 \<rparr> = plain_env 900 []" by (simp add: plain_env_def)
  have "fst (verify_login (plain_env 0 []\<lparr> now := 900 \<rparr>) (str ''Ada'') (str ''pw'')
      (wrong_guesses (plain_env 0 []) (str ''Ada'') plain_guesses plain_db)) =
    Inl (if True \<and> length [6, 7, 8 :: int] < 3 then AccountLocked (5 + LOCKOUT_DURATION_SECS)
         else InvalidCredentials)"
    by (rule lockout_hides_the_password [OF wf r _ w, where pre = "[1, 2, 3, 4]"])
      (simp_all add: ok lock_of_def plain_user_def plain_guesses_def LOCKOUT_DURATION_SECS_def,
       simp add: plain_env_def)
  then show ?thesis unfolding e by simp
qed

subsection \<open>All outcomes\<close>

definition login_outcome :: "auth_env \<Rightarrow> ustr \<Rightarrow> bool \<Rightarrow> auth_db \<Rightarrow> auth_error + user" where
  "login_outcome env name ok db =
     (case login_read name db of
        None \<Rightarrow> Inl InvalidCredentials
      | Some u \<Rightarrow>
          if locked_at (now env) (lock_of u)
          then Inl (if ok \<and> u_failed_login_count u < LOCKOUT_MIN_AFTER + LOCKOUT_DISCLOSURE_ATTEMPTS
                    then AccountLocked (the (u_locked_until u)) else InvalidCredentials)
          else if ok then Inr (row_to_user db u) else Inl InvalidCredentials)"

text \<open>
  an attempt tells an unknown name from a wrong password in no state of the account; a
  session is granted only for the right password of an account that is not locked, and only
  the right password can learn that an account is locked.
\<close>

theorem verify_login_outcomes:
  assumes "users_wf db" "argon2_hash env SENTINEL_PASSWORD = Inr h"
    and "\<forall>u. login_read name db = Some u \<longrightarrow> argon2_verify env pw (u_password_hash u) = Inr ok"
  shows "fst (verify_login env name pw db) = login_outcome env name ok db"
proof (cases "login_read name db")
  case None
  then show ?thesis by (simp add: login_outcome_def verify_login_def login_finish_def assms(2))
next
  case (Some u)
  then have v: "argon2_verify env pw (u_password_hash u) = Inr ok" using assms(3) by simp
  show ?thesis
  proof (cases "locked_at (now env) (lock_of u)")
    case True
    from locked_attempt [OF assms(1) Some True v] Some True show ?thesis
      by (auto simp: login_outcome_def)
  next
    case False
    with Some v show ?thesis
      by (auto simp: login_outcome_def verify_login_def login_finish_def locked_at_def lock_of_def
          Let_def split: option.splits)
  qed
qed

theorem verify_login_outcomes_witness:
  "fst (verify_login (plain_env 0 []) (str ''BOB'') (str ''pw2'') plain_db) =
     Inr (row_to_user plain_db (plain_user 2 (str ''bob'') (str ''pw2'')))"
proof -
  have r: "login_read (str ''BOB'') plain_db = Some (plain_user 2 (str ''bob'') (str ''pw2''))"
    by (simp add: login_read_def fetch_optional_def plain_db_def plain_user_def nocase_eq_def
        to_ascii_lowercase_def str_def)
  have wf: "users_wf plain_db" unfolding users_wf_def by code_simp
  have "fst (verify_login (plain_env 0 []) (str ''BOB'') (str ''pw2'') plain_db) =
      login_outcome (plain_env 0 []) (str ''BOB'') True plain_db"
    by (rule verify_login_outcomes [OF wf]) (simp_all add: r plain_env_def plain_user_def)
  then show ?thesis
    by (simp add: login_outcome_def r locked_at_def lock_of_def plain_user_def)
qed

subsection \<open>Concurrent attempts\<close>

text \<open>
  C17: the failure count outside a lock window is written from the value read before the
  password check. A wrong guess that read the account before it was locked therefore reopens
  it: whatever the lock and the count have become meanwhile, the account ends unlocked with
  the stale count plus one.
\<close>

theorem stale_guess_reopens_account:
  assumes "users_wf db" "u \<in> set (users db)" "u_id u = u_id read"
    and "lock_of read = (n, None)" "n + 1 < LOCKOUT_MIN_AFTER"
    and "argon2_verify env pw (u_password_hash read) = Inr False"
  shows "fst (login_finish env pw (Some read) db) = Inl InvalidCredentials \<and>
    map_option lock_of (fetch_optional (\<lambda>x. u_id x = u_id u)
      (users (snd (login_finish env pw (Some read) db)))) = Some (n + 1, None)"
proof -
  let ?f = "\<lambda>u. u\<lparr> u_failed_login_count := n + 1, u_locked_until := None \<rparr>"
  have "login_finish env pw (Some read) db =
      (Inl InvalidCredentials, update_user (u_id u) ?f db)"
    using assms(3-6) by (auto simp: login_finish_def lock_of_def Let_def)
  moreover have "fetch_optional (\<lambda>x. u_id x = u_id u)
      (update_where (\<lambda>x. u_id x = u_id u) ?f (users db)) = Some (?f u)"
    using assms(1,2) by (intro fetch_update_unique) (simp_all add: users_wf_def)
  ultimately show ?thesis by (simp add: update_user_def lock_of_def)
qed

text \<open>
  Two clients: the first reads the account, the second uses up the five guesses and locks it,
  then the first guess completes and the account is open again.
\<close>

theorem stale_guess_reopens_account_witness:
  "let read = login_read (str ''ada'') plain_db;
       locked = wrong_guesses (plain_env 0 []) (str ''ada'') (take 5 plain_guesses) plain_db;
       after = snd (login_finish (plain_env 6 []) (str ''z'') read locked)
   in map_option lock_of (login_read (str ''ada'') locked) = Some (5, Some 905) \<and>
      map_option lock_of (fetch_optional (\<lambda>x. u_id x = 1) (users after)) = Some (1, None)"
proof -
  define locked where "locked = wrong_guesses (plain_env 0 []) (str ''ada'') (take 5 plain_guesses) plain_db"
  let ?read = "plain_user 1 (str ''ada'') (str ''pw'')"
  have r: "login_read (str ''ada'') plain_db = Some ?read"
    by (simp add: login_read_def fetch_optional_def plain_db_def plain_user_def nocase_eq_def
        to_ascii_lowercase_def str_def)
  have wf: "users_wf plain_db" unfolding users_wf_def by code_simp
  have "\<forall>(t, pw) \<in> set (take 5 plain_guesses).
      argon2_verify (plain_env 0 []) pw (u_password_hash ?read) = Inr False"
    by (simp add: plain_guesses_def plain_env_def plain_user_def str_def)
  from wrong_guesses_state [OF wf r this] obtain u where
    u: "login_read (str ''ada'') locked = Some u" "u_id u = 1"
    "lock_of u = fold failed_attempt (map fst (take 5 plain_guesses)) (lock_of ?read)"
    by (auto simp: locked_def plain_user_def)
  have "u \<in> set (users locked)" using u(1) fetch_optional_Some by (fastforce simp: login_read_def)
  moreover have "users_wf locked" unfolding locked_def by (rule wrong_guesses_wf [OF wf])
  ultimately have "map_option lock_of (fetch_optional (\<lambda>x. u_id x = u_id u)
      (users (snd (login_finish (plain_env 6 []) (str ''z'') (Some ?read) locked)))) = Some (0 + 1, None)"
    using stale_guess_reopens_account [of locked u ?read 0 "plain_env 6 []" "str ''z''"] u(2)
    by (simp add: lock_of_def plain_user_def plain_env_def LOCKOUT_MIN_AFTER_def str_def)
  moreover have "lock_of u = (5, Some 905)" unfolding u(3) by code_simp
  ultimately show ?thesis using u r by (simp add: Let_def flip: locked_def)
qed

end
