(* ===== verification/Accounts.thy ===== *)
theory Accounts
  imports Login
begin

text \<open>
  Every operation on the auth tables as one step relation, and what holds in every database
  reachable from a fresh one: names unique whatever their case, one row per credential hash,
  and an administrator as soon as there is an account. The last sections cover the password
  change, which closes every other session, and the round trip of the hidden formats.
\<close>

subsection \<open>The operations as steps\<close>

text \<open>
  A failed transaction leaves the database as it is and is no step. \<open>admin_create_user\<close> is
  behind an administrator's session, so there is an account by then; the write of a login may
  follow a stale read.
\<close>

inductive auth_step :: "auth_db \<Rightarrow> auth_db \<Rightarrow> bool" where
  create: "create_user env name pw db = Inr (u, db') \<Longrightarrow> auth_step db db'"
| admin_create: "users db \<noteq> [] \<Longrightarrow> admin_create_user env name pw p db = Inr (r, db') \<Longrightarrow> auth_step db db'"
| permissions: "update_user_permissions i p db = Inr db' \<Longrightarrow> auth_step db db'"
| delete: "delete_user i db = Inr db' \<Longrightarrow> auth_step db db'"
| promote: "auth_step db (snd (promote_to_admin name db))"
| password: "change_password env i current new keep db = Inr db' \<Longrightarrow> auth_step db db'"
| admin_password: "admin_set_password env i new db = Inr db' \<Longrightarrow> auth_step db db'"
| unlock: "unlock_user i db = Inr db' \<Longrightarrow> auth_step db db'"
| registration: "auth_step db (set_registration_enabled b db)"
| kindle: "set_kindle_email i e db = Inr db' \<Longrightarrow> auth_step db db'"
| display_name: "set_display_name i n db = Inr db' \<Longrightarrow> auth_step db db'"
| formats: "set_hidden_formats env dbg i fs db = Inr (c, db') \<Longrightarrow> auth_step db db'"
| scroll_stops: "auth_step db (set_book_detail_scroll_stops i b db)"
| stack: "auth_step db (set_stack_series i b db)"
| share: "auth_step db (set_share_stats i b db)"
| login: "auth_step db (snd (login_finish env pw read db))"
| mint: "insert_session env uid did imp kind ttl ua db = Inr (ns, db') \<Longrightarrow> auth_step db db'"
| lookup: "lookup_session env raw db = Inr (p, db') \<Longrightarrow> auth_step db db'"
| revoke: "auth_step db (revoke_where P t db)"
| prune: "auth_step db (snd (prune_expired_sessions env db))"
| mint_token: "create_api_token env uid name db = Inr (p, db') \<Longrightarrow> auth_step db db'"
| lookup_token: "lookup_api_token env raw db = Inr (p, db') \<Longrightarrow> auth_step db db'"
| revoke_token: "revoke_api_token_for_user env uid i db = Inr db' \<Longrightarrow> auth_step db db'"
| rename_token: "rename_api_token_for_user uid i name db = Inr db' \<Longrightarrow> auth_step db db'"
| device: "register_device env uid name kind v db = Inr (d, db') \<Longrightarrow> auth_step db db'"
| drop_device: "revoke_device env i db = Inr db' \<Longrightarrow> auth_step db db'"

inductive_cases auth_stepE: "auth_step db db'"

subsection \<open>The invariant\<close>

definition low_name :: "user_row \<Rightarrow> ustr" where
  "low_name u = to_ascii_lowercase (u_username u)"

definition users_ok :: "user_row list \<Rightarrow> int \<Rightarrow> bool" where
  "users_ok us seq \<longleftrightarrow>
     distinct (map u_id us) \<and> (\<forall>u \<in> set us. u_id u \<le> seq) \<and> distinct (map low_name us) \<and>
     (\<forall>u \<in> set us. u_is_admin u = 0 \<or> u_is_admin u = 1) \<and>
     (us \<noteq> [] \<longrightarrow> (\<exists>u \<in> set us. u_is_admin u = 1))"

definition auth_inv :: "auth_db \<Rightarrow> bool" where
  "auth_inv db \<longleftrightarrow>
     users_ok (users db) (user_seq db) \<and> distinct (map s_token_hash (sessions db)) \<and>
     distinct (map t_token_hash (api_tokens db))"

lemma users_ok_maps:
  "users_ok us seq \<longleftrightarrow>
     distinct (map u_id us) \<and> (\<forall>x \<in> set (map u_id us). x \<le> seq) \<and> distinct (map low_name us) \<and>
     set (map u_is_admin us) \<subseteq> {0, 1} \<and> (map u_id us \<noteq> [] \<longrightarrow> 1 \<in> set (map u_is_admin us))"
  unfolding users_ok_def by (auto simp: image_iff)

lemma users_ok_map:
  assumes "users_ok us seq" "\<And>u. u_id (f u) = u_id u" "\<And>u. u_username (f u) = u_username u"
    and "\<And>u. u_is_admin (f u) = u_is_admin u"
  shows "users_ok (update_where P f us) seq"
proof -
  have maps: "map u_id (update_where P f us) = map u_id us"
    "map low_name (update_where P f us) = map low_name us"
    "map u_is_admin (update_where P f us) = map u_is_admin us"
    by (rule map_update_where, simp add: assms(2-4) low_name_def)+
  show ?thesis using assms(1) unfolding users_ok_maps maps .
qed

lemma auth_inv_update_user:
  assumes "auth_inv db" "\<And>u. u_id (f u) = u_id u" "\<And>u. u_username (f u) = u_username u"
    and "\<And>u. u_is_admin (f u) = u_is_admin u"
  shows "auth_inv (update_user i f db)"
  using assms by (simp add: auth_inv_def update_user_def users_ok_map)

text \<open>Two administrators: one of them is not this one.\<close>

lemma other_admin:
  assumes "distinct (map u_id us)" "rows_affected P us \<ge> 2"
  shows "\<exists>u \<in> set us. P u \<and> u_id u \<noteq> i"
proof (rule ccontr)
  assume "\<not> ?thesis"
  then have "\<forall>u \<in> set (filter P us). u_id u = i" by auto
  moreover have "distinct (map u_id (filter P us))" using assms(1) by (rule distinct_map_filter)
  ultimately have "length (filter P us) \<le> 1"
    by (cases "filter P us" rule: remdups_adj.cases) auto
  with assms(2) show False by (simp add: rows_affected_def)
qed

lemma users_ok_permissions:
  assumes ok: "users_ok us seq" and f: "\<And>u. u_id (f u) = u_id u" "\<And>u. u_username (f u) = u_username u"
      "\<And>u. u_is_admin (f u) = of_bool b"
    and guard: "b \<or> (\<exists>u \<in> set us. u_is_admin u = 1 \<and> u_id u \<noteq> i) \<or> (\<forall>u \<in> set us. u_id u \<noteq> i)"
  shows "users_ok (update_where (\<lambda>u. u_id u = i) f us) seq"
proof -
  let ?us = "update_where (\<lambda>u. u_id u = i) f us"
  have maps: "map u_id ?us = map u_id us" "map low_name ?us = map low_name us"
    using f by (simp_all add: map_update_where low_name_def)
  have "\<exists>u \<in> set ?us. u_is_admin u = 1" if "us \<noteq> []"
  proof (cases "\<exists>u \<in> set us. u_id u = i \<and> b")
    case True
    then show ?thesis using f(3) by (auto simp: set_update_where)
  next
    case False
    then have "\<exists>u \<in> set us. u_is_admin u = 1 \<and> u_id u \<noteq> i"
      using guard that ok by (auto simp: users_ok_def)
    then show ?thesis by (auto simp: set_update_where)
  qed
  moreover have "?us = [] \<longleftrightarrow> us = []" by (simp add: update_where_def)
  ultimately show ?thesis
    using ok f(1,3) maps by (auto simp: users_ok_def set_update_where)
qed

lemma users_ok_insert:
  assumes "users_ok us seq" "u_id u = seq + 1" "u_is_admin u = 0 \<or> u_is_admin u = 1"
    and "us = [] \<longrightarrow> u_is_admin u = 1" "\<forall>v \<in> set us. low_name v \<noteq> low_name u"
  shows "users_ok (us @ [u]) (seq + 1)"
proof -
  have "u_id u \<notin> set (map u_id us)" using assms(1,2) by (force simp: users_ok_def)
  moreover have "low_name u \<notin> set (map low_name us)" using assms(5) by auto
  ultimately show ?thesis
    using assms(1-4) unfolding users_ok_def by auto
qed

lemma users_ok_delete:
  assumes "users_ok us seq"
    and "us' = delete_where (\<lambda>u. u_id u = i) us" "us' \<noteq> [] \<longrightarrow> (\<exists>u \<in> set us'. u_is_admin u = 1)"
  shows "users_ok us' seq"
  using assms by (auto simp: users_ok_def delete_where_def distinct_map_filter)

lemma no_name: "fetch_optional (\<lambda>u. nocase_eq (u_username u) name) us = None \<longleftrightarrow>
    (\<forall>u \<in> set us. low_name u \<noteq> to_ascii_lowercase name)"
  by (simp add: fetch_optional_None nocase_eq_def low_name_def)

lemma provision_simps [simp]:
  "users (provision_wishlist_shelf i db) = users db"
  "user_seq (provision_wishlist_shelf i db) = user_seq db"
  "sessions (provision_wishlist_shelf i db) = sessions db"
  "api_tokens (provision_wishlist_shelf i db) = api_tokens db"
  by (simp_all add: provision_wishlist_shelf_def split: option.split)

lemma delete_devices_simps [simp]:
  "users (delete_devices P db) = users db" "user_seq (delete_devices P db) = user_seq db"
  "api_tokens (delete_devices P db) = api_tokens db"
  "map s_token_hash (sessions (delete_devices P db)) = map s_token_hash (sessions db)"
  by (simp_all add: delete_devices_def Let_def map_update_where)

lemma insert_user_ok:
  assumes "insert_user env name phc p db = (i, db1)" "users_ok (users db) (user_seq db)"
    and "users db = [] \<longrightarrow> p_is_admin p" "\<forall>v \<in> set (users db). low_name v \<noteq> to_ascii_lowercase name"
  shows "users_ok (users db1) (user_seq db1) \<and> sessions db1 = sessions db \<and> api_tokens db1 = api_tokens db"
proof -
  from assms(1) obtain row where db1: "db1 = db\<lparr> users := users db @ [row], user_seq := user_seq db + 1 \<rparr>"
    and row: "u_id row = user_seq db + 1" "u_username row = name" "u_is_admin row = of_bool (p_is_admin p)"
    by (auto simp: insert_user_def Let_def)
  have "users_ok (users db @ [row]) (user_seq db + 1)"
    using assms(2-4) row by (intro users_ok_insert) (simp_all add: low_name_def)
  then show ?thesis by (simp add: db1)
qed

lemma create_user_inv:
  assumes "auth_inv db" "create_user env name pw db = Inr (u, db')"
  shows "auth_inv db'"
proof -
  from assms(2) obtain phc is_first where f: "check_registration_preconditions name db = Inr is_first"
    and h: "argon2_hash env pw = Inr phc" by (auto simp: create_user_def and_then_Inr)
  let ?p = "\<lparr> p_is_admin = is_first, p_can_upload = is_first, p_can_edit = is_first,
               p_can_download = True, p_can_request = is_first \<rparr>"
  obtain i db1 where i: "insert_user env name phc ?p db = (i, db1)" by force
  have pre: "is_first = (users db = [])" "\<forall>v \<in> set (users db). low_name v \<noteq> to_ascii_lowercase name"
    using f by (auto simp: check_registration_preconditions_def Let_def no_name split: if_splits)
  have "users_ok (users db1) (user_seq db1) \<and> sessions db1 = sessions db \<and> api_tokens db1 = api_tokens db"
    using assms(1) pre by (intro insert_user_ok [OF i]) (simp_all add: auth_inv_def)
  moreover have "users db' = users db1" "user_seq db' = user_seq db1" "sessions db' = sessions db1"
    "api_tokens db' = api_tokens db1"
    using assms(2) by (auto simp: create_user_def and_then_Inr f h i)
  ultimately show ?thesis using assms(1) by (simp add: auth_inv_def)
qed

lemma admin_create_inv:
  assumes "auth_inv db" "users db \<noteq> []" "admin_create_user env name pw p db = Inr (r, db')"
  shows "auth_inv db'"
proof -
  from assms(3) obtain phc where h: "argon2_hash env pw = Inr phc"
    by (auto simp: admin_create_user_def and_then_Inr)
  obtain i db1 where i: "insert_user env name phc p db = (i, db1)" by force
  have free: "\<forall>v \<in> set (users db). low_name v \<noteq> to_ascii_lowercase name"
    and db': "db' = provision_wishlist_shelf i db1"
    using assms(3) by (auto simp: admin_create_user_def and_then_Inr h i no_name [symmetric] split: if_splits)
  have "users_ok (users db1) (user_seq db1) \<and> sessions db1 = sessions db \<and> api_tokens db1 = api_tokens db"
    using assms(1,2) free by (intro insert_user_ok [OF i]) (simp_all add: auth_inv_def)
  then show ?thesis using assms(1) by (simp add: db' auth_inv_def)
qed

lemma admin_flag_Inr:
  "admin_flag_for_update i db = Inr b \<Longrightarrow> \<exists>u \<in> set (users db). u_id u = i \<and> b = (u_is_admin u \<noteq> 0)"
  by (auto simp: admin_flag_for_update_def dest: fetch_optional_Some)

text \<open>The guard of the two operations that can take an administrator away.\<close>

lemma last_admin_guard:
  assumes "auth_inv db" "admin_flag_for_update i db = Inr b" "\<not> (b \<and> admin_count db \<le> 1)"
  shows "\<exists>u \<in> set (users db). u_is_admin u = 1 \<and> u_id u \<noteq> i"
proof -
  have ok: "users_ok (users db) (user_seq db)" using assms(1) by (simp add: auth_inv_def)
  obtain u where u: "u \<in> set (users db)" "u_id u = i" "b = (u_is_admin u \<noteq> 0)"
    using admin_flag_Inr [OF assms(2)] by blast
  show ?thesis
  proof (cases b)
    case True
    with assms(3) have "rows_affected (\<lambda>u. u_is_admin u = 1) (users db) \<ge> 2"
      by (simp add: admin_count_def)
    then show ?thesis using other_admin ok by (auto simp: users_ok_def)
  next
    case False
    have "u = v" if "v \<in> set (users db)" "u_id v = i" for v
      using that u ok by (auto simp: users_ok_def distinct_map inj_on_def)
    moreover obtain v where "v \<in> set (users db)" "u_is_admin v = 1"
      using u(1) ok by (auto simp: users_ok_def)
    ultimately show ?thesis using False u(3) by (metis one_neq_zero)
  qed
qed

lemma permissions_inv:
  assumes "auth_inv db" "update_user_permissions i p db = Inr db'"
  shows "auth_inv db'"
proof -
  let ?f = "\<lambda>u. u\<lparr> u_is_admin := of_bool (p_is_admin p), u_can_upload := of_bool (p_can_upload p),
    u_can_edit := of_bool (p_can_edit p), u_can_download := of_bool (p_can_download p),
    u_can_request := of_bool (p_can_request p) \<rparr>"
  obtain b where b: "admin_flag_for_update i db = Inr b" "\<not> (b \<and> \<not> p_is_admin p \<and> admin_count db \<le> 1)"
    and db': "db' = update_user i ?f db"
    using assms(2) by (auto simp: update_user_permissions_def and_then_Inr split: if_splits)
  have "p_is_admin p \<or> (\<exists>u \<in> set (users db). u_is_admin u = 1 \<and> u_id u \<noteq> i)"
    using last_admin_guard [OF assms(1) b(1)] b(2) by blast
  then have "users_ok (update_where (\<lambda>u. u_id u = i) ?f (users db)) (user_seq db)"
    using assms(1) by (intro users_ok_permissions [where b = "p_is_admin p"]) (auto simp: auth_inv_def)
  with assms(1) show ?thesis by (simp add: db' auth_inv_def update_user_def)
qed

lemma delete_inv:
  assumes "auth_inv db" "delete_user i db = Inr db'"
  shows "auth_inv db'"
proof -
  let ?us = "delete_where (\<lambda>u. u_id u = i) (users db)"
  obtain b where b: "admin_flag_for_update i db = Inr b" "\<not> (b \<and> admin_count db \<le> 1)"
    and db': "db' = cascade_user i (db\<lparr> users := ?us \<rparr>)"
    using assms(2) by (auto simp: delete_user_def and_then_Inr split: if_splits)
  have "\<exists>u \<in> set ?us. u_is_admin u = 1" using last_admin_guard [OF assms(1) b] by auto
  then have "users_ok ?us (user_seq db)"
    using assms(1) users_ok_delete [of "users db" "user_seq db" ?us i] by (simp add: auth_inv_def)
  moreover have "distinct (map s_token_hash (sessions (delete_devices P (db\<lparr> users := ?us \<rparr>))))" for P
    using assms(1) by (simp add: auth_inv_def)
  ultimately show ?thesis
    using assms(1)
    by (auto simp: db' cascade_user_def Let_def auth_inv_def delete_where_def intro: distinct_map_filter)
qed

lemma promote_inv: "auth_inv db \<Longrightarrow> auth_inv (snd (promote_to_admin name db))"
proof -
  assume inv: "auth_inv db"
  let ?P = "\<lambda>u. nocase_eq (u_username u) name" and ?f = "\<lambda>u. u\<lparr> u_is_admin := 1 \<rparr>"
  have maps: "map u_id (update_where ?P ?f (users db)) = map u_id (users db)"
    "map low_name (update_where ?P ?f (users db)) = map low_name (users db)"
    by (rule map_update_where, simp add: low_name_def)+
  have "u_is_admin u \<in> {0, 1}" if "u \<in> set (update_where ?P ?f (users db))" for u
    using that inv by (auto simp: set_update_where auth_inv_def users_ok_def)
  moreover have "\<exists>u \<in> set (update_where ?P ?f (users db)). u_is_admin u = 1" if ne: "users db \<noteq> []"
  proof -
    obtain u where "u \<in> set (users db)" "u_is_admin u = 1"
      using ne inv by (auto simp: auth_inv_def users_ok_def)
    then show ?thesis
      using mem_update_where [of u "users db" ?P ?f] by (intro bexI) (auto split: if_splits)
  qed
  ultimately have "users_ok (update_where ?P ?f (users db)) (user_seq db)"
    using inv unfolding users_ok_maps maps auth_inv_def by (auto simp: image_iff)
  with inv show ?thesis by (simp add: promote_to_admin_def Let_def auth_inv_def)
qed

lemma revoke_where_inv [simp]: "auth_inv (revoke_where P t db) = auth_inv db"
  by (simp add: auth_inv_def revoke_where_def map_update_where)

lemma session_update_inv:
  "map s_token_hash ss = map s_token_hash (sessions db) \<Longrightarrow> auth_inv (db\<lparr> sessions := ss \<rparr>) = auth_inv db"
  by (simp add: auth_inv_def)

lemma user_edit_inv: "auth_inv db \<Longrightarrow> auth_inv (update_user i (\<lambda>u. u\<lparr> u_password_hash := h, u_password_changed_at := t \<rparr>) db)"
  "auth_inv db \<Longrightarrow> auth_inv (update_user i (\<lambda>u. u\<lparr> u_failed_login_count := n, u_locked_until := l \<rparr>) db)"
  "auth_inv db \<Longrightarrow> auth_inv (update_user i (\<lambda>u. u\<lparr> u_failed_login_count := u_failed_login_count u + 1 \<rparr>) db)"
  "auth_inv db \<Longrightarrow> auth_inv (update_user i (\<lambda>u. u\<lparr> u_kindle_email := e \<rparr>) db)"
  "auth_inv db \<Longrightarrow> auth_inv (update_user i (\<lambda>u. u\<lparr> u_display_name := e \<rparr>) db)"
  "auth_inv db \<Longrightarrow> auth_inv (update_user i (\<lambda>u. u\<lparr> u_hidden_formats := e \<rparr>) db)"
  "auth_inv db \<Longrightarrow> auth_inv (update_user i (\<lambda>u. u\<lparr> u_book_detail_scroll_stops := k \<rparr>) db)"
  "auth_inv db \<Longrightarrow> auth_inv (update_user i (\<lambda>u. u\<lparr> u_stack_series := k \<rparr>) db)"
  "auth_inv db \<Longrightarrow> auth_inv (update_user i (\<lambda>u. u\<lparr> u_share_stats := k \<rparr>) db)"
  by (auto intro: auth_inv_update_user)

lemma login_inv: "auth_inv db \<Longrightarrow> auth_inv (snd (login_finish env pw read db))"
  by (auto simp: login_finish_def Let_def user_edit_inv split: option.split sum.split)

lemma wishlists_inv [simp]: "auth_inv (db\<lparr> wishlists := w \<rparr>) = auth_inv db"
  "auth_inv (db\<lparr> registration_setting := r \<rparr>) = auth_inv db"
  by (simp_all add: auth_inv_def)

lemma display_name_inv: "auth_inv db \<Longrightarrow> set_display_name i n db = Inr db' \<Longrightarrow> auth_inv db'"
  by (auto simp: set_display_name_def and_then_Inr Let_def user_edit_inv)

lemma formats_inv: "auth_inv db \<Longrightarrow> set_hidden_formats env dbg i fs db = Inr (c, db') \<Longrightarrow> auth_inv db'"
  by (auto simp: set_hidden_formats_def Let_def user_edit_inv split: if_splits option.splits)

lemma kindle_inv: "auth_inv db \<Longrightarrow> set_kindle_email i e db = Inr db' \<Longrightarrow> auth_inv db'"
  by (auto simp: set_kindle_email_def user_edit_inv split: if_splits option.splits)

lemma password_inv:
  "auth_inv db \<Longrightarrow> change_password env i c new keep db = Inr db' \<Longrightarrow> auth_inv db'"
  "auth_inv db \<Longrightarrow> admin_set_password env i new db = Inr db' \<Longrightarrow> auth_inv db'"
  by (auto simp: change_password_def admin_set_password_def and_then_Inr Let_def user_edit_inv
      revoke_all_sessions_for_user_except_def revoke_all_sessions_for_user_def split: if_splits)

lemma mint_inv:
  "auth_inv db \<Longrightarrow> insert_session env uid did imp kind ttl ua db = Inr (ns, db') \<Longrightarrow> auth_inv db'"
  by (auto simp: insert_session_def and_then_Inr Let_def auth_inv_def list_ex_iff split: if_splits)
    blast+

lemma mint_token_inv: "auth_inv db \<Longrightarrow> create_api_token env uid name db = Inr (p, db') \<Longrightarrow> auth_inv db'"
  by (auto simp: create_api_token_def and_then_Inr Let_def auth_inv_def list_ex_iff split: if_splits)
    blast+

lemma lookup_inv:
  "auth_inv db \<Longrightarrow> lookup_session env raw db = Inr (p, db') \<Longrightarrow> auth_inv db'"
  "auth_inv db \<Longrightarrow> lookup_api_token env raw db = Inr (q, db') \<Longrightarrow> auth_inv db'"
  by (auto simp: lookup_session_def lookup_api_token_def and_then_Inr touch_last_used_def
      touch_api_token_def auth_inv_def map_update_where split: if_splits)

lemma prune_inv: "auth_inv db \<Longrightarrow> auth_inv (snd (prune_expired_sessions env db))"
  by (auto simp: prune_expired_sessions_def Let_def auth_inv_def delete_where_def
      intro!: distinct_map_filter)

lemma token_edit_inv:
  "auth_inv db \<Longrightarrow> revoke_api_token_for_user env uid i db = Inr db' \<Longrightarrow> auth_inv db'"
  "auth_inv db \<Longrightarrow> rename_api_token_for_user uid i name db = Inr db' \<Longrightarrow> auth_inv db'"
  by (auto simp: revoke_api_token_for_user_def rename_api_token_for_user_def revoke_tokens_where_def
      and_then_Inr Let_def auth_inv_def map_update_where split: if_splits)

lemma delete_devices_inv [simp]: "auth_inv (delete_devices P db) = auth_inv db"
  by (simp add: auth_inv_def)

lemma device_inv:
  "auth_inv db \<Longrightarrow> register_device env uid name kind v db = Inr (d, db') \<Longrightarrow> auth_inv db'"
  "auth_inv db \<Longrightarrow> revoke_device env i db = Inr db' \<Longrightarrow> auth_inv db'"
  by (auto simp: register_device_def revoke_device_def cap_devices_def and_then_Inr Let_def
      split: if_splits) (simp add: auth_inv_def)

lemma auth_step_inv: "auth_step db db' \<Longrightarrow> auth_inv db \<Longrightarrow> auth_inv db'"
proof (induction rule: auth_step.induct)
  case (unlock i db db')
  then show ?case by (auto simp: unlock_user_def user_edit_inv split: if_splits)
next
  case (registration db b)
  then show ?case by (simp add: set_registration_enabled_def)
qed (auto intro: create_user_inv admin_create_inv permissions_inv delete_inv promote_inv
    password_inv kindle_inv display_name_inv formats_inv login_inv mint_inv lookup_inv
    prune_inv mint_token_inv token_edit_inv device_inv
    simp: set_book_detail_scroll_stops_def set_stack_series_def set_share_stats_def user_edit_inv)

interpretation auth: invariant_system "\<lambda>db. db = fresh_auth_db" auth_step auth_inv
  by unfold_locales (simp add: auth_inv_def fresh_auth_db_def users_ok_def, blast intro: auth_step_inv)

text \<open>
  C3: in every database reachable from a fresh one, user names are unique whatever their case,
  no two credentials share a hash, and as soon as there is an account there is an administrator:
  no sequence of operations locks everyone out of the admin panel.
\<close>

theorem an_administrator_remains:
  assumes "reachable (\<lambda>db. db = fresh_auth_db) auth_step db"
  shows "users_wf db \<and> distinct (map s_token_hash (sessions db)) \<and>
    distinct (map t_token_hash (api_tokens db)) \<and>
    (users db \<noteq> [] \<longrightarrow> (\<exists>u \<in> set (users db). usr_is_admin (row_to_user db u)))"
proof -
  have "auth_inv db" by (rule auth.reachable_inv [OF assms])
  moreover have "low_name = to_ascii_lowercase \<circ> u_username" by (simp add: fun_eq_iff low_name_def)
  ultimately show ?thesis
    by (auto simp: auth_inv_def users_ok_def users_wf_def row_to_user_def) (metis one_neq_zero)
qed

theorem an_administrator_remains_witness:
  "\<exists>db. map usr_is_admin (map (row_to_user db) (users db)) = [True] \<and> users_wf db"
proof -
  let ?env = "plain_env 7 []"
  obtain u db where c: "create_user ?env (str ''ada'') (str ''correct horse'') fresh_auth_db = Inr (u, db)"
    and a: "map usr_is_admin (map (row_to_user db) (users db)) = [True]"
  proof -
    have "map_sum id (\<lambda>(u, db). map usr_is_admin (map (row_to_user db) (users db)))
        (create_user ?env (str ''ada'') (str ''correct horse'') fresh_auth_db) = Inr [True]"
      by code_simp
    with that show thesis
      by (cases "create_user ?env (str ''ada'') (str ''correct horse'') fresh_auth_db") auto
  qed
  have "reachable (\<lambda>db. db = fresh_auth_db) auth_step fresh_auth_db" by (simp add: reach_init)
  then have "reachable (\<lambda>db. db = fresh_auth_db) auth_step db"
    by (rule reach_step) (rule auth_step.create [OF c])
  from an_administrator_remains [OF this] a show ?thesis by (intro exI [of _ db]) simp
qed

subsection \<open>Changing a password\<close>

text \<open>
  C15: a password change answers only to the current password, installs a hash of the new one,
  keeps the session it was made with, and closes every other session of the account and every
  session its holder opened as somebody else, at once and for good; everyone else's sessions
  are untouched.
\<close>

theorem change_password_closes_other_sessions:
  assumes "change_password env i current new keep db = Inr db'" "auth_inv db" "r \<in> set (sessions db)"
  shows "(\<exists>u. fetch_optional (\<lambda>u. u_id u = i) (users db) = Some u \<and>
        argon2_verify env current (u_password_hash u) = Inr True) \<and>
    (\<exists>u. fetch_optional (\<lambda>u. u_id u = i) (users db') = Some u \<and>
        argon2_hash env new = Inr (u_password_hash u)) \<and>
    resolve_session t (s_token_hash r) db' =
      (if (s_user_id r = i \<or> s_impersonator_id r = Some i) \<and> s_id r \<noteq> keep then None
       else resolve_session t (s_token_hash r) db)"
proof -
  let ?P = "\<lambda>r. (s_user_id r = i \<or> s_impersonator_id r = Some i) \<and> s_id r \<noteq> keep \<and> s_revoked_at r = None"
  from assms(1) obtain u phc where u: "fetch_optional (\<lambda>u. u_id u = i) (users db) = Some u"
    and v: "argon2_verify env current (u_password_hash u) = Inr True" and h: "argon2_hash env new = Inr phc"
    by (auto simp: change_password_def and_then_Inr split: if_splits)
  let ?f = "\<lambda>u. u\<lparr> u_password_hash := phc, u_password_changed_at := now env \<rparr>"
  have db': "db' = revoke_where ?P (now env) (update_user i ?f db)"
    using assms(1) u v h
    by (auto simp: change_password_def and_then_Inr Let_def revoke_all_sessions_for_user_except_def
        split: if_splits)
  have ids: "distinct (map u_id (users db))" and hashes: "distinct (map s_token_hash (sessions db))"
    using assms(2) by (simp_all add: auth_inv_def users_ok_def)
  have "fetch_optional (\<lambda>u. u_id u = i) (users db') = Some (?f u)"
    using fetch_update_unique [OF ids, of u i ?f] fetch_optional_Some [OF u]
    by (simp add: db' revoke_where_def update_user_def)
  moreover have same: "resolve_session t h (update_user i ?f db) = resolve_session t h db" for h
    by (simp add: resolve_session_def update_user_def)
  moreover have "sessions (update_user i ?f db) = sessions db" by (simp add: update_user_def)
  then have "resolve_session t (s_token_hash r) db' =
      (if ?P r then None else resolve_session t (s_token_hash r) db)"
    using session_store.revoked_stays_out [of "update_user i ?f db" r ?P t "now env"]
      session_store.others_unaffected [of "update_user i ?f db" r ?P t "now env"] hashes assms(3)
    by (simp add: db' same)
  moreover have "resolve_session t (s_token_hash r) db = None" if "s_revoked_at r \<noteq> None"
  proof (rule option_NoneI)
    fix x
    show "resolve_session t (s_token_hash r) db \<noteq> Some x"
      using that session_store.same_key [OF hashes assms(3), of x]
      unfolding session_store.resolve_iff [OF hashes] by (auto simp: session_live_def)
  qed
  ultimately show ?thesis using u v h by auto
qed

theorem change_password_closes_other_sessions_witness:
  "\<exists>db'. change_password (plain_env 920 []) 1 (str ''pw'') (str ''correct horse'') 1 plain_db = Inr db' \<and>
     resolve_session 921 (str ''t2'') db' = None"
proof -
  obtain db' where c: "change_password (plain_env 920 []) 1 (str ''pw'') (str ''correct horse'') 1 plain_db = Inr db'"
  proof -
    have "map_sum id (\<lambda>_. ())
        (change_password (plain_env 920 []) 1 (str ''pw'') (str ''correct horse'') 1 plain_db) = Inr ()"
      by code_simp
    with that show thesis
      by (cases "change_password (plain_env 920 []) 1 (str ''pw'') (str ''correct horse'') 1 plain_db") auto
  qed
  have inv: "auth_inv plain_db" unfolding auth_inv_def users_ok_def by code_simp
  have r: "plain_session 2 (str ''t2'') 1 900 950 \<in> set (sessions plain_db)" by (simp add: plain_db_def)
  from change_password_closes_other_sessions [OF c inv r, of 921] c show ?thesis
    by (auto simp: plain_session_def)
qed

subsection \<open>Hidden formats\<close>

lemma split_join:
  assumes "xs \<noteq> []" "\<forall>x \<in> set xs. d \<notin> set x"
  shows "split_on d (join_with [d] xs) = xs"
proof -
  have nonempty: "split_on d s \<noteq> []" for s by (induction s) (auto split: list.splits)
  have one: "split_on d (x @ s) = (case split_on d s of [] \<Rightarrow> [x] | p # ps \<Rightarrow> (x @ p) # ps)"
    if "d \<notin> set x" for x s
    using that nonempty by (induction x) (auto split: list.splits)
  show ?thesis using assms
  proof (induction "[d]" xs rule: join_with.induct)
    case (2 x)
    then show ?case using one [of x "[]"] by simp
  next
    case (3 x y ys)
    then show ?case using one [of x "d # join_with [d] (y # ys)"] by simp
  qed simp
qed

text \<open>
  the formats a user hides come back from the database exactly as the canonical list the
  setter returned: sorted, without duplicates, each one to sixteen letters or digits.
\<close>

theorem hidden_formats_round_trip:
  assumes "set_hidden_formats env dbg i formats db = Inr (canonical, db')"
    and "auth_inv db" "u \<in> set (users db)" "u_id u = i"
  shows "get_hidden_formats i db' = canonical \<and> sorted canonical \<and> distinct canonical \<and>
    (\<forall>f \<in> set canonical. f \<noteq> [] \<and> format_token_ok f)"
proof -
  let ?stored = "if canonical = [] then None else Some (join_with [44] canonical)"
  let ?f = "\<lambda>u. u\<lparr> u_hidden_formats := ?stored \<rparr>"
  have c: "canonical = canonical_formats env formats"
    and ok: "find (\<lambda>f. \<not> format_token_ok f) canonical = None" and db': "db' = update_user i ?f db"
    using assms(1) by (auto simp: set_hidden_formats_def Let_def split: if_splits option.splits)
  have ids: "distinct (map u_id (users db))" using assms(2) by (simp add: auth_inv_def users_ok_def)
  have read: "get_hidden_formats i db' = parse_hidden_formats ?stored"
    using fetch_update_unique [OF ids assms(3,4), of ?f] assms(4)
    by (simp add: get_hidden_formats_def db' update_user_def)
  have tokens: "\<forall>f \<in> set canonical. f \<noteq> [] \<and> format_token_ok f"
    using ok by (auto simp: find_None_iff c canonical_formats_def)
  have chars: "\<not> is_whitespace c \<and> c \<noteq> 44" if "f \<in> set canonical" "c \<in> set f" for f c
  proof -
    have "(97 \<le> c \<and> c \<le> 122) \<or> is_ascii_digit c"
      using tokens that by (auto simp: format_token_ok_def list_all_iff)
    then show ?thesis by (auto simp: is_ascii_digit_def is_whitespace_def)
  qed
  then have "trim f = f" "44 \<notin> set f" if "f \<in> set canonical" for f
    using that by (auto intro!: trim_by_none)
  then have "parse_hidden_formats ?stored = canonical"
    using tokens by (auto simp: parse_hidden_formats_def split_join map_idI filter_id_conv)
  moreover have "sorted canonical" "distinct canonical"
    by (simp_all add: c canonical_formats_def sorted_remdups_adj distinct_remdups_adj_sorted)
  ultimately show ?thesis using read tokens by simp
qed

theorem hidden_formats_round_trip_witness:
  "\<exists>db'. set_hidden_formats (plain_env 0 []) (\<lambda>s. s) 2 [str '' PDF'', str ''cbz'', str ''pdf''] plain_db =
       Inr ([str ''cbz'', str ''pdf''], db') \<and> get_hidden_formats 2 db' = [str ''cbz'', str ''pdf'']"
proof -
  obtain db' where s: "set_hidden_formats (plain_env 0 []) (\<lambda>s. s) 2 [str '' PDF'', str ''cbz'', str ''pdf''] plain_db =
      Inr ([str ''cbz'', str ''pdf''], db')"
  proof -
    let ?s = "set_hidden_formats (plain_env 0 []) (\<lambda>s. s) 2 [str '' PDF'', str ''cbz'', str ''pdf''] plain_db"
    have "map_sum id fst ?s = Inr [str ''cbz'', str ''pdf'']" by code_simp
    with that show thesis by (cases ?s) auto
  qed
  have inv: "auth_inv plain_db" unfolding auth_inv_def users_ok_def by code_simp
  have "plain_user 2 (str ''bob'') (str ''pw2'') \<in> set (users plain_db)" by (simp add: plain_db_def)
  from hidden_formats_round_trip [OF s inv this] s show ?thesis by (auto simp: plain_user_def)
qed

end
