(* ===== verification/Worker_Tasks.thy ===== *)
theory Worker_Tasks
  imports Omni_Prelude
begin

text \<open>
  The background worker's data and bookkeeping (\<open>db/src/worker/types.rs\<close>, \<open>queue.rs\<close>,
  \<open>progress.rs\<close>, \<open>metrics.rs\<close>, \<open>exec.rs\<close>, \<open>shared/src/worker.rs\<close>,
  \<open>shared/src/error_ring.rs\<close>) and its durable history (\<open>db/src/background_tasks.rs\<close>). The
  scheduling of the spawned futures is in the theory \<open>Worker\<close>. \<open>Instant\<close>s and
  \<open>Duration\<close>s are natural numbers of milliseconds, wall-clock times integers.
\<close>

subsection \<open>Tasks\<close>

datatype cleanup_kind = CkAuthor | CkSeries | CkTag | CkBookTitle

datatype task =
    Scan ustr
  | ScanAudiobooks ustr
  | GenerateThumbs int int
  | ResolveAuthorPhoto int
  | HlsTranscode int int ustr ustr
  | RefetchAuthorPhotos
  | BackfillChapters ustr
  | BackfillWordCounts ustr
  | BackfillPageCounts ustr
  | BackfillPartialMd5 ustr
  | BackfillEpubStructure ustr
  | BackfillCovers ustr
  | BackfillThumbs ustr
  | BackfillContentFts ustr
  | RebuildFtsIndex
  | ResolveSuggestions ustr
  | KepubConvert int
  | ConvertFormat int ustr ustr
  | SendToKindle int "int option" ustr
  | RewriteAllEpubs
  | DetectCleanup "cleanup_kind option"

text \<open>Every variant of a release build claims a resource; the test-only variant may not.\<close>

fun resource_key :: "task \<Rightarrow> ustr option" where
  "resource_key (Scan p) = Some p"
| "resource_key (ScanAudiobooks p) = Some (str ''audiobooks:'' @ p)"
| "resource_key (GenerateThumbs b _) = Some (str ''thumb:'' @ show_int b)"
| "resource_key (ResolveAuthorPhoto a) = Some (str ''author-photo:'' @ show_int a)"
| "resource_key (HlsTranscode b _ _ profile) = Some (str ''hls:'' @ show_int b @ [58] @ profile)"
| "resource_key RefetchAuthorPhotos = Some (str ''refetch-author-photos'')"
| "resource_key (BackfillChapters p) = Some (str ''audiobooks:'' @ p)"
| "resource_key (BackfillWordCounts p) = Some p"
| "resource_key (BackfillPageCounts p) = Some p"
| "resource_key (BackfillPartialMd5 p) = Some p"
| "resource_key (BackfillEpubStructure p) = Some p"
| "resource_key (BackfillCovers p) = Some p"
| "resource_key (BackfillThumbs p) = Some p"
| "resource_key (BackfillContentFts p) = Some p"
| "resource_key RebuildFtsIndex = Some (str ''rebuild-fts'')"
| "resource_key (ResolveSuggestions u) = Some (str ''suggestions:'' @ u)"
| "resource_key (KepubConvert b) = Some (str ''kepub:'' @ show_int b)"
| "resource_key (ConvertFormat b s t) =
     Some (str ''convert:'' @ show_int b @ [58] @ s @ [58] @ t)"
| "resource_key (SendToKindle _ _ _) = Some (str ''smtp'')"
| "resource_key RewriteAllEpubs = Some (str ''rewrite-all-epubs'')"
| "resource_key (DetectCleanup _) = Some (str ''cleanup'')"

fun uses_scan_sem :: "task \<Rightarrow> bool" where
  "uses_scan_sem (Scan _) = True"
| "uses_scan_sem (ScanAudiobooks _) = True"
| "uses_scan_sem _ = False"

fun uses_hls_sem :: "task \<Rightarrow> bool" where
  "uses_hls_sem (HlsTranscode _ _ _ _) = True"
| "uses_hls_sem _ = False"

fun uses_convert_sem :: "task \<Rightarrow> bool" where
  "uses_convert_sem (ConvertFormat _ _ _) = True"
| "uses_convert_sem _ = False"

fun persistence_kind :: "task \<Rightarrow> string" where
  "persistence_kind (Scan _) = ''scan''"
| "persistence_kind (ScanAudiobooks _) = ''scan_audiobooks''"
| "persistence_kind (GenerateThumbs _ _) = ''generate_thumbs''"
| "persistence_kind (ResolveAuthorPhoto _) = ''resolve_author_photo''"
| "persistence_kind (HlsTranscode _ _ _ _) = ''hls_transcode''"
| "persistence_kind RefetchAuthorPhotos = ''refetch_author_photos''"
| "persistence_kind (BackfillChapters _) = ''backfill_chapters''"
| "persistence_kind (BackfillWordCounts _) = ''backfill_word_counts''"
| "persistence_kind (BackfillPageCounts _) = ''backfill_page_counts''"
| "persistence_kind (BackfillPartialMd5 _) = ''backfill_partial_md5''"
| "persistence_kind (BackfillEpubStructure _) = ''backfill_epub_structure''"
| "persistence_kind (BackfillCovers _) = ''backfill_covers''"
| "persistence_kind (BackfillThumbs _) = ''backfill_thumbs''"
| "persistence_kind (BackfillContentFts _) = ''backfill_content_fts''"
| "persistence_kind RebuildFtsIndex = ''rebuild_fts_index''"
| "persistence_kind (ResolveSuggestions _) = ''resolve_suggestions''"
| "persistence_kind (KepubConvert _) = ''kepub_convert''"
| "persistence_kind (ConvertFormat _ _ _) = ''convert_format''"
| "persistence_kind (SendToKindle _ _ _) = ''send_to_kindle''"
| "persistence_kind RewriteAllEpubs = ''rewrite_all_epubs''"
| "persistence_kind (DetectCleanup _) = ''detect_cleanup''"

datatype task_kind =
    KScan | KGenerateThumbs | KResolveAuthorPhoto | KRefetchAuthorPhotos | KBackfillChapters
  | KResolveSuggestions

fun kind :: "task \<Rightarrow> task_kind" where
  "kind (GenerateThumbs _ _) = KGenerateThumbs"
| "kind (ResolveAuthorPhoto _) = KResolveAuthorPhoto"
| "kind RefetchAuthorPhotos = KRefetchAuthorPhotos"
| "kind (BackfillChapters _) = KBackfillChapters"
| "kind (BackfillThumbs _) = KGenerateThumbs"
| "kind (ResolveSuggestions _) = KResolveSuggestions"
| "kind _ = KScan"

subsection \<open>Outcomes and progress entries\<close>

record ghost_files_warning =
  gf_removed :: nat
  gf_total :: nat

datatype task_success_detail = GhostFiles ghost_files_warning | BakeErrors "ustr list"

datatype task_outcome = TaskOk "task_success_detail option" | TaskErr ustr

datatype progress_state =
    Running nat "nat option"
  | Done nat "ghost_files_warning option" "ustr list option"
  | Failed ustr

record scan_tallies =
  st_found :: nat
  st_new :: nat
  st_changed :: nat
  st_removed :: nat
  st_moved :: nat
  st_unchanged :: nat

record task_detail =
  td_phase :: "ustr option"
  td_current_item :: "ustr option"
  td_tallies :: "scan_tallies option"

definition detail_is_empty :: "task_detail \<Rightarrow> bool" where
  "detail_is_empty d \<longleftrightarrow> td_phase d = None \<and> td_current_item d = None \<and> td_tallies d = None"

record task_progress =
  tp_task_id :: nat
  tp_kind :: task_kind
  tp_state :: progress_state
  tp_resource_key :: "ustr option"
  tp_detail :: "task_detail option"
  tp_started_at_ms :: int
  tp_last_update_ms :: int

record progress_entry =
  pe_progress :: task_progress
  pe_terminal_at :: "nat option"
  pe_owner :: "int option"

type_synonym progress_map = "(nat \<times> progress_entry) list"

type_synonym timings = "task_kind \<Rightarrow> nat list"

text \<open>The two clocks a step reads.\<close>

record clock =
  instant :: nat
  wall_ms :: int

definition wall_secs :: "clock \<Rightarrow> int" where
  "wall_secs c = wall_ms c div 1000"

definition TERMINAL_RETENTION :: nat where "TERMINAL_RETENTION = 10000"

definition RECENT_COMPLETIONS_CAP :: nat where "RECENT_COMPLETIONS_CAP = 20"

definition seed_progress_entry :: "clock \<Rightarrow> nat \<Rightarrow> task \<Rightarrow> progress_map \<Rightarrow> progress_map" where
  "seed_progress_entry c i t m =
     bt_insert i
       \<lparr> pe_progress =
           \<lparr> tp_task_id = i, tp_kind = kind t, tp_state = Running 0 None,
             tp_resource_key = resource_key t, tp_detail = None,
             tp_started_at_ms = wall_ms c, tp_last_update_ms = wall_ms c \<rparr>,
         pe_terminal_at = None, pe_owner = None \<rparr> m"

text \<open>\<open>ProgressTerminalGuard::drop\<close>.\<close>

definition progress_terminal_guard :: "clock \<Rightarrow> nat \<Rightarrow> progress_map \<Rightarrow> progress_map" where
  "progress_terminal_guard c i m =
     bt_update i (\<lambda>e.
       if pe_terminal_at e = None
       then e\<lparr> pe_progress := (pe_progress e)\<lparr> tp_state := Failed (str ''task panicked''),
                                             tp_last_update_ms := wall_ms c \<rparr>,
               pe_terminal_at := Some (instant c) \<rparr>
       else e) m"

definition record_completion :: "task_kind \<Rightarrow> nat \<Rightarrow> timings \<Rightarrow> timings" where
  "record_completion k d m =
     (let window = m k @ [d] in
      m(k := (if length window > RECENT_COMPLETIONS_CAP then tl window else window)))"

definition strip_detail :: "task_detail option \<Rightarrow> task_detail option" where
  "strip_detail d =
     (case d of
        None \<Rightarrow> None
      | Some d \<Rightarrow>
          let d' = d\<lparr> td_phase := None, td_current_item := None \<rparr> in
          if detail_is_empty d' then None else Some d')"

definition write_terminal_progress ::
  "clock \<Rightarrow> nat \<Rightarrow> progress_state \<Rightarrow> progress_map \<times> timings \<Rightarrow> progress_map \<times> timings" where
  "write_terminal_progress c i s = (\<lambda>(m, w).
     (bt_update i (\<lambda>e.
        e\<lparr> pe_progress := (pe_progress e)\<lparr> tp_last_update_ms := wall_ms c, tp_state := s,
             tp_detail := strip_detail (tp_detail (pe_progress e)) \<rparr>,
           pe_terminal_at := Some (instant c) \<rparr>) m,
      case map_of m i of
        None \<Rightarrow> w
      | Some e \<Rightarrow>
          record_completion (tp_kind (pe_progress e))
            (nat (wall_ms c - tp_started_at_ms (pe_progress e))) w))"

definition report_progress_update ::
  "clock \<Rightarrow> nat \<Rightarrow> nat \<Rightarrow> nat option \<Rightarrow> task_detail \<Rightarrow> progress_map \<Rightarrow> progress_map" where
  "report_progress_update c i processed tot d m =
     bt_update i (\<lambda>e.
       if pe_terminal_at e \<noteq> None then e
       else e\<lparr> pe_progress := (pe_progress e)\<lparr> tp_state := Running processed tot,
                 tp_detail := (if detail_is_empty d then None else Some d),
                 tp_last_update_ms := wall_ms c \<rparr> \<rparr>) m"

definition report_detail :: "clock \<Rightarrow> nat \<Rightarrow> task_detail \<Rightarrow> progress_map \<Rightarrow> progress_map" where
  "report_detail c i d m =
     bt_update i (\<lambda>e.
       if pe_terminal_at e \<noteq> None then e
       else e\<lparr> pe_progress := (pe_progress e)\<lparr>
                 tp_detail := (if detail_is_empty d then None else Some d),
                 tp_last_update_ms := wall_ms c \<rparr> \<rparr>) m"

definition set_task_owner :: "nat \<Rightarrow> int \<Rightarrow> progress_map \<Rightarrow> progress_map" where
  "set_task_owner i u m = bt_update i (\<lambda>e. e\<lparr> pe_owner := Some u \<rparr>) m"

definition task_state :: "nat \<Rightarrow> progress_map \<Rightarrow> progress_state option" where
  "task_state i m = map_option (\<lambda>e. tp_state (pe_progress e)) (map_of m i)"

definition owned_task_state :: "nat \<Rightarrow> int \<Rightarrow> progress_map \<Rightarrow> progress_state option" where
  "owned_task_state i u m =
     (case map_of m i of
        None \<Rightarrow> None
      | Some e \<Rightarrow> if pe_owner e = Some u then Some (tp_state (pe_progress e)) else None)"

definition project_terminal :: "nat \<Rightarrow> task_outcome \<Rightarrow> progress_map \<Rightarrow> progress_state" where
  "project_terminal i oc m =
     (case oc of
        TaskErr msg \<Rightarrow> Failed msg
      | TaskOk d \<Rightarrow>
          Done
            (case map_of m i of
               Some e \<Rightarrow> (case tp_state (pe_progress e) of Running p _ \<Rightarrow> p | _ \<Rightarrow> 0)
             | None \<Rightarrow> 0)
            (case d of Some (GhostFiles w) \<Rightarrow> Some w | _ \<Rightarrow> None)
            (case d of Some (BakeErrors es) \<Rightarrow> Some es | _ \<Rightarrow> None))"

definition retained_outcome :: "nat \<Rightarrow> progress_map \<Rightarrow> task_outcome" where
  "retained_outcome i m =
     (case map_of m i of
        None \<Rightarrow> TaskErr (str ''unknown task id'')
      | Some e \<Rightarrow>
          if pe_terminal_at e = None then TaskErr (str ''unknown task id'')
          else (case tp_state (pe_progress e) of
                  Done _ g b \<Rightarrow>
                    TaskOk (case g of Some w \<Rightarrow> Some (GhostFiles w) | None \<Rightarrow> map_option BakeErrors b)
                | Failed msg \<Rightarrow> TaskErr msg
                | Running _ _ \<Rightarrow> TaskErr (str ''unknown task id'')))"

record worker_status =
  ws_active :: "task_progress list"
  ws_recent_complete :: "task_progress list"

text \<open>The eviction uses the saturating difference of instants.\<close>

definition evict :: "nat \<Rightarrow> nat \<Rightarrow> progress_map \<Rightarrow> progress_map" where
  "evict now_i retention m =
     bt_retain (\<lambda>e. case pe_terminal_at e of Some at \<Rightarrow> \<not> now_i - at \<ge> retention | None \<Rightarrow> True) m"

definition snapshot ::
  "nat \<Rightarrow> nat \<Rightarrow> int option \<Rightarrow> progress_map \<Rightarrow> worker_status \<times> progress_map" where
  "snapshot now_i retention viewer m =
     (let m' = evict now_i retention m;
          seen = filter (\<lambda>e. case (viewer, pe_owner e) of
                               (Some u, Some owner) \<Rightarrow> owner = u | _ \<Rightarrow> True) (map snd m')
      in (\<lparr> ws_active = map pe_progress (filter (\<lambda>e. pe_terminal_at e = None) seen),
            ws_recent_complete = map pe_progress (filter (\<lambda>e. pe_terminal_at e \<noteq> None) seen) \<rparr>, m'))"

definition progress_snapshot :: "nat \<Rightarrow> progress_map \<Rightarrow> worker_status \<times> progress_map" where
  "progress_snapshot now_i m = snapshot now_i TERMINAL_RETENTION None m"

definition owner_scoped_snapshot :: "nat \<Rightarrow> int \<Rightarrow> progress_map \<Rightarrow> worker_status \<times> progress_map" where
  "owner_scoped_snapshot now_i u m = snapshot now_i TERMINAL_RETENTION (Some u) m"

definition queue_depth :: "progress_map \<Rightarrow> task_kind \<Rightarrow> nat option" where
  "queue_depth m k =
     (let n = length (filter (\<lambda>(_, e). pe_terminal_at e = None \<and> tp_kind (pe_progress e) = k) m)
      in if n = 0 then None else Some n)"

definition recent_completions :: "timings \<Rightarrow> task_kind \<Rightarrow> nat list option" where
  "recent_completions w k = (if w k = [] then None else Some (w k))"

subsection \<open>The durable history\<close>

datatype background_task_status = BtRunning | BtSuccess | BtFailed

fun as_db_str :: "background_task_status \<Rightarrow> string" where
  "as_db_str BtRunning = ''running''"
| "as_db_str BtSuccess = ''success''"
| "as_db_str BtFailed = ''failed''"

definition parse_status :: "string \<Rightarrow> background_task_status option" where
  "parse_status s =
     (if s = ''running'' then Some BtRunning
      else if s = ''success'' then Some BtSuccess
      else if s = ''failed'' then Some BtFailed else None)"

record bt_row =
  bt_id :: int
  bt_task_kind :: string
  bt_status :: string
  bt_started_at :: int
  bt_finished_at :: "int option"
  bt_error :: "ustr option"

record bt_table =
  bt_rows :: "bt_row list"
  bt_seq :: int

record background_task_record =
  br_id :: int
  br_task_kind :: string
  br_status :: background_task_status
  br_started_at :: int
  br_finished_at :: "int option"
  br_error :: "ustr option"

definition RECENT_TASKS_LIMIT :: nat where "RECENT_TASKS_LIMIT = 100"

definition start_task :: "string \<Rightarrow> int \<Rightarrow> bt_table \<Rightarrow> int \<times> bt_table" where
  "start_task k started t =
     (let i = bt_seq t + 1 in
      (i, \<lparr> bt_rows = bt_rows t @
              [\<lparr> bt_id = i, bt_task_kind = k, bt_status = ''running'', bt_started_at = started,
                 bt_finished_at = None, bt_error = None \<rparr>],
            bt_seq = i \<rparr>))"

definition finish_task :: "int \<Rightarrow> int \<Rightarrow> ustr + unit \<Rightarrow> bt_table \<Rightarrow> bt_table" where
  "finish_task i finished outcome t =
     (let (st, err) = (case outcome of Inr _ \<Rightarrow> (BtSuccess, None) | Inl msg \<Rightarrow> (BtFailed, Some msg)) in
      t\<lparr> bt_rows := update_where (\<lambda>r. bt_id r = i)
           (\<lambda>r. r\<lparr> bt_status := as_db_str st, bt_finished_at := Some finished, bt_error := err \<rparr>)
           (bt_rows t) \<rparr>)"

definition row_to_record :: "bt_row \<Rightarrow> background_task_record" where
  "row_to_record r =
     \<lparr> br_id = bt_id r, br_task_kind = bt_task_kind r,
       br_status = (case parse_status (bt_status r) of Some s \<Rightarrow> s | None \<Rightarrow> BtRunning),
       br_started_at = bt_started_at r, br_finished_at = bt_finished_at r, br_error = bt_error r \<rparr>"

definition recent_tasks :: "nat \<Rightarrow> bt_table \<Rightarrow> background_task_record list" where
  "recent_tasks limit t = map row_to_record (take limit (sort_key (\<lambda>r. - bt_id r) (bt_rows t)))"

text \<open>The two best-effort calls around a run: a failed insert leaves no row to finish.\<close>

definition persist_task_start :: "bool \<Rightarrow> clock \<Rightarrow> string \<Rightarrow> bt_table \<Rightarrow> int option \<times> bt_table" where
  "persist_task_start db_ok c k t =
     (if db_ok then (case start_task k (wall_secs c) t of (i, t') \<Rightarrow> (Some i, t')) else (None, t))"

definition persist_task_finish :: "bool \<Rightarrow> clock \<Rightarrow> int \<Rightarrow> task_outcome \<Rightarrow> bt_table \<Rightarrow> bt_table" where
  "persist_task_finish db_ok c i oc t =
     (if db_ok
      then finish_task i (wall_secs c) (case oc of TaskOk _ \<Rightarrow> Inr () | TaskErr msg \<Rightarrow> Inl msg) t
      else t)"

subsection \<open>The error ring\<close>

record captured_error =
  ce_timestamp :: int
  ce_target :: ustr
  ce_message :: ustr
  ce_book_uuid :: "ustr option"
  ce_file :: "ustr option"

definition ERROR_RING_CAPACITY :: nat where "ERROR_RING_CAPACITY = 200"

definition ring_record :: "captured_error \<Rightarrow> captured_error list \<Rightarrow> captured_error list" where
  "ring_record e buf = (if length buf \<ge> ERROR_RING_CAPACITY then tl buf else buf) @ [e]"

definition ring_snapshot :: "captured_error list \<Rightarrow> captured_error list" where
  "ring_snapshot buf = rev buf"

interpretation error_ring: bounded_window ERROR_RING_CAPACITY ring_record "\<lambda>buf. buf"
  by unfold_locales
    (simp only: ring_record_def, rule evict_before_push, simp_all add: ERROR_RING_CAPACITY_def)

interpretation completions_of: bounded_window RECENT_COMPLETIONS_CAP "record_completion k" "\<lambda>m. m k" for k
  by unfold_locales
    (simp only: record_completion_def Let_def fun_upd_same, erule evict_after_push)

text \<open>
  however many errors and completions are recorded, the error report shows the last 200,
  newest first, and the metrics of a task kind the last twenty durations, oldest first.
\<close>

theorem windows_keep_the_newest:
  "ring_snapshot (fold ring_record es []) = rev (last_n ERROR_RING_CAPACITY es) \<and>
   fold (record_completion k) ds (\<lambda>_. []) k = last_n RECENT_COMPLETIONS_CAP ds"
  using error_ring.fold_push [of "[]" es] completions_of.fold_push [of "\<lambda>_. []" k ds]
  by (simp add: ring_snapshot_def)

subsection \<open>What a client reads back\<close>

lemma write_terminal_entry:
  "map_of m i = Some e \<Longrightarrow>
     map_of (fst (write_terminal_progress c i s (m, w))) i =
       Some (e\<lparr> pe_progress := (pe_progress e)\<lparr> tp_last_update_ms := wall_ms c, tp_state := s,
                  tp_detail := strip_detail (tp_detail (pe_progress e)) \<rparr>,
                pe_terminal_at := Some (instant c) \<rparr>)"
  by (simp add: write_terminal_progress_def map_of_bt_update)

lemma retained_project:
  assumes "map_of m i = Some e"
  shows "retained_outcome i (fst (write_terminal_progress c i (project_terminal i oc m) (m, w))) = oc"
proof (cases oc)
  case (TaskOk d)
  then show ?thesis
    using write_terminal_entry [OF assms]
    by (cases d) (auto simp: retained_outcome_def project_terminal_def split: task_success_detail.split)
next
  case (TaskErr msg)
  then show ?thesis
    using write_terminal_entry [OF assms] by (simp add: retained_outcome_def project_terminal_def)
qed

text \<open>Entries other users own.\<close>

definition visible_to :: "int \<Rightarrow> progress_entry \<Rightarrow> bool" where
  "visible_to u e \<longleftrightarrow> (case pe_owner e of Some owner \<Rightarrow> owner = u | None \<Rightarrow> True)"

definition view_of :: "int \<Rightarrow> progress_map \<Rightarrow> progress_map" where
  "view_of u m = bt_retain (visible_to u) m"

lemma snapshot_of_view:
  "fst (owner_scoped_snapshot t u m) = fst (owner_scoped_snapshot t u (view_of u m))"
proof -
  define keep where "keep e = (case pe_terminal_at e of Some at \<Rightarrow> \<not> t - at \<ge> TERMINAL_RETENTION | None \<Rightarrow> True)"
    for e :: progress_entry
  define status where "status (l :: progress_entry list) =
      \<lparr> ws_active = map pe_progress (filter (\<lambda>e. pe_terminal_at e = None) l),
        ws_recent_complete = map pe_progress (filter (\<lambda>e. pe_terminal_at e \<noteq> None) l) \<rparr>" for l
  have seen: "(case (Some u, pe_owner e) of (Some u, Some owner) \<Rightarrow> owner = u | _ \<Rightarrow> True) = visible_to u e"
    for e :: progress_entry by (simp add: visible_to_def split: option.split)
  have "fst (owner_scoped_snapshot t u m) = status (filter (visible_to u) (map snd (bt_retain keep m)))" for m
    unfolding owner_scoped_snapshot_def snapshot_def evict_def Let_def seen fst_conv status_def keep_def ..
  moreover have "filter (visible_to u) (map snd (bt_retain keep m)) =
      filter (visible_to u) (map snd (bt_retain keep (view_of u m)))"
    by (induction m) (auto simp: bt_retain_def view_of_def)
  ultimately show ?thesis by simp
qed

text \<open>
  what the polling endpoints show a user does not depend on anybody else's tasks: two
  workers that differ only in entries other users own answer alike, so no failure text, state
  or even existence of another user's job can be probed through the guessable task ids.
\<close>

theorem polling_reveals_no_foreign_task:
  assumes "view_of u m = view_of u m'" "bt_ok m" "bt_ok m'"
  shows "fst (owner_scoped_snapshot t u m) = fst (owner_scoped_snapshot t u m') \<and>
    owned_task_state i u m = owned_task_state i u m'"
proof -
  have "owned_task_state i u m = owned_task_state i u (view_of u m)" if "bt_ok m" for m
    using that by (auto simp: owned_task_state_def view_of_def map_of_bt_retain visible_to_def
        split: option.splits)
  with assms snapshot_of_view [of t u m] snapshot_of_view [of t u m'] show ?thesis by metis
qed

definition sample_entry :: "int \<Rightarrow> progress_state \<Rightarrow> progress_entry" where
  "sample_entry u s =
     \<lparr> pe_progress =
         \<lparr> tp_task_id = 7, tp_kind = KScan, tp_state = s, tp_resource_key = None, tp_detail = None,
           tp_started_at_ms = 0, tp_last_update_ms = 0 \<rparr>,
       pe_terminal_at = None, pe_owner = Some u \<rparr>"

theorem polling_reveals_no_foreign_task_witness:
  "owned_task_state 7 1 [(7, sample_entry 2 (Failed (str ''smtp'')))] = owned_task_state 7 1 []"
  using polling_reveals_no_foreign_task
    [of 1 "[(7, sample_entry 2 (Failed (str ''smtp'')))]" "[]" 0 7]
  by (simp add: view_of_def bt_retain_def visible_to_def sample_entry_def bt_ok_def)

end
