(* ===== verification/Worker.thy ===== *)
theory Worker
  imports Worker_Tasks
begin

text \<open>
  The scheduler of the background worker (\<open>Worker::post\<close> and \<open>await_completion\<close> in
  \<open>queue.rs\<close>, \<open>Worker::run\<close> in \<open>exec.rs\<close>, \<open>Worker::new\<close> in \<open>types.rs\<close>). Every posted task
  is a runner whose phase is its place in the spawned future; an event is the next atomic
  stretch of one runner between two points at which others may interleave, or a call from
  outside. The handlers (\<open>execute\<close>) return any outcome or panic. Tokio's locks are fair;
  here any waiter may be next, so what is proved holds for every order.
\<close>

subsection \<open>State\<close>

datatype sem = ScanSem | HlsSem | ConvertSem

record semaphore =
  sm_permits :: nat
  sm_closed :: bool

text \<open>
  The permits \<open>run\<close> acquires, in its order, and the message of a closed semaphore.
\<close>

definition sems_of :: "task \<Rightarrow> sem list" where
  "sems_of t =
     (if uses_scan_sem t then [ScanSem] else []) @
     (if uses_hls_sem t then [HlsSem] else []) @
     (if uses_convert_sem t then [ConvertSem] else [])"

fun closed_msg :: "sem \<Rightarrow> ustr" where
  "closed_msg ScanSem = str ''scan semaphore closed''"
| "closed_msg HlsSem = str ''hls semaphore closed''"
| "closed_msg ConvertSem = str ''convert semaphore closed''"

text \<open>
  The place of a spawned future, with the locals it still needs: the history row, the clone
  of the resource mutex (an allocation number), the permits still to acquire, the outcome. A
  future that leaves without an outcome is unwinding from a panic.
\<close>

datatype phase =
    Spawned
  | Started "int option"
  | Waiting "int option" nat
  | Acquiring "int option" "nat option" "sem list"
  | Executed "int option" "nat option" task_outcome
  | Recorded "int option" "nat option" task_outcome
  | Released "int option" task_outcome
  | Pruned "int option" task_outcome
  | Returned "int option" task_outcome
  | Persisted task_outcome
  | Leaving "task_outcome option"
  | GuardDropped "task_outcome option"
  | SlotPruned "task_outcome option"
  | Finished "task_outcome option"

text \<open>A runner with its watch channel: the value last sent and whether the sender lives.\<close>

record runner =
  r_task :: task
  r_phase :: phase
  r_value :: "task_outcome option"
  r_tx :: bool

record worker_config =
  scan_concurrency :: nat
  hls_concurrency :: nat
  convert_concurrency :: nat

record worker =
  w_sems :: "sem \<Rightarrow> semaphore"
  w_locks :: "ustr \<Rightarrow> nat option"
  w_held :: "nat \<Rightarrow> nat option"
  w_next_mutex :: nat
  w_completions :: "nat list"
  w_progress :: progress_map
  w_timings :: timings
  w_next_id :: nat
  w_tasks :: bt_table
  w_runners :: "(nat \<times> runner) list"

definition default_config :: "nat \<Rightarrow> worker_config" where
  "default_config cpus =
     \<lparr> scan_concurrency = 1, hls_concurrency = max (cpus div 2) 1,
       convert_concurrency = max (cpus div 2) 1 \<rparr>"

definition permits_of :: "worker_config \<Rightarrow> sem \<Rightarrow> nat" where
  "permits_of cfg s =
     (case s of ScanSem \<Rightarrow> max (scan_concurrency cfg) 1
      | HlsSem \<Rightarrow> max (hls_concurrency cfg) 1
      | ConvertSem \<Rightarrow> max (convert_concurrency cfg) 1)"

definition new_worker :: "bt_table \<Rightarrow> worker_config \<Rightarrow> worker" where
  "new_worker pool cfg =
     \<lparr> w_sems = (\<lambda>s. \<lparr> sm_permits = permits_of cfg s, sm_closed = False \<rparr>),
       w_locks = (\<lambda>_. None), w_held = (\<lambda>_. None), w_next_mutex = 0, w_completions = [],
       w_progress = [], w_timings = (\<lambda>_. []), w_next_id = 1, w_tasks = pool, w_runners = [] \<rparr>"

subsection \<open>The operations of a runner\<close>

definition get_runner :: "nat \<Rightarrow> worker \<Rightarrow> runner option" where
  "get_runner i w = map_of (w_runners w) i"

definition set_phase :: "nat \<Rightarrow> phase \<Rightarrow> worker \<Rightarrow> worker" where
  "set_phase i ph w = w\<lparr> w_runners := bt_update i (\<lambda>r. r\<lparr> r_phase := ph \<rparr>) (w_runners w) \<rparr>"

text \<open>The mutex a phase holds a clone of; the permits a runner holds.\<close>

fun mutex_ref :: "phase \<Rightarrow> nat option" where
  "mutex_ref (Waiting _ g) = Some g"
| "mutex_ref (Acquiring _ g _) = g"
| "mutex_ref (Executed _ g _) = g"
| "mutex_ref (Recorded _ g _) = g"
| "mutex_ref _ = None"

fun permits_held :: "task \<Rightarrow> phase \<Rightarrow> sem list" where
  "permits_held t (Acquiring _ _ pending) = take (length (sems_of t) - length pending) (sems_of t)"
| "permits_held t (Executed _ _ _) = sems_of t"
| "permits_held t (Recorded _ _ _) = sems_of t"
| "permits_held t (Released _ _) = sems_of t"
| "permits_held t (Pruned _ _) = sems_of t"
| "permits_held t _ = []"

definition strong_count :: "nat \<Rightarrow> worker \<Rightarrow> nat" where
  "strong_count g w = 1 + length (filter (\<lambda>(_, r). mutex_ref (r_phase r) = Some g) (w_runners w))"

text \<open>\<open>map.entry(key).or_insert_with(..).clone()\<close>.\<close>

definition lock_entry :: "ustr \<Rightarrow> worker \<Rightarrow> nat \<times> worker" where
  "lock_entry key w =
     (case w_locks w key of
        Some g \<Rightarrow> (g, w)
      | None \<Rightarrow>
          (w_next_mutex w,
           w\<lparr> w_locks := (w_locks w)(key \<mapsto> w_next_mutex w),
              w_next_mutex := Suc (w_next_mutex w) \<rparr>))"

definition prune_resource_lock :: "ustr \<Rightarrow> worker \<Rightarrow> worker" where
  "prune_resource_lock key w =
     (case w_locks w key of
        Some g \<Rightarrow>
          if strong_count g w = 1 then w\<lparr> w_locks := (w_locks w)(key := None) \<rparr> else w
      | None \<Rightarrow> w)"

definition unlock :: "nat option \<Rightarrow> worker \<Rightarrow> worker" where
  "unlock g w = (case g of Some g \<Rightarrow> w\<lparr> w_held := (w_held w)(g := None) \<rparr> | None \<Rightarrow> w)"

definition release_permits :: "sem list \<Rightarrow> worker \<Rightarrow> worker" where
  "release_permits ss w =
     w\<lparr> w_sems := (\<lambda>s. (w_sems w s)\<lparr> sm_permits := sm_permits (w_sems w s) + count_list ss s \<rparr>) \<rparr>"

definition write_terminal :: "clock \<Rightarrow> nat \<Rightarrow> progress_state \<Rightarrow> worker \<Rightarrow> worker" where
  "write_terminal c i s w =
     (case write_terminal_progress c i s (w_progress w, w_timings w) of
        (m, t) \<Rightarrow> w\<lparr> w_progress := m, w_timings := t \<rparr>)"

text \<open>\<open>acquire_permit\<close>: a permit, the outcome of a closed semaphore, or nothing yet.\<close>

definition acquire_permit ::
  "clock \<Rightarrow> sem \<Rightarrow> nat \<Rightarrow> worker \<Rightarrow> ((task_outcome + unit) \<times> worker) option" where
  "acquire_permit c s i w =
     (let sm = w_sems w s in
      if sm_closed sm
      then Some (Inl (TaskErr (closed_msg s)), write_terminal c i (Failed (closed_msg s)) w)
      else if sm_permits sm = 0 then None
      else Some (Inr (), w\<lparr> w_sems := (w_sems w)(s := sm\<lparr> sm_permits := sm_permits sm - 1 \<rparr>) \<rparr>))"

text \<open>\<open>Worker::post\<close>.\<close>

definition post :: "clock \<Rightarrow> task \<Rightarrow> worker \<Rightarrow> nat \<times> worker" where
  "post c t w =
     (let i = w_next_id w in
      (i, w\<lparr> w_next_id := i + 1,
             w_completions := i # w_completions w,
             w_progress := seed_progress_entry c i t (w_progress w),
             w_runners := bt_insert i
               \<lparr> r_task = t, r_phase = Spawned, r_value = None, r_tx = True \<rparr> (w_runners w) \<rparr>))"

text \<open>
  The spawned future with \<open>Worker::run\<close> inlined, stretch by stretch; \<open>None\<close> when the runner
  has to wait. \<open>db_ok\<close> says whether the best-effort history write succeeds.
\<close>

definition advance :: "clock \<Rightarrow> bool \<Rightarrow> nat \<Rightarrow> worker \<Rightarrow> worker option" where
  "advance c db_ok i w =
     (case get_runner i w of
        None \<Rightarrow> None
      | Some r \<Rightarrow>
          (case r_phase r of
             Spawned \<Rightarrow>
               (case persist_task_start db_ok c (persistence_kind (r_task r)) (w_tasks w) of
                  (row, t) \<Rightarrow> Some (set_phase i (Started row) (w\<lparr> w_tasks := t \<rparr>)))
           | Started row \<Rightarrow>
               (case resource_key (r_task r) of
                  None \<Rightarrow> Some (set_phase i (Acquiring row None (sems_of (r_task r))) w)
                | Some key \<Rightarrow> (case lock_entry key w of (g, w) \<Rightarrow> Some (set_phase i (Waiting row g) w)))
           | Waiting row g \<Rightarrow>
               if w_held w g = None
               then Some (set_phase i (Acquiring row (Some g) (sems_of (r_task r)))
                            (w\<lparr> w_held := (w_held w)(g \<mapsto> i) \<rparr>))
               else None
           | Acquiring row g [] \<Rightarrow> None
           | Acquiring row g (s # pending) \<Rightarrow>
               (case acquire_permit c s i w of
                  None \<Rightarrow> None
                | Some (Inr _, w) \<Rightarrow> Some (set_phase i (Acquiring row g pending) w)
                | Some (Inl oc, w) \<Rightarrow>
                    Some (set_phase i (Returned row oc)
                            (unlock g (release_permits (permits_held (r_task r) (r_phase r)) w))))
           | Executed row g oc \<Rightarrow>
               Some (set_phase i (Recorded row g oc)
                       (write_terminal c i (project_terminal i oc (w_progress w)) w))
           | Recorded row g oc \<Rightarrow> Some (set_phase i (Released row oc) (unlock g w))
           | Released row oc \<Rightarrow>
               Some (set_phase i (Pruned row oc)
                       (case resource_key (r_task r) of
                          Some key \<Rightarrow> prune_resource_lock key w | None \<Rightarrow> w))
           | Pruned row oc \<Rightarrow>
               Some (set_phase i (Returned row oc)
                       (release_permits (permits_held (r_task r) (r_phase r)) w))
           | Returned row oc \<Rightarrow>
               Some (set_phase i (Persisted oc)
                       (case row of
                          Some row \<Rightarrow> w\<lparr> w_tasks := persist_task_finish db_ok c row oc (w_tasks w) \<rparr>
                        | None \<Rightarrow> w))
           | Persisted oc \<Rightarrow>
               Some (w\<lparr> w_runners := bt_update i
                          (\<lambda>r. r\<lparr> r_phase := Leaving (Some oc), r_value := Some oc \<rparr>) (w_runners w) \<rparr>)
           | Leaving oc \<Rightarrow>
               Some (set_phase i (GuardDropped oc)
                       (w\<lparr> w_progress := progress_terminal_guard c i (w_progress w) \<rparr>))
           | GuardDropped oc \<Rightarrow>
               Some (set_phase i (SlotPruned oc)
                       (w\<lparr> w_completions := filter (\<lambda>j. j \<noteq> i) (w_completions w) \<rparr>))
           | SlotPruned oc \<Rightarrow>
               Some (w\<lparr> w_runners := bt_update i
                          (\<lambda>r. r\<lparr> r_phase := Finished oc, r_tx := False \<rparr>) (w_runners w) \<rparr>)
           | Finished oc \<Rightarrow> None))"

text \<open>
  The handler of a running task returns, or panics: the permits and the resource guard are
  dropped while \<open>run\<close> unwinds, and nothing is pruned.
\<close>

definition executing :: "nat \<Rightarrow> worker \<Rightarrow> (int option \<times> nat option \<times> task) option" where
  "executing i w =
     (case get_runner i w of
        Some r \<Rightarrow> (case r_phase r of Acquiring row g [] \<Rightarrow> Some (row, g, r_task r) | _ \<Rightarrow> None)
      | None \<Rightarrow> None)"

definition handler_returns :: "nat \<Rightarrow> task_outcome \<Rightarrow> worker \<Rightarrow> worker option" where
  "handler_returns i oc w =
     map_option (\<lambda>(row, g, t). set_phase i (Executed row g oc) w) (executing i w)"

definition handler_panics :: "nat \<Rightarrow> worker \<Rightarrow> worker option" where
  "handler_panics i w =
     map_option (\<lambda>(row, g, t). set_phase i (Leaving None) (unlock g (release_permits (sems_of t) w)))
       (executing i w)"

text \<open>
  \<open>await_completion\<close>: the slot is taken at once (or its absence answered), and the receiver
  polled until the channel has a value or lost its sender.
\<close>

definition await_begin :: "nat \<Rightarrow> worker \<Rightarrow> (task_outcome + unit) \<times> worker" where
  "await_begin i w =
     (if i \<in> set (w_completions w)
      then (Inr (), w\<lparr> w_completions := filter (\<lambda>j. j \<noteq> i) (w_completions w) \<rparr>)
      else (Inl (retained_outcome i (w_progress w)), w))"

definition await_poll :: "nat \<Rightarrow> worker \<Rightarrow> task_outcome option" where
  "await_poll i w =
     (case get_runner i w of
        None \<Rightarrow> None
      | Some r \<Rightarrow>
          (case r_value r of
             Some oc \<Rightarrow> Some oc
           | None \<Rightarrow>
               if r_tx r then None
               else Some (TaskErr (str ''worker dropped task before completion''))))"

subsection \<open>Steps\<close>

datatype event =
    Post clock task
  | Advance clock bool nat
  | Return nat task_outcome
  | Panic nat
  | Await nat
  | Report clock nat nat "nat option" task_detail
  | Detail clock nat task_detail
  | Own nat int
  | Poll nat "int option"

definition on_progress :: "(progress_map \<Rightarrow> progress_map) \<Rightarrow> worker \<Rightarrow> worker" where
  "on_progress f w = w\<lparr> w_progress := f (w_progress w) \<rparr>"

fun worker_event :: "event \<Rightarrow> worker \<Rightarrow> worker option" where
  "worker_event (Post c t) w = Some (snd (post c t w))"
| "worker_event (Advance c db_ok i) w = advance c db_ok i w"
| "worker_event (Return i oc) w = handler_returns i oc w"
| "worker_event (Panic i) w = handler_panics i w"
| "worker_event (Await i) w = Some (snd (await_begin i w))"
| "worker_event (Report c i p n d) w = Some (on_progress (report_progress_update c i p n d) w)"
| "worker_event (Detail c i d) w = Some (on_progress (report_detail c i d) w)"
| "worker_event (Own i u) w = Some (on_progress (set_task_owner i u) w)"
| "worker_event (Poll t viewer) w =
     Some (on_progress (\<lambda>m. snd (snapshot t TERMINAL_RETENTION viewer m)) w)"

inductive worker_step :: "worker \<Rightarrow> worker \<Rightarrow> bool" where
  event: "worker_event ev w = Some w' \<Longrightarrow> worker_step w w'"

inductive worker_init :: "worker_config \<Rightarrow> worker \<Rightarrow> bool" for cfg where
  new: "worker_init cfg (new_worker pool cfg)"

fun run_events :: "event list \<Rightarrow> worker \<Rightarrow> worker option" where
  "run_events [] w = Some w"
| "run_events (ev # evs) w = (case worker_event ev w of Some w' \<Rightarrow> run_events evs w' | None \<Rightarrow> None)"

abbreviation worker_reachable :: "worker_config \<Rightarrow> worker \<Rightarrow> bool" where
  "worker_reachable cfg \<equiv> reachable (worker_init cfg) worker_step"

lemma run_events_reachable:
  "worker_reachable cfg w \<Longrightarrow> run_events evs w = Some w' \<Longrightarrow> worker_reachable cfg w'"
  by (induction evs w rule: run_events.induct)
    (auto split: option.splits intro: reach_step worker_step.event)


subsection \<open>The cases of a step\<close>

lemma worker_fields [simp]:
  "w_runners (release_permits ss w) = w_runners w" "w_locks (release_permits ss w) = w_locks w"
  "w_held (release_permits ss w) = w_held w" "w_next_mutex (release_permits ss w) = w_next_mutex w"
  "w_progress (release_permits ss w) = w_progress w"
  "w_completions (release_permits ss w) = w_completions w"
  "w_next_id (release_permits ss w) = w_next_id w"
  "w_runners (unlock g w) = w_runners w" "w_locks (unlock g w) = w_locks w"
  "w_sems (unlock g w) = w_sems w" "w_next_mutex (unlock g w) = w_next_mutex w"
  "w_progress (unlock g w) = w_progress w" "w_completions (unlock g w) = w_completions w"
  "w_next_id (unlock g w) = w_next_id w"
  "w_runners (write_terminal c i st w) = w_runners w" "w_locks (write_terminal c i st w) = w_locks w"
  "w_sems (write_terminal c i st w) = w_sems w" "w_held (write_terminal c i st w) = w_held w"
  "w_next_mutex (write_terminal c i st w) = w_next_mutex w"
  "w_completions (write_terminal c i st w) = w_completions w"
  "w_next_id (write_terminal c i st w) = w_next_id w"
  "w_progress (write_terminal c i st w) = fst (write_terminal_progress c i st (w_progress w, w_timings w))"
  by (auto simp: release_permits_def unlock_def write_terminal_def write_terminal_progress_def
      split: option.split)

lemma set_phase_fields [simp]:
  "w_locks (set_phase i ph w) = w_locks w" "w_held (set_phase i ph w) = w_held w"
  "w_sems (set_phase i ph w) = w_sems w" "w_next_mutex (set_phase i ph w) = w_next_mutex w"
  "w_progress (set_phase i ph w) = w_progress w"
  "w_completions (set_phase i ph w) = w_completions w" "w_next_id (set_phase i ph w) = w_next_id w"
  "w_runners (set_phase i ph w) = bt_update i (\<lambda>r. r\<lparr> r_phase := ph \<rparr>) (w_runners w)"
  by (simp_all add: set_phase_def)

text \<open>The worker after a runner cloned, or pruned, the mutex of its key.\<close>

definition with_locks :: "(ustr \<Rightarrow> nat option) \<Rightarrow> nat \<Rightarrow> worker \<Rightarrow> worker" where
  "with_locks ls n w = w\<lparr> w_locks := ls, w_next_mutex := n \<rparr>"

lemma with_locks_fields [simp]:
  "w_runners (with_locks ls n w) = w_runners w" "w_held (with_locks ls n w) = w_held w"
  "w_sems (with_locks ls n w) = w_sems w" "w_progress (with_locks ls n w) = w_progress w"
  "w_completions (with_locks ls n w) = w_completions w" "w_next_id (with_locks ls n w) = w_next_id w"
  "w_locks (with_locks ls n w) = ls" "w_next_mutex (with_locks ls n w) = n"
  by (simp_all add: with_locks_def)

lemma executing_Some:
  "executing i w = Some (row, g, t) \<longleftrightarrow>
     (\<exists>r. get_runner i w = Some r \<and> r_phase r = Acquiring row g [] \<and> r_task r = t)"
  by (auto simp: executing_def split: option.splits phase.splits list.splits)

text \<open>
  Every step as one of eighteen changes of the state; the invariants are proved case by case.
\<close>

lemma advance_cases [consumes 1]:
  assumes "advance c db_ok i w = Some w'"
  obtains
    (start) r row t where "get_runner i w = Some r" "r_phase r = Spawned"
      "w' = set_phase i (Started row) (w\<lparr> w_tasks := t \<rparr>)"
  | (keyless) r row where "get_runner i w = Some r" "r_phase r = Started row"
      "resource_key (r_task r) = None" "w' = set_phase i (Acquiring row None (sems_of (r_task r))) w"
  | (clone) r row key where "get_runner i w = Some r" "r_phase r = Started row"
      "resource_key (r_task r) = Some key" "w_locks w key = None"
      "w' = set_phase i (Waiting row (w_next_mutex w))
         (with_locks ((w_locks w)(key \<mapsto> w_next_mutex w)) (Suc (w_next_mutex w)) w)"
  | (share) r row key g where "get_runner i w = Some r" "r_phase r = Started row"
      "resource_key (r_task r) = Some key" "w_locks w key = Some g" "w' = set_phase i (Waiting row g) w"
  | (lock) r row g where "get_runner i w = Some r" "r_phase r = Waiting row g" "w_held w g = None"
      "w' = set_phase i (Acquiring row (Some g) (sems_of (r_task r)))
         (w\<lparr> w_held := (w_held w)(g \<mapsto> i) \<rparr>)"
  | (acquire) r row g s pending where "get_runner i w = Some r"
      "r_phase r = Acquiring row g (s # pending)" "0 < sm_permits (w_sems w s)"
      "w' = set_phase i (Acquiring row g pending) (w\<lparr> w_sems := (w_sems w)
         (s := (w_sems w s)\<lparr> sm_permits := sm_permits (w_sems w s) - 1 \<rparr>) \<rparr>)"
  | (closed) r row g s pending where "get_runner i w = Some r"
      "r_phase r = Acquiring row g (s # pending)" "sm_closed (w_sems w s)"
  | (recorded) r row g oc where "get_runner i w = Some r" "r_phase r = Executed row g oc"
      "w' = set_phase i (Recorded row g oc)
         (write_terminal c i (project_terminal i oc (w_progress w)) w)"
  | (release) r row g oc where "get_runner i w = Some r" "r_phase r = Recorded row g oc"
      "w' = set_phase i (Released row oc) (unlock g w)"
  | (keep) r row oc where "get_runner i w = Some r" "r_phase r = Released row oc"
      "\<And>key g. resource_key (r_task r) = Some key \<Longrightarrow> w_locks w key = Some g \<Longrightarrow> strong_count g w \<noteq> 1"
      "w' = set_phase i (Pruned row oc) w"
  | (prune) r row oc key g where "get_runner i w = Some r" "r_phase r = Released row oc"
      "resource_key (r_task r) = Some key" "w_locks w key = Some g" "strong_count g w = 1"
      "w' = set_phase i (Pruned row oc) (with_locks ((w_locks w)(key := None)) (w_next_mutex w) w)"
  | (leave) r row oc where "get_runner i w = Some r" "r_phase r = Pruned row oc"
      "w' = set_phase i (Returned row oc) (release_permits (permits_held (r_task r) (r_phase r)) w)"
  | (finish) r row oc t where "get_runner i w = Some r" "r_phase r = Returned row oc"
      "w' = set_phase i (Persisted oc) (w\<lparr> w_tasks := t \<rparr>)"
  | (send) r oc where "get_runner i w = Some r" "r_phase r = Persisted oc"
      "w' = w\<lparr> w_runners := bt_update i
         (\<lambda>r. r\<lparr> r_phase := Leaving (Some oc), r_value := Some oc \<rparr>) (w_runners w) \<rparr>"
  | (guard) r oc where "get_runner i w = Some r" "r_phase r = Leaving oc"
      "w' = set_phase i (GuardDropped oc)
         (w\<lparr> w_progress := progress_terminal_guard c i (w_progress w) \<rparr>)"
  | (slot) r oc where "get_runner i w = Some r" "r_phase r = GuardDropped oc"
      "w' = set_phase i (SlotPruned oc)
         (w\<lparr> w_completions := filter (\<lambda>j. j \<noteq> i) (w_completions w) \<rparr>)"
  | (drop) r oc where "get_runner i w = Some r" "r_phase r = SlotPruned oc"
      "w' = w\<lparr> w_runners := bt_update i
         (\<lambda>r. r\<lparr> r_phase := Finished oc, r_tx := False \<rparr>) (w_runners w) \<rparr>"
proof -
  from assms obtain r where r: "get_runner i w = Some r"
    by (auto simp: advance_def split: option.splits)
  note adv = assms [unfolded advance_def r option.case]
  have id_tasks: "w = w\<lparr> w_tasks := w_tasks w \<rparr>" by simp
  show ?thesis
  proof (cases "r_phase r")
    case Spawned
    with adv r show ?thesis by (auto split: prod.splits intro: start)
  next
    case (Started row)
    show ?thesis
    proof (cases "resource_key (r_task r)")
      case None
      with adv r Started show ?thesis by (auto intro: keyless)
    next
      case (Some key)
      then show ?thesis
        using adv r Started
        by (cases "w_locks w key") (auto simp: lock_entry_def with_locks_def intro: clone share)
    qed
  next
    case (Waiting row g)
    with adv r show ?thesis by (auto split: if_splits intro: lock)
  next
    case (Acquiring row g ss)
    with adv r show ?thesis
      by (cases ss) (auto simp: acquire_permit_def Let_def split: if_splits intro: acquire closed)
  next
    case (Released row oc)
    show ?thesis
    proof (cases "resource_key (r_task r)")
      case None
      with adv r Released show ?thesis by (auto intro: keep)
    next
      case (Some key)
      show ?thesis
      proof (cases "\<exists>g. w_locks w key = Some g \<and> strong_count g w = 1")
        case True
        with adv r Released Some show ?thesis
          by (auto simp: prune_resource_lock_def with_locks_def intro: prune)
      next
        case False
        then have "prune_resource_lock key w = w"
          by (auto simp: prune_resource_lock_def split: option.split)
        with adv r Released Some False show ?thesis by (auto intro: keep)
      qed
    qed
  next
    case (Returned row oc)
    with adv r show ?thesis
      by (cases row) (auto intro: finish [where t = "w_tasks w"] finish)
  qed (use adv r in \<open>auto intro: recorded release leave send guard slot drop\<close>)
qed

text \<open>The calls that only touch the progress map: the reports, the owner, a poll.\<close>

inductive progress_call :: "(progress_map \<Rightarrow> progress_map) \<Rightarrow> bool" where
  "progress_call (report_progress_update c i p n d)"
| "progress_call (report_detail c i d)"
| "progress_call (set_task_owner i u)"
| "progress_call (\<lambda>m. snd (snapshot t TERMINAL_RETENTION viewer m))"

lemma worker_step_cases [consumes 1]:
  assumes "worker_step w w'"
  obtains
    (posted) c t where "w' = snd (post c t w)"
  | (advanced) c db_ok i where "advance c db_ok i w = Some w'"
  | (returned) i r row g oc where "get_runner i w = Some r" "r_phase r = Acquiring row g []"
      "w' = set_phase i (Executed row g oc) w"
  | (panicked) i r row g where "get_runner i w = Some r" "r_phase r = Acquiring row g []"
      "w' = set_phase i (Leaving None) (unlock g (release_permits (sems_of (r_task r)) w))"
  | (awaited) i where
      "w' = w\<lparr> w_completions := filter (\<lambda>j. j \<noteq> i) (w_completions w) \<rparr>"
  | (progress) f where "progress_call f" "w' = on_progress f w"
proof -
  from assms obtain ev where ev: "worker_event ev w = Some w'" by (auto elim: worker_step.cases)
  have id: "w = w\<lparr> w_completions := filter (\<lambda>j. j \<noteq> i) (w_completions w) \<rparr>"
    if "i \<notin> set (w_completions w)" for i
  proof -
    from that have "filter (\<lambda>j. j \<noteq> i) (w_completions w) = w_completions w"
      by (auto simp: filter_id_conv)
    then show ?thesis by simp
  qed
  show ?thesis
  proof (cases ev)
    case (Await i)
    show ?thesis
      by (rule awaited [of i])
        (use Await ev id [of i] in \<open>auto simp: await_begin_def split: if_splits\<close>)
  qed (use ev in \<open>auto simp: handler_returns_def handler_panics_def executing_Some
      intro: posted advanced returned panicked progress progress_call.intros\<close>)
qed

subsection \<open>Runners and identifiers\<close>

definition ids_inv :: "worker \<Rightarrow> bool" where
  "ids_inv w \<longleftrightarrow> bt_ok (w_runners w) \<and> bt_ok (w_progress w) \<and>
     (\<forall>i. map_of (w_runners w) i \<noteq> None \<longrightarrow> i < w_next_id w)"

lemma bt_ok_terminal [simp]: "bt_ok m \<Longrightarrow> bt_ok (fst (write_terminal_progress c i st (m, t)))"
  by (simp add: write_terminal_progress_def bt_ok_update)

lemma bt_ok_progress_call: "progress_call f \<Longrightarrow> bt_ok m \<Longrightarrow> bt_ok (f m)"
  by (erule progress_call.cases)
    (auto simp: report_progress_update_def report_detail_def set_task_owner_def snapshot_def
      evict_def Let_def bt_ok_update bt_ok_retain)

lemma ids_inv_advance: "advance c db_ok i w = Some w' \<Longrightarrow> ids_inv w \<Longrightarrow> \<forall>s. \<not> sm_closed (w_sems w s) \<Longrightarrow> ids_inv w'"
  by (erule advance_cases)
    (auto simp: ids_inv_def bt_ok_update map_of_bt_update progress_terminal_guard_def)

lemma ids_inv_step:
  assumes "ids_inv w" "\<forall>s. \<not> sm_closed (w_sems w s)" "worker_step w w'"
  shows "ids_inv w'"
  using assms(3)
proof (cases rule: worker_step_cases)
  case (posted c t)
  with assms(1) show ?thesis
    by (auto simp: ids_inv_def post_def Let_def bt_ok_insert seed_progress_entry_def map_of_bt_insert
        intro: less_SucI)
next
  case (advanced c db_ok i)
  with assms show ?thesis by (blast intro: ids_inv_advance)
next
  case (progress f)
  with assms(1) show ?thesis by (simp add: ids_inv_def on_progress_def bt_ok_progress_call)
qed (use assms(1) in \<open>auto simp: ids_inv_def bt_ok_update map_of_bt_update\<close>)

lemmas runner_simps = get_runner_def map_of_bt_update

subsection \<open>Resource locks\<close>

text \<open>From the lock to the drop of its guard.\<close>

fun in_critical :: "phase \<Rightarrow> bool" where
  "in_critical (Acquiring _ _ _) \<longleftrightarrow> True"
| "in_critical (Executed _ _ _) \<longleftrightarrow> True"
| "in_critical (Recorded _ _ _) \<longleftrightarrow> True"
| "in_critical _ \<longleftrightarrow> False"

text \<open>
  Every clone is of the mutex the map still holds for the runner's key; a runner past the lock
  owns it, and only such a runner does.
\<close>

definition ref_ok :: "(ustr \<Rightarrow> nat option) \<Rightarrow> runner \<Rightarrow> bool" where
  "ref_ok ls r \<longleftrightarrow>
     (case mutex_ref (r_phase r) of
        Some g \<Rightarrow> (\<exists>k. resource_key (r_task r) = Some k \<and> ls k = Some g)
      | None \<Rightarrow> in_critical (r_phase r) \<longrightarrow> resource_key (r_task r) = None)"

definition refs_inv :: "worker \<Rightarrow> bool" where
  "refs_inv w \<longleftrightarrow> (\<forall>i r. get_runner i w = Some r \<longrightarrow> ref_ok (w_locks w) r)"

definition owned :: "runner \<Rightarrow> nat option" where
  "owned r = (if in_critical (r_phase r) then mutex_ref (r_phase r) else None)"

definition owned_by :: "worker \<Rightarrow> nat \<Rightarrow> nat option" where
  "owned_by w i = Option.bind (get_runner i w) owned"

definition held_inv :: "worker \<Rightarrow> bool" where
  "held_inv w \<longleftrightarrow> (\<forall>i g. w_held w g = Some i \<longleftrightarrow> owned_by w i = Some g)"

definition no_closed :: "worker \<Rightarrow> bool" where
  "no_closed w \<longleftrightarrow> (\<forall>s. \<not> sm_closed (w_sems w s))"

lemma strong_count_1:
  assumes "strong_count g w = 1" "get_runner i w = Some r"
  shows "mutex_ref (r_phase r) \<noteq> Some g"
  using assms by (force simp: strong_count_def get_runner_def filter_empty_conv dest: map_of_SomeD)

lemma refs_invD: "refs_inv w \<Longrightarrow> get_runner i w = Some r \<Longrightarrow> ref_ok (w_locks w) r"
  by (simp add: refs_inv_def)

lemma refs_update:
  assumes "refs_inv w" "w_runners w' = bt_update i f (w_runners w)" "get_runner i w = Some r"
    and "ref_ok (w_locks w') (f r)"
    and "\<And>j r. get_runner j w = Some r \<Longrightarrow> ref_ok (w_locks w) r \<Longrightarrow> ref_ok (w_locks w') r"
  shows "refs_inv w'"
  using assms by (auto simp: refs_inv_def runner_simps)

lemma refs_frame:
  assumes "refs_inv w" "w_runners w' = bt_update i f (w_runners w)" "get_runner i w = Some r"
    and "w_locks w' = w_locks w" "ref_ok (w_locks w) r \<Longrightarrow> ref_ok (w_locks w) (f r)"
  shows "refs_inv w'"
  using assms by (auto simp: refs_inv_def runner_simps)

text \<open>Only an unreferenced mutex is pruned, and only a missing one is created.\<close>

lemma ref_ok_prune:
  assumes "strong_count g w = 1" "w_locks w key = Some g" "get_runner j w = Some r" "ref_ok (w_locks w) r"
  shows "ref_ok ((w_locks w)(key := None)) r"
proof (cases "mutex_ref (r_phase r)")
  case (Some g')
  with assms(4) obtain k where k: "resource_key (r_task r) = Some k" "w_locks w k = Some g'"
    by (auto simp: ref_ok_def)
  have "g' \<noteq> g" using strong_count_1 [OF assms(1,3)] Some by simp
  then have "k \<noteq> key" using k(2) assms(2) by auto
  with Some k show ?thesis by (simp add: ref_ok_def)
qed (use assms(4) in \<open>simp add: ref_ok_def\<close>)

lemma ref_ok_clone:
  assumes "ref_ok ls r" "ls key = None"
  shows "ref_ok (ls(key \<mapsto> g)) r"
proof (cases "mutex_ref (r_phase r)")
  case (Some g')
  with assms obtain k where k: "resource_key (r_task r) = Some k" "ls k = Some g'"
    by (auto simp: ref_ok_def)
  then have "k \<noteq> key" using assms(2) by auto
  with k Some show ?thesis by (simp add: ref_ok_def)
qed (use assms in \<open>simp add: ref_ok_def\<close>)

lemma refs_inv_advance:
  assumes "advance c db_ok i w = Some w'" "refs_inv w" "no_closed w"
  shows "refs_inv w'"
  using assms(1)
proof (cases rule: advance_cases)
  case (prune r row oc key g)
  have "ref_ok (w_locks w') r'" if "get_runner j w = Some r'" "ref_ok (w_locks w) r'" for j r'
    using ref_ok_prune [OF prune(5,4) that] by (simp add: prune(6))
  then show ?thesis
    by (intro refs_update [where f = "\<lambda>r. r\<lparr> r_phase := Pruned row oc \<rparr>", OF assms(2) _ prune(1)])
      (simp_all add: prune(6) ref_ok_def)
next
  case (clone r row key)
  have keep: "ref_ok (w_locks w') r'" if "ref_ok (w_locks w) r'" for r'
    using ref_ok_clone [OF that clone(4)] by (simp add: clone(5))
  show ?thesis
    by (rule refs_update [where f = "\<lambda>r. r\<lparr> r_phase := Waiting row (w_next_mutex w) \<rparr>",
          OF assms(2) _ clone(1) _ keep])
      (simp_all add: clone(3,5) ref_ok_def)
next
  case (closed r row g s pending)
  with assms(3) show ?thesis by (simp add: no_closed_def)
qed (rule refs_frame [OF assms(2)], simp, assumption, simp, simp add: ref_ok_def split: option.splits)+

lemma refs_inv_step:
  assumes "worker_step w w'" "refs_inv w" "ids_inv w" "no_closed w"
  shows "refs_inv w'"
  using assms(1)
proof (cases rule: worker_step_cases)
  case (posted c t)
  with assms(2,3) show ?thesis
    by (auto simp: refs_inv_def ids_inv_def post_def Let_def runner_simps map_of_bt_insert ref_ok_def)
next
  case (advanced c db_ok i)
  with assms show ?thesis by (blast intro: refs_inv_advance)
next
  case (returned i r row g oc)
  show ?thesis
    by (rule refs_update [OF assms(2) _ returned(1)])
      (use returned refs_invD [OF assms(2) returned(1)] in
        \<open>auto simp: ref_ok_def split: option.splits\<close>)
next
  case (panicked i r row g)
  show ?thesis
    by (rule refs_update [OF assms(2) _ panicked(1)]) (use panicked in \<open>auto simp: ref_ok_def\<close>)
qed (use assms(2) in \<open>simp_all add: refs_inv_def runner_simps on_progress_def\<close>)

lemma held_unlock [simp]: "w_held (unlock g w) g' = (if g = Some g' then None else w_held w g')"
  by (cases g) (auto simp: unlock_def)

lemma owned_by_update:
  "get_runner i w = Some r \<Longrightarrow> w_runners w' = bt_update i f (w_runners w) \<Longrightarrow>
     owned_by w' j = (if j = i then owned (f r) else owned_by w j)"
  by (simp add: owned_by_def runner_simps)

lemma held_frame:
  assumes "held_inv w" "w_runners w' = bt_update i f (w_runners w)" "get_runner i w = Some r"
    and "owned (f r) = owned r" "w_held w' = w_held w"
  shows "held_inv w'"
proof -
  have "owned_by w' j = owned_by w j" for j
    using owned_by_update [OF assms(3,2)] assms(3,4) by (auto simp: owned_by_def)
  with assms(1,5) show ?thesis by (simp add: held_inv_def)
qed

text \<open>A runner that leaves its critical section gives its mutex back.\<close>

lemma held_leave:
  assumes "held_inv w" "w_runners w' = bt_update i f (w_runners w)" "get_runner i w = Some r"
    and "owned (f r) = None" "\<And>g. w_held w' g = (if owned r = Some g then None else w_held w g)"
  shows "held_inv w'"
proof -
  have "w_held w' g = Some j \<longleftrightarrow> owned_by w' j = Some g" for j g
  proof (cases "owned r = Some g")
    case True
    then have "owned_by w i = Some g" using assms(3) by (simp add: owned_by_def)
    then have i: "w_held w g = Some i" using assms(1) by (simp add: held_inv_def)
    have "owned_by w' j \<noteq> Some g"
    proof (cases "j = i")
      case False
      then have "w_held w g \<noteq> Some j" using i by simp
      with assms(1) False show ?thesis
        by (simp add: owned_by_update [OF assms(3,2)] held_inv_def)
    qed (simp add: owned_by_update [OF assms(3,2)] assms(4))
    with True show ?thesis by (simp add: assms(5))
  next
    case False
    have "owned_by w i = owned r" using assms(3) by (simp add: owned_by_def)
    with False assms(1,4) show ?thesis
      by (cases "j = i") (auto simp: owned_by_update [OF assms(3,2)] assms(5) held_inv_def)
  qed
  then show ?thesis by (simp add: held_inv_def)
qed

lemma held_inv_advance:
  assumes "advance c db_ok i w = Some w'" "held_inv w" "no_closed w"
  shows "held_inv w'"
  using assms(1)
proof (cases rule: advance_cases)
  case (lock r row g)
  have "owned_by w i = None" using lock by (simp add: owned_by_def owned_def)
  moreover have "owned_by w j \<noteq> Some g" for j
  proof -
    have "w_held w g \<noteq> Some j" using lock(3) by simp
    with assms(2) show ?thesis by (simp add: held_inv_def)
  qed
  ultimately show ?thesis using lock assms(2)
    by (auto simp: held_inv_def owned_by_update [OF lock(1)] owned_def)
next
  case (release r row g oc)
  show ?thesis
    by (rule held_leave [OF assms(2) _ release(1)]) (use release in \<open>auto simp: owned_def\<close>)
next
  case (closed r row g s pending)
  with assms(3) show ?thesis by (simp add: no_closed_def)
qed (rule held_frame [OF assms(2)], simp, assumption, simp add: owned_def, simp)+

lemma held_inv_step:
  assumes "worker_step w w'" "held_inv w" "ids_inv w" "no_closed w"
  shows "held_inv w'"
  using assms(1)
proof (cases rule: worker_step_cases)
  case (posted c t)
  have "get_runner (w_next_id w) w = None" using assms(3) by (auto simp: ids_inv_def get_runner_def)
  then have "owned_by w' j = owned_by w j" for j
    using posted assms(3)
    by (simp add: owned_by_def post_def Let_def runner_simps map_of_bt_insert ids_inv_def owned_def)
  with posted assms(2) show ?thesis by (simp add: held_inv_def post_def Let_def)
next
  case (advanced c db_ok i)
  with assms show ?thesis by (blast intro: held_inv_advance)
next
  case (returned i r row g oc)
  show ?thesis
    by (rule held_frame [OF assms(2) _ returned(1)]) (use returned in \<open>auto simp: owned_def\<close>)
next
  case (panicked i r row g)
  show ?thesis
    by (rule held_leave [OF assms(2) _ panicked(1)]) (use panicked in \<open>auto simp: owned_def\<close>)
qed (use assms(2) in \<open>simp_all add: held_inv_def owned_by_def runner_simps on_progress_def\<close>)

subsection \<open>Permits\<close>

definition holding :: "sem \<Rightarrow> runner \<Rightarrow> nat" where
  "holding s r = count_list (permits_held (r_task r) (r_phase r)) s"

definition in_use :: "sem \<Rightarrow> worker \<Rightarrow> nat" where
  "in_use s w = sum_list (map (holding s \<circ> snd) (w_runners w))"

text \<open>The permits still to acquire are a suffix of those the task needs.\<close>

definition pending_ok :: "runner \<Rightarrow> bool" where
  "pending_ok r \<longleftrightarrow>
     (case r_phase r of Acquiring _ _ ss \<Rightarrow> (\<exists>pre. sems_of (r_task r) = pre @ ss) | _ \<Rightarrow> True)"

definition permits_inv :: "worker_config \<Rightarrow> worker \<Rightarrow> bool" where
  "permits_inv cfg w \<longleftrightarrow> no_closed w \<and>
     (\<forall>i r. get_runner i w = Some r \<longrightarrow> pending_ok r) \<and>
     (\<forall>s. sm_permits (w_sems w s) + in_use s w = permits_of cfg s)"

lemma sum_list_bt_update:
  assumes "bt_ok m" "map_of m i = Some v"
  shows "sum_list (map (h \<circ> snd) (bt_update i f m)) + h v = sum_list (map (h \<circ> snd) m) + (h (f v) :: nat)"
  using assms
proof (induction m)
  case (Cons p m)
  obtain k u where p: "p = (k, u)" by force
  have ok: "bt_ok m" using Cons(2) by (simp add: bt_ok_def)
  show ?case
  proof (cases "k = i")
    case True
    have "i \<notin> fst ` set m" using Cons(2) True p by (force simp: bt_ok_def)
    then have "bt_update i f m = m" by (force simp: bt_update_def intro: map_idI)
    then show ?thesis using True Cons(3) p by (simp add: bt_update_def)
  next
    case False
    with Cons.IH [OF ok] Cons(3) p show ?thesis by (simp add: bt_update_def)
  qed
qed simp

lemma sum_list_bt_insert:
  "map_of m i = None \<Longrightarrow>
     sum_list (map (h \<circ> snd) (bt_insert i v m)) = sum_list (map (h \<circ> snd) m) + (h v :: nat)"
  by (induction i v m rule: bt_insert.induct) (auto split: if_splits)

lemma permits_update:
  assumes "permits_inv cfg w" "ids_inv w" "get_runner i w = Some r"
    and "w_runners w' = bt_update i f (w_runners w)" "pending_ok (f r)" "no_closed w'"
    and "\<And>s. sm_permits (w_sems w' s) + holding s (f r) = sm_permits (w_sems w s) + holding s r"
  shows "permits_inv cfg w'"
proof -
  have "in_use s w' + holding s r = in_use s w + holding s (f r)" for s
    using assms(2,3) sum_list_bt_update [of "w_runners w" i r "holding s" f]
    by (simp add: in_use_def assms(4) ids_inv_def get_runner_def)
  moreover have "sm_permits (w_sems w s) + in_use s w = permits_of cfg s" for s
    using assms(1) by (simp add: permits_inv_def)
  ultimately have "sm_permits (w_sems w' s) + in_use s w' = permits_of cfg s" for s
    using assms(7) [of s] by (metis add.assoc add.commute add_right_cancel)
  with assms show ?thesis by (auto simp: permits_inv_def runner_simps)
qed

lemma sems_of_distinct: "distinct (sems_of t)"
  by (simp add: sems_of_def)

lemma count_pending:
  "sems_of t = pre @ s # ss \<Longrightarrow>
     permits_held t (Acquiring row g (s # ss)) = pre \<and> permits_held t (Acquiring row g ss) = pre @ [s]"
  by simp

lemma permits_inv_advance:
  assumes "advance c db_ok i w = Some w'" "permits_inv cfg w" "ids_inv w"
  shows "permits_inv cfg w'"
proof -
  have nc: "no_closed w" using assms(2) by (simp add: permits_inv_def)
  show ?thesis
    using assms(1)
  proof (cases rule: advance_cases)
    case (closed r row g s pending)
    with nc show ?thesis by (simp add: no_closed_def)
  next
    case (acquire r row g s pending)
    then have "pending_ok r" using assms(2) by (simp add: permits_inv_def)
    then obtain pre where pre: "sems_of (r_task r) = pre @ s # pending"
      using acquire(2) by (auto simp: pending_ok_def)
    note held = count_pending [OF pre, of row g]
    show ?thesis
      by (rule permits_update [where f = "\<lambda>r. r\<lparr> r_phase := Acquiring row g pending \<rparr>",
            OF assms(2,3) acquire(1)])
        (use acquire pre nc held in \<open>auto simp: pending_ok_def no_closed_def holding_def\<close>)
  next
    case (leave r row oc)
    show ?thesis
      by (rule permits_update [where f = "\<lambda>r. r\<lparr> r_phase := Returned row oc \<rparr>",
            OF assms(2,3) leave(1)])
        (use leave nc in \<open>auto simp: pending_ok_def no_closed_def holding_def release_permits_def\<close>)
  qed (rule permits_update [OF assms(2,3)], assumption, simp, simp add: pending_ok_def,
       use nc in \<open>simp add: no_closed_def\<close>, simp add: holding_def)+
qed

lemma permits_inv_step:
  assumes "worker_step w w'" "permits_inv cfg w" "ids_inv w"
  shows "permits_inv cfg w'"
  using assms(1)
proof (cases rule: worker_step_cases)
  case (posted c t)
  have "map_of (w_runners w) (w_next_id w) = None" using assms(3) by (auto simp: ids_inv_def)
  moreover have "bt_ok (w_runners w)" using assms(3) by (simp add: ids_inv_def)
  ultimately show ?thesis
    using posted assms(2)
    by (auto simp: permits_inv_def post_def Let_def no_closed_def in_use_def sum_list_bt_insert
        holding_def runner_simps map_of_bt_insert pending_ok_def)
next
  case (advanced c db_ok i)
  with assms show ?thesis by (blast intro: permits_inv_advance)
next
  case (returned i r row g oc)
  show ?thesis
    by (rule permits_update [where f = "\<lambda>r. r\<lparr> r_phase := Executed row g oc \<rparr>",
          OF assms(2,3) returned(1)])
      (use returned assms(2) in \<open>auto simp: pending_ok_def no_closed_def holding_def permits_inv_def\<close>)
next
  case (panicked i r row g)
  show ?thesis
    by (rule permits_update [where f = "\<lambda>r. r\<lparr> r_phase := Leaving None \<rparr>",
          OF assms(2,3) panicked(1)])
      (use panicked assms(2) in \<open>auto simp: pending_ok_def no_closed_def holding_def permits_inv_def
          release_permits_def\<close>)
qed (use assms(2) in \<open>simp_all add: permits_inv_def no_closed_def in_use_def runner_simps on_progress_def\<close>)

subsection \<open>Outcomes\<close>

text \<open>
  An entry is running until its terminal state is written, and afterwards tells the outcome
  for as long as it is retained.
\<close>

definition running :: "nat \<Rightarrow> progress_map \<Rightarrow> bool" where
  "running i m \<longleftrightarrow> (case map_of m i of Some e \<Rightarrow> pe_terminal_at e = None | None \<Rightarrow> False)"

definition final_outcome :: "task_outcome option \<Rightarrow> task_outcome" where
  "final_outcome oc = (case oc of Some oc \<Rightarrow> oc | None \<Rightarrow> TaskErr (str ''task panicked''))"

definition reported :: "nat \<Rightarrow> task_outcome \<Rightarrow> progress_map \<Rightarrow> bool" where
  "reported i oc m \<longleftrightarrow>
     (case map_of m i of
        None \<Rightarrow> True
      | Some e \<Rightarrow> pe_terminal_at e \<noteq> None \<and> retained_outcome i m = oc)"

text \<open>Both depend only on the entry's terminal time and state, and may lose a terminal entry.\<close>

definition entry_kept :: "nat \<Rightarrow> progress_map \<Rightarrow> progress_map \<Rightarrow> bool" where
  "entry_kept i m m' \<longleftrightarrow>
     (case map_of m i of
        None \<Rightarrow> map_of m' i = None
      | Some e \<Rightarrow>
          (case map_of m' i of
             None \<Rightarrow> pe_terminal_at e \<noteq> None
           | Some e' \<Rightarrow>
               pe_terminal_at e' = pe_terminal_at e \<and>
               (pe_terminal_at e \<noteq> None \<longrightarrow> tp_state (pe_progress e') = tp_state (pe_progress e))))"

lemma entry_kept_running: "entry_kept i m m' \<Longrightarrow> running i m \<Longrightarrow> running i m'"
  by (auto simp: entry_kept_def running_def split: option.splits)

lemma entry_kept_reported: "entry_kept i m m' \<Longrightarrow> reported i oc m \<Longrightarrow> reported i oc m'"
  by (auto simp: entry_kept_def reported_def retained_outcome_def split: option.splits)

lemma entry_kept_same [simp]: "map_of m' i = map_of m i \<Longrightarrow> entry_kept i m m'"
  by (auto simp: entry_kept_def split: option.splits)

lemma entry_kept_call:
  assumes "progress_call f" "bt_ok m"
  shows "entry_kept i m (f m)"
  using assms(1)
proof cases
  case (4 t viewer)
  with assms(2) show ?thesis
    by (auto simp: entry_kept_def snapshot_def evict_def Let_def map_of_bt_retain split: option.splits)
qed (auto simp: entry_kept_def report_progress_update_def report_detail_def set_task_owner_def
      map_of_bt_update split: option.splits)

lemma reported_terminal:
  "running i m \<Longrightarrow>
     reported i oc (fst (write_terminal_progress c i (project_terminal i oc m) (m, t)))"
  by (auto simp: running_def reported_def retained_project write_terminal_entry split: option.splits)

lemma reported_guard: "running i m \<Longrightarrow> reported i (final_outcome None) (progress_terminal_guard c i m)"
  by (auto simp: running_def reported_def progress_terminal_guard_def map_of_bt_update
      retained_outcome_def final_outcome_def split: option.splits)

lemma kept_guard: "reported i oc m \<Longrightarrow> entry_kept j m (progress_terminal_guard c i m) \<or> j = i"
  by (auto simp: progress_terminal_guard_def map_of_bt_update)

lemma reported_guard_same: "reported i oc m \<Longrightarrow> reported i oc (progress_terminal_guard c i m)"
  by (auto simp: reported_def progress_terminal_guard_def map_of_bt_update retained_outcome_def
      split: option.splits)

lemma kept_other:
  "j \<noteq> i \<Longrightarrow> entry_kept j m (fst (write_terminal_progress c i st (m, t)))"
  "j \<noteq> i \<Longrightarrow> entry_kept j m (progress_terminal_guard c i m)"
  "bt_ok m \<Longrightarrow> j \<noteq> i \<Longrightarrow> entry_kept j m (seed_progress_entry c i tk m)"
  by (simp_all add: write_terminal_progress_def progress_terminal_guard_def seed_progress_entry_def
      map_of_bt_update map_of_bt_insert)

text \<open>What a runner's phase says of its progress entry, its channel and its slot.\<close>

fun outcome_of :: "phase \<Rightarrow> task_outcome option option" where
  "outcome_of (Recorded _ _ oc) = Some (Some oc)"
| "outcome_of (Released _ oc) = Some (Some oc)"
| "outcome_of (Pruned _ oc) = Some (Some oc)"
| "outcome_of (Returned _ oc) = Some (Some oc)"
| "outcome_of (Persisted oc) = Some (Some oc)"
| "outcome_of (Leaving (Some oc)) = Some (Some oc)"
| "outcome_of (GuardDropped oc) = Some oc"
| "outcome_of (SlotPruned oc) = Some oc"
| "outcome_of (Finished oc) = Some oc"
| "outcome_of _ = None"

fun sent :: "phase \<Rightarrow> task_outcome option" where
  "sent (Leaving oc) = oc"
| "sent (GuardDropped oc) = oc"
| "sent (SlotPruned oc) = oc"
| "sent (Finished oc) = oc"
| "sent _ = None"

fun slot_gone :: "phase \<Rightarrow> bool" where
  "slot_gone (SlotPruned _) \<longleftrightarrow> True"
| "slot_gone (Finished _) \<longleftrightarrow> True"
| "slot_gone _ \<longleftrightarrow> False"

fun finished :: "phase \<Rightarrow> bool" where
  "finished (Finished _) \<longleftrightarrow> True"
| "finished _ \<longleftrightarrow> False"

definition runner_ok :: "worker \<Rightarrow> nat \<Rightarrow> runner \<Rightarrow> bool" where
  "runner_ok w i r \<longleftrightarrow>
     (case outcome_of (r_phase r) of
        None \<Rightarrow> running i (w_progress w)
      | Some oc \<Rightarrow> reported i (final_outcome oc) (w_progress w)) \<and>
     r_value r = sent (r_phase r) \<and> (r_tx r \<longleftrightarrow> \<not> finished (r_phase r)) \<and>
     (slot_gone (r_phase r) \<longrightarrow> i \<notin> set (w_completions w))"

definition outcome_inv :: "worker \<Rightarrow> bool" where
  "outcome_inv w \<longleftrightarrow>
     (\<forall>i r. get_runner i w = Some r \<longrightarrow> runner_ok w i r) \<and>
     (\<forall>i \<in> set (w_completions w). get_runner i w \<noteq> None)"

lemma runner_ok_kept:
  assumes "runner_ok w i r" "entry_kept i (w_progress w) (w_progress w')"
    and "i \<in> set (w_completions w') \<Longrightarrow> i \<in> set (w_completions w)"
  shows "runner_ok w' i r"
  using assms entry_kept_running [OF assms(2)] entry_kept_reported [OF assms(2)]
  by (auto simp: runner_ok_def split: option.splits)

lemma outcome_update:
  assumes "outcome_inv w" "w_runners w' = bt_update i f (w_runners w)" "get_runner i w = Some r"
    and "runner_ok w i r \<Longrightarrow> runner_ok w' i (f r)"
    and "\<And>j. j \<noteq> i \<Longrightarrow> entry_kept j (w_progress w) (w_progress w')"
    and "set (w_completions w') \<subseteq> set (w_completions w)"
  shows "outcome_inv w'"
proof -
  have "runner_ok w' j r'" if "get_runner j w' = Some r'" for j r'
  proof (cases "j = i")
    case True
    with that assms(1,2,3,4) show ?thesis by (auto simp: outcome_inv_def runner_simps)
  next
    case False
    with that assms(1,2) have "runner_ok w j r'" by (auto simp: outcome_inv_def runner_simps)
    then show ?thesis using assms(5) [OF False] by (rule runner_ok_kept) (use assms(6) in auto)
  qed
  then show ?thesis using assms(1,2,6) by (auto simp: outcome_inv_def runner_simps)
qed

lemma outcome_inv_advance:
  assumes "advance c db_ok i w = Some w'" "outcome_inv w" "no_closed w"
  shows "outcome_inv w'"
  using assms(1)
proof (cases rule: advance_cases)
  case (closed r row g s pending)
  with assms(3) show ?thesis by (simp add: no_closed_def)
next
  case (recorded r row g oc)
  show ?thesis
    by (rule outcome_update [where f = "\<lambda>r. r\<lparr> r_phase := Recorded row g oc \<rparr>", OF assms(2) _ recorded(1)])
      (use recorded in \<open>auto simp: runner_ok_def kept_other reported_terminal final_outcome_def\<close>)
next
  case (guard r oc)
  have "runner_ok w i r \<Longrightarrow> runner_ok w' i (r\<lparr> r_phase := GuardDropped oc \<rparr>)"
    using guard by (cases oc) (auto simp: runner_ok_def reported_guard reported_guard_same)
  then show ?thesis
    by (intro outcome_update [where f = "\<lambda>r. r\<lparr> r_phase := GuardDropped oc \<rparr>",
          OF assms(2) _ guard(1)]) (simp_all add: guard(3) kept_other)
next
  case (send r oc)
  show ?thesis
    by (rule outcome_update [where f = "\<lambda>r. r\<lparr> r_phase := Leaving (Some oc), r_value := Some oc \<rparr>",
          OF assms(2) _ send(1)])
      (use send in \<open>auto simp: runner_ok_def\<close>)
next
  case (drop r oc)
  show ?thesis
    by (rule outcome_update [where f = "\<lambda>r. r\<lparr> r_phase := Finished oc, r_tx := False \<rparr>",
          OF assms(2) _ drop(1)])
      (use drop in \<open>auto simp: runner_ok_def\<close>)
qed (rule outcome_update [OF assms(2)], simp, assumption, simp add: runner_ok_def, simp, force)+

lemma outcome_inv_step:
  assumes "worker_step w w'" "outcome_inv w" "ids_inv w" "no_closed w"
  shows "outcome_inv w'"
  using assms(1)
proof (cases rule: worker_step_cases)
  case (posted c t)
  let ?i = "w_next_id w"
  let ?r = "\<lparr> r_task = t, r_phase = Spawned, r_value = None, r_tx = True \<rparr>"
  have fresh: "get_runner ?i w = None" and ok: "bt_ok (w_runners w)" "bt_ok (w_progress w)"
    using assms(3) by (auto simp: ids_inv_def get_runner_def)
  have runners: "get_runner j w' = (if j = ?i then Some ?r else get_runner j w)" for j
    using posted ok by (simp add: post_def Let_def get_runner_def map_of_bt_insert)
  have m: "w_progress w' = seed_progress_entry c ?i t (w_progress w)"
    and slots: "w_completions w' = ?i # w_completions w"
    using posted by (simp_all add: post_def Let_def)
  have "runner_ok w' ?i ?r"
    using ok by (simp add: runner_ok_def m running_def seed_progress_entry_def map_of_bt_insert)
  moreover have "runner_ok w' j r" if "get_runner j w = Some r" "j \<noteq> ?i" for j r
  proof (rule runner_ok_kept [where w = w])
    show "runner_ok w j r" using assms(2) that(1) by (simp add: outcome_inv_def)
  qed (use that(2) ok in \<open>auto simp: m slots kept_other\<close>)
  ultimately show ?thesis
    using assms(2) by (auto simp: outcome_inv_def runners slots)
next
  case (advanced c db_ok i)
  with assms show ?thesis by (blast intro: outcome_inv_advance)
next
  case (returned i r row g oc)
  show ?thesis
    by (rule outcome_update [where f = "\<lambda>r. r\<lparr> r_phase := Executed row g oc \<rparr>",
          OF assms(2) _ returned(1)])
      (use returned in \<open>auto simp: runner_ok_def\<close>)
next
  case (panicked i r row g)
  show ?thesis
    by (rule outcome_update [where f = "\<lambda>r. r\<lparr> r_phase := Leaving None \<rparr>",
          OF assms(2) _ panicked(1)])
      (use panicked in \<open>auto simp: runner_ok_def\<close>)
next
  case (awaited i)
  have "runner_ok w' j r" if "get_runner j w = Some r" for j r
  proof (rule runner_ok_kept [where w = w])
    show "runner_ok w j r" using assms(2) that by (simp add: outcome_inv_def)
  qed (simp_all add: awaited)
  moreover have "\<forall>j \<in> set (w_completions w'). get_runner j w \<noteq> None"
    using assms(2) by (simp add: awaited outcome_inv_def)
  moreover have "get_runner j w' = get_runner j w" for j
    by (simp add: awaited get_runner_def)
  ultimately show ?thesis by (simp add: outcome_inv_def)
next
  case (progress f)
  have "bt_ok (w_progress w)" using assms(3) by (simp add: ids_inv_def)
  then have kept: "entry_kept j (w_progress w) (w_progress w')" for j
    using entry_kept_call [OF progress(1)] progress(2) by (simp add: on_progress_def)
  have same: "w_completions w' = w_completions w" "get_runner j w' = get_runner j w" for j
    by (simp_all add: progress(2) on_progress_def get_runner_def)
  have "runner_ok w' j r" if "get_runner j w = Some r" for j r
  proof (rule runner_ok_kept [where w = w])
    show "runner_ok w j r" using assms(2) that by (simp add: outcome_inv_def)
  qed (simp_all add: kept same)
  with assms(2) show ?thesis by (simp add: outcome_inv_def same)
qed

subsection \<open>The lock map\<close>

text \<open>A runner that still references a mutex, is about to prune it, or lost its chance to.\<close>

fun keeps :: "nat \<Rightarrow> phase \<Rightarrow> bool" where
  "keeps g (Waiting _ g') \<longleftrightarrow> g' = g"
| "keeps g (Acquiring _ g' _) \<longleftrightarrow> g' = Some g"
| "keeps g (Executed _ g' _) \<longleftrightarrow> g' = Some g"
| "keeps g (Recorded _ g' _) \<longleftrightarrow> g' = Some g"
| "keeps g (Released _ _) \<longleftrightarrow> True"
| "keeps g (Leaving oc) \<longleftrightarrow> oc = None"
| "keeps g (GuardDropped oc) \<longleftrightarrow> oc = None"
| "keeps g (SlotPruned oc) \<longleftrightarrow> oc = None"
| "keeps g (Finished oc) \<longleftrightarrow> oc = None"
| "keeps g _ \<longleftrightarrow> False"

definition kept_key :: "worker \<Rightarrow> ustr \<Rightarrow> nat \<Rightarrow> bool" where
  "kept_key w k g \<longleftrightarrow>
     (\<exists>i r. get_runner i w = Some r \<and> resource_key (r_task r) = Some k \<and> keeps g (r_phase r))"

definition locks_inv :: "worker \<Rightarrow> bool" where
  "locks_inv w \<longleftrightarrow>
     (\<forall>k g. w_locks w k = Some g \<longrightarrow> kept_key w k g \<and> g < w_next_mutex w) \<and>
     (\<forall>k k' g. w_locks w k = Some g \<longrightarrow> w_locks w k' = Some g \<longrightarrow> k = k')"

lemma keeps_ref: "mutex_ref ph = Some g \<Longrightarrow> keeps g ph"
  by (cases ph) auto

lemma kept_key_update:
  assumes "kept_key w k g" "w_runners w' = bt_update i f (w_runners w)" "get_runner i w = Some r"
    and "r_task (f r) = r_task r" "resource_key (r_task r) = Some k \<Longrightarrow> keeps g (r_phase r) \<Longrightarrow> keeps g (r_phase (f r))"
  shows "kept_key w' k g"
proof -
  from assms(1) obtain j r' where j: "get_runner j w = Some r'" "resource_key (r_task r') = Some k"
    "keeps g (r_phase r')" by (auto simp: kept_key_def)
  have "get_runner j w' = Some (if j = i then f r' else r')"
    using j(1) assms(2) by (auto simp: runner_simps)
  with j assms(3-5) show ?thesis by (cases "j = i") (force simp: kept_key_def)+
qed

lemma locks_update:
  assumes "locks_inv w" "w_runners w' = bt_update i f (w_runners w)" "get_runner i w = Some r"
    and "w_locks w' = w_locks w" "w_next_mutex w' = w_next_mutex w" "r_task (f r) = r_task r"
    and "\<And>g. keeps g (r_phase r) \<Longrightarrow> keeps g (r_phase (f r))"
  shows "locks_inv w'"
  using assms(1) kept_key_update [OF _ assms(2,3,6) assms(7)]
  unfolding locks_inv_def assms(4,5) by blast

text \<open>A mutex with more than the map's reference is cloned by a runner of its own key.\<close>

lemma strong_count_shared:
  assumes "strong_count g w \<noteq> 1" "ids_inv w" "refs_inv w" "locks_inv w" "w_locks w k = Some g"
  obtains j r where "get_runner j w = Some r" "mutex_ref (r_phase r) = Some g" "resource_key (r_task r) = Some k"
proof -
  from assms(1) obtain j r where mem: "(j, r) \<in> set (w_runners w)" and ref: "mutex_ref (r_phase r) = Some g"
    by (auto simp: strong_count_def filter_empty_conv)
  have "distinct (map fst (w_runners w))" using assms(2) by (simp add: ids_inv_def bt_ok_distinct)
  with mem have r: "get_runner j w = Some r" by (simp add: get_runner_def)
  with refs_invD [OF assms(3)] ref obtain k' where "resource_key (r_task r) = Some k'" "w_locks w k' = Some g"
    by (force simp: ref_ok_def)
  moreover from this assms(4,5) have "k' = k" by (auto simp: locks_inv_def)
  ultimately show ?thesis using that r ref by blast
qed

lemma locks_inv_advance:
  assumes "advance c db_ok i w = Some w'" "locks_inv w" "ids_inv w" "refs_inv w" "no_closed w"
  shows "locks_inv w'"
  using assms(1)
proof (cases rule: advance_cases)
  case (clone r row key)
  let ?f = "\<lambda>r. r\<lparr> r_phase := Waiting row (w_next_mutex w) \<rparr>"
  have rs: "w_runners w' = bt_update i ?f (w_runners w)" by (simp add: clone(5))
  have new: "kept_key w' key (w_next_mutex w)"
    unfolding kept_key_def
    by (intro exI [of _ i] exI [of _ "?f r"]) (use clone in \<open>simp add: runner_simps\<close>)
  have old: "kept_key w' k g \<and> g < w_next_mutex w" if "w_locks w k = Some g" for k g
  proof -
    have "kept_key w k g" "g < w_next_mutex w" using assms(2) that by (auto simp: locks_inv_def)
    then show ?thesis using kept_key_update [OF _ rs clone(1), of k g] clone(2) by simp
  qed
  show ?thesis
    using assms(2) new old
    by (auto simp: locks_inv_def clone(5) less_SucI split: if_splits dest: old)
next
  case (closed r row g s pending)
  with assms(5) show ?thesis by (simp add: no_closed_def)
next
  case (keep r row oc)
  have rs: "w_runners w' = bt_update i (\<lambda>r. r\<lparr> r_phase := Pruned row oc \<rparr>) (w_runners w)"
    by (simp add: keep(4))
  have "kept_key w' k g" if k: "w_locks w k = Some g" for k g
  proof (cases "resource_key (r_task r) = Some k")
    case True
    from strong_count_shared [OF keep(3) [OF True k] assms(3,4,2) k] obtain j s where
      s: "get_runner j w = Some s" "mutex_ref (r_phase s) = Some g" "resource_key (r_task s) = Some k" .
    then have "j \<noteq> i" using keep(1,2) by auto
    then have "get_runner j w' = Some s" using s(1) rs by (simp add: runner_simps)
    with s(2,3) show ?thesis by (auto simp: kept_key_def intro: keeps_ref)
  next
    case False
    have "kept_key w k g" using assms(2) k by (simp add: locks_inv_def)
    then show ?thesis by (rule kept_key_update [OF _ rs keep(1)]) (use False in simp_all)
  qed
  with assms(2) show ?thesis by (simp add: locks_inv_def keep(4))
next
  case (prune r row oc key g)
  have rs: "w_runners w' = bt_update i (\<lambda>r. r\<lparr> r_phase := Pruned row oc \<rparr>) (w_runners w)"
    by (simp add: prune(6))
  have "kept_key w' k g'" if k: "w_locks w k = Some g'" "k \<noteq> key" for k g'
  proof -
    have "kept_key w k g'" using assms(2) k by (simp add: locks_inv_def)
    then show ?thesis by (rule kept_key_update [OF _ rs prune(1)]) (use k(2) prune(3) in simp_all)
  qed
  with assms(2) show ?thesis by (auto simp: locks_inv_def prune(6))
next
  case (leave r row oc)
  show ?thesis
    by (rule locks_update [where f = "\<lambda>r. r\<lparr> r_phase := Returned row oc \<rparr>", OF assms(2) _ leave(1)])
      (use leave in auto)
qed (rule locks_update [OF assms(2)], simp, assumption, simp, simp, simp, simp)+

lemma locks_inv_step:
  assumes "worker_step w w'" "locks_inv w" "ids_inv w" "refs_inv w" "no_closed w"
  shows "locks_inv w'"
  using assms(1)
proof (cases rule: worker_step_cases)
  case (posted c t)
  let ?i = "w_next_id w"
  have ok: "bt_ok (w_runners w)" and fresh: "map_of (w_runners w) ?i = None"
    using assms(3) by (auto simp: ids_inv_def)
  have rs: "get_runner j w' = (if j = ?i then Some \<lparr> r_task = t, r_phase = Spawned, r_value = None,
      r_tx = True \<rparr> else get_runner j w)" for j
    using posted ok by (simp add: post_def Let_def get_runner_def map_of_bt_insert)
  have "kept_key w' k g" if "kept_key w k g" for k g
  proof -
    from that obtain j r where j: "get_runner j w = Some r" "resource_key (r_task r) = Some k"
      "keeps g (r_phase r)" by (auto simp: kept_key_def)
    then have "j \<noteq> ?i" using fresh by (auto simp: get_runner_def)
    then have "get_runner j w' = Some r" using rs j(1) by simp
    with j(2,3) show ?thesis by (auto simp: kept_key_def)
  qed
  with assms(2) posted show ?thesis by (auto simp: locks_inv_def post_def Let_def)
next
  case (advanced c db_ok i)
  with assms show ?thesis by (blast intro: locks_inv_advance)
next
  case (returned i r row g oc)
  show ?thesis
    by (rule locks_update [where f = "\<lambda>r. r\<lparr> r_phase := Executed row g oc \<rparr>", OF assms(2) _ returned(1)])
      (use returned in auto)
next
  case (panicked i r row g)
  show ?thesis
    by (rule locks_update [where f = "\<lambda>r. r\<lparr> r_phase := Leaving None \<rparr>", OF assms(2) _ panicked(1)])
      (use panicked in auto)
qed (use assms(2) in \<open>simp_all add: locks_inv_def kept_key_def runner_simps on_progress_def\<close>)

subsection \<open>The worker as an invariant system\<close>

definition worker_inv :: "worker_config \<Rightarrow> worker \<Rightarrow> bool" where
  "worker_inv cfg w \<longleftrightarrow>
     ids_inv w \<and> refs_inv w \<and> held_inv w \<and> permits_inv cfg w \<and> outcome_inv w \<and> locks_inv w"

lemma new_worker_inv: "worker_inv cfg (new_worker pool cfg)"
  by (simp add: worker_inv_def new_worker_def ids_inv_def refs_inv_def held_inv_def permits_inv_def
      outcome_inv_def locks_inv_def owned_by_def get_runner_def no_closed_def in_use_def bt_ok_def)

interpretation worker_sys: invariant_system "worker_init cfg" worker_step "worker_inv cfg" for cfg
proof unfold_locales
  show "worker_init cfg w \<Longrightarrow> worker_inv cfg w" for w
    by (auto elim: worker_init.cases simp: new_worker_inv)
  fix w w'
  assume inv: "worker_inv cfg w" and step: "worker_step w w'"
  then have nc: "no_closed w" by (simp add: worker_inv_def permits_inv_def)
  then have "\<forall>s. \<not> sm_closed (w_sems w s)" by (simp add: no_closed_def)
  with inv nc step show "worker_inv cfg w'"
    unfolding worker_inv_def
    by (blast intro: ids_inv_step refs_inv_step held_inv_step permits_inv_step outcome_inv_step
        locks_inv_step)
qed

lemmas worker_reachable_inv = worker_sys.reachable_inv [unfolded worker_inv_def]

subsection \<open>Exclusion\<close>

text \<open>
  C5: two tasks with the same resource key (two scans of one library, two sends over the one
  mail relay, two conversions of one book) are never between lock and unlock together,
  although the map forgets a key's mutex and creates a new one for it all the time.
\<close>

theorem tasks_exclude_each_other:
  assumes "worker_reachable cfg w" "get_runner i w = Some r" "get_runner j w = Some s" "i \<noteq> j"
    and "resource_key (r_task r) = Some k" "resource_key (r_task s) = Some k"
    and "in_critical (r_phase r)"
  shows "\<not> in_critical (r_phase s)"
proof
  assume crit: "in_critical (r_phase s)"
  have inv: "refs_inv w" "held_inv w" using worker_reachable_inv [OF assms(1)] by simp_all
  have own: "\<exists>g. w_locks w k = Some g \<and> w_held w g = Some l"
    if "get_runner l w = Some t" "in_critical (r_phase t)" "resource_key (r_task t) = Some k" for l t
  proof -
    have "ref_ok (w_locks w) t" by (rule refs_invD [OF inv(1) that(1)])
    with that obtain g where g: "mutex_ref (r_phase t) = Some g" "w_locks w k = Some g"
      by (auto simp: ref_ok_def split: option.splits)
    then have "owned_by w l = Some g" using that by (simp add: owned_by_def owned_def)
    with inv(2) g(2) show ?thesis by (simp add: held_inv_def)
  qed
  from own [OF assms(2,7,5)] own [OF assms(3) crit assms(6)] assms(4) show False by auto
qed

text \<open>Two scans of one library: the second waits until the first has let go.\<close>

definition sample_clock :: clock where
  "sample_clock = \<lparr> instant = 0, wall_ms = 1000 \<rparr>"

definition sample_table :: bt_table where
  "sample_table = \<lparr> bt_rows = [], bt_seq = 0 \<rparr>"

definition adv :: "nat \<Rightarrow> event" where
  "adv i = Advance sample_clock True i"

definition two_scans :: "event list" where
  "two_scans =
     [Post sample_clock (Scan (str ''/books'')), Post sample_clock (Scan (str ''/books'')),
      adv 1, adv 1, adv 1, adv 2, adv 2]"

definition after_events :: "event list \<Rightarrow> worker" where
  "after_events evs =
     (case run_events evs (new_worker sample_table (default_config 4)) of
        Some w \<Rightarrow> w | None \<Rightarrow> new_worker sample_table (default_config 4))"

lemma after_events_reachable: "worker_reachable (default_config 4) (after_events evs)"
proof -
  have r: "worker_reachable (default_config 4) (new_worker sample_table (default_config 4))"
    by (rule reach_init) (rule worker_init.new)
  show ?thesis
    by (cases "run_events evs (new_worker sample_table (default_config 4))")
      (simp_all add: after_events_def r run_events_reachable [OF r])
qed

lemma two_scans_state:
  "map_option r_phase (get_runner 1 (after_events two_scans)) = Some (Acquiring (Some 1) (Some 0) [ScanSem])"
  "map_option r_task (get_runner 1 (after_events two_scans)) = Some (Scan (str ''/books''))"
  "map_option r_phase (get_runner 2 (after_events two_scans)) = Some (Waiting (Some 2) 0)"
  "map_option r_task (get_runner 2 (after_events two_scans)) = Some (Scan (str ''/books''))"
  by code_simp+

theorem tasks_exclude_each_other_witness:
  "\<exists>r s. get_runner 1 (after_events two_scans) = Some r \<and> in_critical (r_phase r) \<and>
     get_runner 2 (after_events two_scans) = Some s \<and> \<not> in_critical (r_phase s)"
proof -
  obtain r s where r: "get_runner 1 (after_events two_scans) = Some r"
    "r_phase r = Acquiring (Some 1) (Some 0) [ScanSem]" "r_task r = Scan (str ''/books'')"
    and s: "get_runner 2 (after_events two_scans) = Some s" "r_task s = Scan (str ''/books'')"
    using two_scans_state by auto
  have "\<not> in_critical (r_phase s)"
    by (rule tasks_exclude_each_other [OF after_events_reachable r(1) s(1)])
      (simp_all add: r(2,3) s(2))
  with r s show ?thesis by simp
qed

text \<open>Runners that hold all their permits are counted by the permits in use.\<close>

definition occupies :: "sem \<Rightarrow> runner \<Rightarrow> bool" where
  "occupies s r \<longleftrightarrow>
     s \<in> set (sems_of (r_task r)) \<and>
     (case r_phase r of Acquiring _ _ ss \<Rightarrow> ss = [] | Executed _ _ _ \<Rightarrow> True | _ \<Rightarrow> False)"

lemma count_list_once: "distinct xs \<Longrightarrow> x \<in> set xs \<Longrightarrow> count_list xs x = 1"
  by (induction xs) (auto simp: count_notin)

lemma occupies_holding: "occupies s r \<Longrightarrow> holding s r = 1"
  by (auto simp: occupies_def holding_def count_list_once [OF sems_of_distinct] split: phase.splits)

lemma occupants_bound: "length (filter (\<lambda>(_, r). occupies s r) rs) \<le> sum_list (map (holding s \<circ> snd) rs)"
  by (induction rs) (auto dest: occupies_holding)

text \<open>
  C22: never more scans (transcodes, conversions) run at once than the configuration allows, and
  no permit is ever lost: the free ones and the held ones make up the cap, which is at least
  one.
\<close>

theorem permits_bound_concurrency:
  assumes "worker_reachable cfg w"
  shows "length (filter (\<lambda>(_, r). occupies s r) (w_runners w)) \<le> permits_of cfg s \<and>
    sm_permits (w_sems w s) + in_use s w = permits_of cfg s \<and> 1 \<le> permits_of cfg s"
proof -
  have "sm_permits (w_sems w s) + in_use s w = permits_of cfg s"
    using worker_reachable_inv [OF assms] by (simp add: permits_inv_def)
  moreover have "length (filter (\<lambda>(_, r). occupies s r) (w_runners w)) \<le> in_use s w"
    unfolding in_use_def by (rule occupants_bound)
  moreover have "1 \<le> permits_of cfg s" by (cases s) (simp_all add: permits_of_def)
  ultimately show ?thesis by linarith
qed

definition scan_and_wait :: "event list" where
  "scan_and_wait =
     two_scans @ [adv 1, Post sample_clock (ScanAudiobooks (str ''/audio'')), adv 3, adv 3, adv 3]"

theorem permits_bound_concurrency_witness:
  "length (filter (\<lambda>(_, r). occupies ScanSem r) (w_runners (after_events scan_and_wait))) = 1 \<and>
   advance sample_clock True 3 (after_events scan_and_wait) = None \<and>
   sm_permits (w_sems (after_events scan_and_wait) ScanSem) + in_use ScanSem (after_events scan_and_wait) =
     permits_of (default_config 4) ScanSem"
proof -
  have "length (filter (\<lambda>(_, r). occupies ScanSem r) (w_runners (after_events scan_and_wait))) = 1"
    by code_simp
  moreover have "advance sample_clock True 3 (after_events scan_and_wait) = None" by code_simp
  ultimately show ?thesis
    using permits_bound_concurrency [OF after_events_reachable, of ScanSem scan_and_wait] by simp
qed

subsection \<open>Outcomes reach their awaiters\<close>

text \<open>
  C20: a finished task's outcome is not lost. A caller that took the slot in time reads exactly
  the outcome the handler returned (an error, if it panicked), a caller that comes later finds
  the slot gone and reads the same outcome from the retained entry, and only after the entry's
  eviction is the task unknown. The slots are only those of tasks still at work.
\<close>

theorem awaited_outcome_is_the_tasks:
  assumes "worker_reachable cfg w" "get_runner i w = Some r" "r_phase r = Finished oc"
  shows "await_poll i w =
      Some (case oc of Some oc \<Rightarrow> oc
            | None \<Rightarrow> TaskErr (str ''worker dropped task before completion'')) \<and>
    fst (await_begin i w) =
      Inl (if map_of (w_progress w) i = None then TaskErr (str ''unknown task id'')
           else case oc of Some oc \<Rightarrow> oc | None \<Rightarrow> TaskErr (str ''task panicked''))"
proof -
  have ok: "runner_ok w i r"
    using worker_reachable_inv [OF assms(1)] assms(2) by (simp add: outcome_inv_def)
  have "retained_outcome i (w_progress w) =
      (if map_of (w_progress w) i = None then TaskErr (str ''unknown task id'')
       else case oc of Some oc \<Rightarrow> oc | None \<Rightarrow> TaskErr (str ''task panicked''))"
    using ok assms(3)
    by (auto simp: runner_ok_def reported_def final_outcome_def retained_outcome_def split: option.splits)
  then show ?thesis
    using ok assms(2,3)
    by (auto simp: runner_ok_def await_poll_def await_begin_def split: option.split)
qed

text \<open>A scan that removed ghost files is awaited before it starts and after it is done.\<close>

definition ghosts :: task_outcome where
  "ghosts = TaskOk (Some (GhostFiles \<lparr> gf_removed = 3, gf_total = 9 \<rparr>))"

definition one_scan :: "event list" where
  "one_scan =
     Post sample_clock (Scan (str ''/books'')) # Await 1 #
     [adv 1, adv 1, adv 1, adv 1, Return 1 ghosts] @ replicate 9 (adv 1)"

lemma one_scan_state:
  "map_option r_phase (get_runner 1 (after_events one_scan)) = Some (Finished (Some ghosts))"
  "map_of (w_progress (after_events one_scan)) 1 \<noteq> None"
  by code_simp+

theorem awaited_outcome_is_the_tasks_witness:
  "await_poll 1 (after_events one_scan) = Some ghosts \<and>
   fst (await_begin 1 (after_events one_scan)) = Inl ghosts"
proof -
  obtain r where r: "get_runner 1 (after_events one_scan) = Some r" "r_phase r = Finished (Some ghosts)"
    using one_scan_state(1) by auto
  have "map_of (w_progress (after_events one_scan)) 1 \<noteq> None" by (rule one_scan_state(2))
  then show ?thesis
    using awaited_outcome_is_the_tasks [OF after_events_reachable r] by (simp only: if_False option.case)
qed

subsection \<open>Every task comes to its end\<close>

text \<open>How many stretches a runner has at most before it.\<close>

fun rank :: "phase \<Rightarrow> nat" where
  "rank Spawned = 17"
| "rank (Started _) = 16"
| "rank (Waiting _ _) = 15"
| "rank (Acquiring _ _ ss) = 11 + length ss"
| "rank (Executed _ _ _) = 10"
| "rank (Recorded _ _ _) = 9"
| "rank (Released _ _) = 8"
| "rank (Pruned _ _) = 7"
| "rank (Returned _ _) = 6"
| "rank (Persisted _) = 5"
| "rank (Leaving _) = 3"
| "rank (GuardDropped _) = 2"
| "rank (SlotPruned _) = 1"
| "rank (Finished _) = 0"

definition work_left :: "worker \<Rightarrow> nat" where
  "work_left w = sum_list (map ((rank \<circ> r_phase) \<circ> snd) (w_runners w))"

text \<open>The events by which the runners themselves move.\<close>

fun own_move :: "event \<Rightarrow> bool" where
  "own_move (Advance _ _ _) \<longleftrightarrow> True"
| "own_move (Return _ _) \<longleftrightarrow> True"
| "own_move (Panic _) \<longleftrightarrow> True"
| "own_move _ \<longleftrightarrow> False"

lemma sems_of_length: "length (sems_of t) \<le> 1"
  by (cases t) (simp_all add: sems_of_def)

lemma work_update:
  assumes "ids_inv w" "get_runner i w = Some r" "w_runners w' = bt_update i f (w_runners w)"
    and "rank (r_phase (f r)) < rank (r_phase r)"
  shows "work_left w' < work_left w"
  using assms sum_list_bt_update [of "w_runners w" i r "rank \<circ> r_phase" f]
  by (simp add: work_left_def ids_inv_def get_runner_def)

lemma work_advance:
  assumes "advance c db_ok i w = Some w'" "ids_inv w" "no_closed w"
  shows "work_left w' < work_left w"
  using assms(1)
proof (cases rule: advance_cases)
  case (closed r row g s pending)
  with assms(3) show ?thesis by (simp add: no_closed_def)
next
  case (keyless r row)
  show ?thesis
    by (rule work_update [OF assms(2) keyless(1)])
      (use keyless sems_of_length [of "r_task r"] in auto)
next
  case (lock r row g)
  show ?thesis
    by (rule work_update [OF assms(2) lock(1)]) (use lock sems_of_length [of "r_task r"] in auto)
qed (rule work_update [OF assms(2)], assumption, simp, simp)+

lemma work_move:
  assumes "worker_event ev w = Some w'" "own_move ev" "ids_inv w" "no_closed w"
  shows "work_left w' < work_left w"
proof (cases ev)
  case (Advance c db_ok i)
  with assms show ?thesis by (auto intro: work_advance)
next
  case (Return i oc)
  then obtain r row g where r: "get_runner i w = Some r" "r_phase r = Acquiring row g []"
    "w' = set_phase i (Executed row g oc) w"
    using assms(1) by (auto simp: handler_returns_def executing_Some)
  show ?thesis by (rule work_update [OF assms(3) r(1)]) (use r in auto)
next
  case (Panic i)
  then obtain r row g where r: "get_runner i w = Some r" "r_phase r = Acquiring row g []"
    "w' = set_phase i (Leaving None) (unlock g (release_permits (sems_of (r_task r)) w))"
    using assms(1) by (auto simp: handler_panics_def executing_Some)
  show ?thesis
    by (rule work_update [where f = "\<lambda>r. r\<lparr> r_phase := Leaving None \<rparr>", OF assms(3) r(1)]) (use r in auto)
qed (use assms(2) in simp_all)

text \<open>A runner that cannot move waits for a mutex or for a permit.\<close>

lemma stuck_waits:
  assumes "get_runner i w = Some r" "advance c db_ok i w = None" "executing i w = None"
    and "\<not> finished (r_phase r)" "no_closed w"
  shows "(\<exists>row g j. r_phase r = Waiting row g \<and> w_held w g = Some j) \<or>
    (\<exists>row g s ss. r_phase r = Acquiring row g (s # ss) \<and> sm_permits (w_sems w s) = 0)"
proof (cases "r_phase r")
  case (Acquiring row g ss)
  with assms show ?thesis
    by (cases ss)
      (auto simp: advance_def executing_def acquire_permit_def Let_def no_closed_def split: if_splits)
qed (use assms in \<open>auto simp: advance_def split: option.splits prod.splits if_splits\<close>)

lemma in_use_pos: "0 < in_use s w \<Longrightarrow> \<exists>(i, r) \<in> set (w_runners w). 0 < holding s r"
proof (rule ccontr)
  assume "0 < in_use s w" and none: "\<not> (\<exists>(i, r) \<in> set (w_runners w). 0 < holding s r)"
  have "\<forall>x \<in> set (map (holding s \<circ> snd) (w_runners w)). x = 0" using none by force
  then have "in_use s w = 0" unfolding in_use_def sum_list_eq_0_iff .
  with \<open>0 < in_use s w\<close> show False by simp
qed

lemma permit_holder_moves:
  assumes "get_runner i w = Some r" "0 < holding s r" "pending_ok r" "no_closed w"
  shows "advance c db_ok i w \<noteq> None \<or> executing i w \<noteq> None"
proof (rule ccontr)
  assume "\<not> ?thesis"
  then have stuck: "advance c db_ok i w = None" "executing i w = None" by blast+
  have "\<not> finished (r_phase r)" using assms(2) by (cases "r_phase r") (auto simp: holding_def)
  from stuck_waits [OF assms(1) stuck this assms(4)] assms(2) obtain row g s' ss where
    ph: "r_phase r = Acquiring row g (s' # ss)" by (auto simp: holding_def)
  then obtain pre where pre: "sems_of (r_task r) = pre @ s' # ss"
    using assms(3) by (auto simp: pending_ok_def)
  then have "pre = []" using sems_of_length [of "r_task r"] by auto
  with assms(2) ph pre show False by (simp add: holding_def)
qed

lemma someone_moves:
  assumes "ids_inv w" "held_inv w" "permits_inv cfg w"
    and "get_runner i w = Some r" "\<not> finished (r_phase r)"
  shows "\<exists>i. advance c db_ok i w \<noteq> None \<or> executing i w \<noteq> None"
proof (rule ccontr)
  assume "\<not> ?thesis"
  then have stuck: "advance c db_ok j w = None" "executing j w = None" for j by blast+
  have nc: "no_closed w" using assms(3) by (simp add: permits_inv_def)
  have no_permit_wait: False
    if j: "get_runner j w = Some s" and ph: "r_phase s = Acquiring row g (sm # ss)"
      and none: "sm_permits (w_sems w sm) = 0" for j s row g sm ss
  proof -
    have "1 \<le> permits_of cfg sm" by (cases sm) (simp_all add: permits_of_def)
    moreover have "sm_permits (w_sems w sm) + in_use sm w = permits_of cfg sm"
      using assms(3) by (simp add: permits_inv_def)
    ultimately have "0 < in_use sm w" using none by simp
    from in_use_pos [OF this] obtain k t where mem: "(k, t) \<in> set (w_runners w)" and h: "0 < holding sm t"
      by blast
    have "distinct (map fst (w_runners w))" using assms(1) by (simp add: ids_inv_def bt_ok_distinct)
    with mem have t: "get_runner k w = Some t" by (simp add: get_runner_def)
    with assms(3) have "pending_ok t" by (simp add: permits_inv_def)
    from permit_holder_moves [OF t h this nc] stuck show False by blast
  qed
  from stuck_waits [OF assms(4) stuck assms(5) nc] no_permit_wait [OF assms(4)]
  obtain row g j where "w_held w g = Some j" by blast
  then have "owned_by w j = Some g" using assms(2) by (simp add: held_inv_def)
  then obtain s where s: "get_runner j w = Some s" "in_critical (r_phase s)"
    by (auto simp: owned_by_def owned_def bind_eq_Some_conv split: if_splits)
  from s(2) have "\<not> finished (r_phase s)" by (cases "r_phase s") auto
  from stuck_waits [OF s(1) stuck this nc] no_permit_wait [OF s(1)] s(2) show False by auto
qed

text \<open>
  C21: the worker never gets stuck, and every posted task comes to its end if the handlers do.
  Each move of a runner, a panic included, leaves less work, nothing is left exactly when all
  are finished, and while work is left some runner can move: no order of locks and permits
  deadlocks.
\<close>

theorem every_task_comes_to_its_end:
  assumes "worker_reachable cfg w"
  shows "(\<forall>ev w'. own_move ev \<longrightarrow> worker_event ev w = Some w' \<longrightarrow> work_left w' < work_left w) \<and>
    (work_left w = 0 \<longleftrightarrow> (\<forall>(i, r) \<in> set (w_runners w). finished (r_phase r))) \<and>
    (0 < work_left w \<longrightarrow> (\<exists>ev. own_move ev \<and> worker_event ev w \<noteq> None))"
proof -
  have inv: "ids_inv w" "held_inv w" "permits_inv cfg w" and nc: "no_closed w"
    using worker_reachable_inv [OF assms] by (auto simp: permits_inv_def)
  have rank0: "rank ph = 0 \<longleftrightarrow> finished ph" for ph by (cases ph) auto
  have zero: "work_left w = 0 \<longleftrightarrow> (\<forall>(i, r) \<in> set (w_runners w). finished (r_phase r))"
    by (auto simp: work_left_def rank0)
  have "\<exists>ev. own_move ev \<and> worker_event ev w \<noteq> None" if "0 < work_left w"
  proof -
    from that zero obtain i r where "(i, r) \<in> set (w_runners w)" and r: "\<not> finished (r_phase r)" by auto
    moreover have "distinct (map fst (w_runners w))" using inv(1) by (simp add: ids_inv_def bt_ok_distinct)
    ultimately have "get_runner i w = Some r" by (simp add: get_runner_def)
    from someone_moves [OF inv this r, of sample_clock True] obtain j where
      "advance sample_clock True j w \<noteq> None \<or> executing j w \<noteq> None" by blast
    then show ?thesis
    proof
      assume "advance sample_clock True j w \<noteq> None"
      then show ?thesis by (intro exI [of _ "Advance sample_clock True j"]) simp
    next
      assume "executing j w \<noteq> None"
      then show ?thesis by (intro exI [of _ "Panic j"]) (auto simp: handler_panics_def)
    qed
  qed
  with zero work_move [OF _ _ inv(1) nc] show ?thesis by blast
qed

theorem every_task_comes_to_its_end_witness:
  "\<exists>ev. own_move ev \<and> worker_event ev (after_events scan_and_wait) \<noteq> None"
proof -
  have "0 < work_left (after_events scan_and_wait)" by code_simp
  with every_task_comes_to_its_end [OF after_events_reachable] show ?thesis by blast
qed

text \<open>
  the lock map does not grow with the tasks ever run: each key in it belongs to a task that
  holds or waits for it, is about to prune it, or panicked while it ran. The last case is
  real: a panicking handler skips the prune.
\<close>

theorem lock_map_is_pruned:
  assumes "worker_reachable cfg w" "w_locks w k \<noteq> None"
  shows "\<exists>i r. get_runner i w = Some r \<and> resource_key (r_task r) = Some k \<and>
    (mutex_ref (r_phase r) \<noteq> None \<or> (\<exists>row oc. r_phase r = Released row oc) \<or>
     r_phase r \<in> {Leaving None, GuardDropped None, SlotPruned None, Finished None})"
proof -
  from assms(2) obtain g where "w_locks w k = Some g" by blast
  with worker_reachable_inv [OF assms(1)] have "kept_key w k g" by (simp add: locks_inv_def)
  then obtain i r where r: "get_runner i w = Some r" "resource_key (r_task r) = Some k" "keeps g (r_phase r)"
    by (auto simp: kept_key_def)
  moreover from r(3) have "mutex_ref (r_phase r) \<noteq> None \<or> (\<exists>row oc. r_phase r = Released row oc) \<or>
     r_phase r \<in> {Leaving None, GuardDropped None, SlotPruned None, Finished None}"
    by (cases "r_phase r") auto
  ultimately show ?thesis by blast
qed

definition panicked_scan :: "event list" where
  "panicked_scan =
     Post sample_clock (Scan (str ''/books'')) #
     [adv 1, adv 1, adv 1, adv 1, Panic 1] @ replicate 3 (adv 1)"

theorem lock_map_is_pruned_witness:
  "\<exists>i r. get_runner i (after_events panicked_scan) = Some r \<and>
     resource_key (r_task r) = Some (str ''/books'') \<and> work_left (after_events panicked_scan) = 0"
proof -
  have l: "w_locks (after_events panicked_scan) (str ''/books'') \<noteq> None" by code_simp
  have "work_left (after_events panicked_scan) = 0" by code_simp
  with lock_map_is_pruned [OF after_events_reachable l] show ?thesis by blast
qed

text \<open>After the panic of the only task its key is still in the map.\<close>

lemma panic_leaves_its_lock:
  "work_left (after_events panicked_scan) = 0 \<and> w_locks (after_events panicked_scan) (str ''/books'') = Some 0"
  by (rule conjI) code_simp+

end
