(* ===== verification/Http_Auth.thy ===== *)
theory Http_Auth
  imports Accounts
begin

text \<open>
  The request side of authentication (\<open>server/src/auth/\<close>): the cross-site check
  (\<open>csrf.rs\<close>), the boundary gate of \<open>/api/*\<close> (\<open>gate.rs\<close>), the extractors the handlers
  declare (\<open>extractor.rs\<close>) and the session swaps of impersonation (\<open>impersonation.rs\<close>).
  A header value that is not visible ASCII has no text and is absent here. The cookie jar is
  the \<open>cookie\<close> crate's and a parameter.
\<close>

subsection \<open>Requests\<close>

datatype http_method = GET | HEAD | OPTIONS | POST | PUT | PATCH | DELETE

record request =
  rq_method :: http_method
  rq_path :: ustr
  rq_query :: "ustr option"
  rq_authorization :: "ustr option"
  rq_cookie :: "ustr option"
  rq_host :: "ustr option"
  rq_origin :: "ustr option"
  rq_referer :: "ustr option"

text \<open>A middleware answers with a status, or runs the rest on the state it leaves.\<close>

type_synonym 'a response_or = "nat + 'a"

subsection \<open>The cross-site check\<close>

definition first_piece :: "uchar \<Rightarrow> ustr \<Rightarrow> ustr" where
  "first_piece d s = hd (split_on d s)"

definition origin_matches_host :: "ustr option \<Rightarrow> ustr \<Rightarrow> bool" where
  "origin_matches_host origin host \<longleftrightarrow>
     (case origin of
        None \<Rightarrow> False
      | Some origin \<Rightarrow>
          let after_scheme = (case split_once_str (str ''://'') origin of Some (_, r) \<Rightarrow> r | None \<Rightarrow> origin)
          in first_piece 47 after_scheme = host)"

definition parse_origin_allowlist :: "ustr \<Rightarrow> ustr list option" where
  "parse_origin_allowlist raw =
     (let l = filter (\<lambda>s. s \<noteq> []) (map (\<lambda>s. trim_end_matches 47 (trim s)) (split_on 44 raw))
      in if l = [] then None else Some l)"

definition origin_in_list :: "ustr option \<Rightarrow> ustr list \<Rightarrow> bool" where
  "origin_in_list origin allowed \<longleftrightarrow>
     (case origin of
        None \<Rightarrow> False
      | Some origin \<Rightarrow>
          let normalized = trim_end_matches 47 origin;
              scheme_authority =
                (case split_once_str (str ''://'') normalized of
                   Some (scheme, rest) \<Rightarrow> scheme @ str ''://'' @ first_piece 47 rest
                 | None \<Rightarrow> normalized)
          in list_ex (\<lambda>a. a = scheme_authority) allowed)"

text \<open>\<open>jar header name\<close> says whether the jar parsed from a Cookie header holds the name.\<close>

definition has_session_cookie :: "(ustr option \<Rightarrow> ustr \<Rightarrow> bool) \<Rightarrow> ustr option \<Rightarrow> bool" where
  "has_session_cookie jar cookie \<longleftrightarrow>
     jar cookie SESSION_COOKIE_NAME_HOST_PREFIXED \<or> jar cookie SESSION_COOKIE_NAME"

definition safe_method :: "http_method \<Rightarrow> bool" where
  "safe_method m \<longleftrightarrow> m = GET \<or> m = HEAD \<or> m = OPTIONS"

definition origin_check ::
  "(ustr option \<Rightarrow> ustr \<Rightarrow> bool) \<Rightarrow> ustr list option \<Rightarrow> request \<Rightarrow> 'a \<Rightarrow> 'a response_or" where
  "origin_check jar allowed_origins rq next =
     (if safe_method (rq_method rq) then Inr next
      else if (case rq_authorization rq of Some s \<Rightarrow> starts_with (str ''Bearer '') s | None \<Rightarrow> False)
      then Inr next
      else if \<not> has_session_cookie jar (rq_cookie rq) then Inr next
      else if (case allowed_origins of
                 Some allowed \<Rightarrow>
                   origin_in_list (rq_origin rq) allowed \<or> origin_in_list (rq_referer rq) allowed
               | None \<Rightarrow> False)
      then Inr next
      else if (case rq_host rq of
                 Some host \<Rightarrow>
                   origin_matches_host (rq_origin rq) host \<or> origin_matches_host (rq_referer rq) host
               | None \<Rightarrow> False)
      then Inr next
      else Inl 403)"

subsection \<open>The gate and the extractors\<close>

definition is_media_read_path :: "ustr \<Rightarrow> bool" where
  "is_media_read_path path \<longleftrightarrow>
     starts_with (str ''/api/covers/'') path \<or>
     starts_with (str ''/api/thumbs/'') path \<or>
     starts_with (str ''/api/authors/'') path \<and> ends_with (str ''/photo'') path \<or>
     starts_with (str ''/api/suggestions/'') path \<and> ends_with (str ''/cover'') path \<or>
     starts_with (str ''/api/audiobooks/'') path \<and> contains_str (str ''/parts/'') path \<or>
     starts_with (str ''/api/ebooks/'') path \<and> ends_with (str ''/file'') path \<or>
     starts_with (str ''/api/ebooks/'') path \<and> ends_with (str ''/images'') path \<or>
     starts_with (str ''/api/ebooks/'') path \<and> contains_str (str ''/pages/'') path \<or>
     starts_with (str ''/api/journals/images/'') path \<or>
     starts_with (str ''/api/users/'') path \<and> ends_with (str ''/avatar'') path"

definition ungated :: "ustr \<Rightarrow> bool" where
  "ungated path \<longleftrightarrow>
     \<not> starts_with (str ''/api/'') path \<or>
     path = str ''/api/auth'' \<or>
     starts_with (str ''/api/auth/'') path \<or>
     path = str ''/api/_health'' \<or>
     starts_with (str ''/api/v3/content/'') path \<or>
     path = str ''/api/UserStorage/Metadata'' \<or>
     starts_with (str ''/api/ebooks/'') path \<and> ends_with (str ''/images/signed'') path"

definition extract_token :: "request \<Rightarrow> (ustr \<times> session_kind) option" where
  "extract_token rq = parse_session_token (rq_authorization rq) (rq_cookie rq)"

fun find_map :: "('a \<Rightarrow> 'b option) \<Rightarrow> 'a list \<Rightarrow> 'b option" where
  "find_map f [] = None"
| "find_map f (x # xs) = (case f x of Some y \<Rightarrow> Some y | None \<Rightarrow> find_map f xs)"

definition query_token :: "ustr option \<Rightarrow> ustr option" where
  "query_token query =
     (case query of
        None \<Rightarrow> None
      | Some q \<Rightarrow>
          find_map
            (\<lambda>pair. case split_once 61 pair of
                      Some (name, v) \<Rightarrow> if name = str ''token'' \<and> v \<noteq> [] then Some v else None
                    | None \<Rightarrow> None)
            (split_on 38 q))"

definition is_media :: "request \<Rightarrow> bool" where
  "is_media rq \<longleftrightarrow> rq_method rq = GET \<and> is_media_read_path (rq_path rq)"

definition gate_token :: "request \<Rightarrow> ustr option" where
  "gate_token rq =
     (case extract_token rq of
        Some (t, _) \<Rightarrow> Some t
      | None \<Rightarrow> if is_media rq then query_token (rq_query rq) else None)"

definition require_auth :: "auth_env \<Rightarrow> request \<Rightarrow> auth_db \<Rightarrow> auth_db response_or" where
  "require_auth env rq db =
     (if ungated (rq_path rq) then Inr db
      else case gate_token rq of
             None \<Rightarrow> Inl 401
           | Some token \<Rightarrow>
               (case resolve_token env token db of
                  Inr (_, db') \<Rightarrow> Inr db'
                | Inl SessionNotFound \<Rightarrow> Inl 401
                | Inl e \<Rightarrow> Inl 500))"

text \<open>\<open>resolve_auth_user\<close>; the pool the router installs is always there.\<close>

definition resolve_auth_user ::
  "auth_env \<Rightarrow> bool \<Rightarrow> request \<Rightarrow> auth_db \<Rightarrow> ((user \<times> session) \<times> auth_db) response_or" where
  "resolve_auth_user env allow_query_token rq db =
     (let header_auth = rq_authorization rq;
          has_session_creds = extract_token rq \<noteq> None;
          query_auth =
            (if allow_query_token \<and> \<not> has_session_creds
             then map_option (\<lambda>t. str ''Bearer '' @ t) (query_token (rq_query rq)) else None);
          authorization = (case header_auth of Some a \<Rightarrow> Some a | None \<Rightarrow> query_auth)
      in case validate_session env authorization (rq_cookie rq) db of
           Inr r \<Rightarrow> Inr r
         | Inl Unauthenticated \<Rightarrow> Inl 401
         | Inl (AuthInternal e) \<Rightarrow> Inl 500)"

definition auth_user :: "auth_env \<Rightarrow> request \<Rightarrow> auth_db \<Rightarrow> ((user \<times> session) \<times> auth_db) response_or" where
  "auth_user env rq db = resolve_auth_user env False rq db"

definition media_auth_user ::
  "auth_env \<Rightarrow> request \<Rightarrow> auth_db \<Rightarrow> ((user \<times> session) \<times> auth_db) response_or" where
  "media_auth_user env rq db = resolve_auth_user env True rq db"

definition admin_user :: "auth_env \<Rightarrow> request \<Rightarrow> auth_db \<Rightarrow> ((user \<times> session) \<times> auth_db) response_or" where
  "admin_user env rq db =
     (case auth_user env rq db of
        Inl code \<Rightarrow> Inl code
      | Inr ((user, s), db') \<Rightarrow> if \<not> usr_is_admin user then Inl 403 else Inr ((user, s), db'))"

subsection \<open>Impersonation\<close>

definition COOKIE_TTL_SECS :: int where "COOKIE_TTL_SECS = 30 * 24 * 60 * 60"
definition BEARER_TTL_SECS :: int where "BEARER_TTL_SECS = 90 * 24 * 60 * 60"
definition IMPERSONATION_TTL_SECS :: int where "IMPERSONATION_TTL_SECS = 60 * 60"

text \<open>Both swaps are one transaction: on an error the database is the one before.\<close>

definition begin_impersonation ::
  "auth_env \<Rightarrow> user \<Rightarrow> session \<Rightarrow> int \<Rightarrow> ustr option \<Rightarrow> auth_db \<Rightarrow> auth_error + new_session \<times> auth_db" where
  "begin_impersonation env admin s target ua db =
     and_then (revoke_session_checked env (ses_id s) db) (\<lambda>db'.
     create_impersonation_session env target (usr_id admin) IMPERSONATION_TTL_SECS ua db')"

text \<open>The handler: the new session and the database, or the status of a refusal.\<close>

definition impersonate_handler ::
  "auth_env \<Rightarrow> user \<times> session \<Rightarrow> ustr option \<Rightarrow> int \<Rightarrow> auth_db \<Rightarrow> (new_session \<times> auth_db) response_or" where
  "impersonate_handler env = (\<lambda>(admin, s) ua user_id db.
     if ses_kind s \<noteq> Cookie then Inl 400
     else if ses_impersonator_id s \<noteq> None then Inl 409
     else if user_id = usr_id admin then Inl 400
     else case get_user_by_id user_id db of
            None \<Rightarrow> Inl 404
          | Some target \<Rightarrow>
              (case begin_impersonation env admin s (usr_id target) ua db of
                 Inr issued \<Rightarrow> Inr issued
               | Inl _ \<Rightarrow> Inl 500))"

definition return_to_impersonator ::
  "auth_env \<Rightarrow> session \<Rightarrow> ustr option \<Rightarrow> auth_db \<Rightarrow> auth_error + (new_session \<times> auth_db) option" where
  "return_to_impersonator env s ua db =
     (case ses_impersonator_id s of
        None \<Rightarrow> Inr None
      | Some admin_id \<Rightarrow>
          and_then (ok_or SessionNotFound (get_user_by_id admin_id db)) (\<lambda>admin.
          and_then (revoke_session_checked env (ses_id s) db) (\<lambda>db'.
          and_then (create_session env (usr_id admin) None Cookie COOKIE_TTL_SECS ua db') (\<lambda>issued.
          Inr (Some issued)))))"

definition stop_impersonation_handler ::
  "auth_env \<Rightarrow> user \<times> session \<Rightarrow> ustr option \<Rightarrow> auth_db \<Rightarrow> (new_session \<times> auth_db) response_or" where
  "stop_impersonation_handler env = (\<lambda>(user, s) ua db.
     case return_to_impersonator env s ua db of
       Inr (Some issued) \<Rightarrow> Inr issued
     | Inr None \<Rightarrow> Inl 409
     | Inl SessionNotFound \<Rightarrow> Inl 401
     | Inl e \<Rightarrow> Inl 500)"

definition shown_name :: "user \<Rightarrow> ustr" where
  "shown_name user = (case usr_display_name user of Some n \<Rightarrow> n | None \<Rightarrow> usr_username user)"

definition impersonation_of :: "session \<Rightarrow> auth_db \<Rightarrow> ((int \<times> ustr \<times> int) option) response_or" where
  "impersonation_of s db =
     (case ses_impersonator_id s of
        None \<Rightarrow> Inr None
      | Some admin_id \<Rightarrow>
          (case get_user_by_id admin_id db of
             Some admin \<Rightarrow> Inr (Some (usr_id admin, shown_name admin, ses_expires_at s))
           | None \<Rightarrow> Inl 401))"

subsection \<open>Forged requests\<close>

lemma split_once_scheme:
  "58 \<notin> set scheme \<Longrightarrow>
     split_once_str (str ''://'') (scheme @ str ''://'' @ rest) = Some (scheme, rest)"
proof (induction scheme)
  case Nil
  then show ?case by (simp add: str_def)
next
  case (Cons c cs)
  have "strip_prefix (str ''://'') (c # cs @ str ''://'' @ rest) = None"
    using Cons.prems by (simp add: str_def)
  with Cons show ?case by simp
qed

lemma split_on_nonempty [simp]: "split_on d s \<noteq> []"
  by (induction s) (auto split: list.splits)

lemma first_piece_app:
  assumes "d \<notin> set a" "p = [] \<or> hd p = d"
  shows "first_piece d (a @ p) = a"
  using assms(1)
proof (induction a)
  case Nil
  then show ?case using assms(2) by (cases p) (auto simp: first_piece_def)
next
  case (Cons c cs)
  then show ?case
    by (cases "split_on d (cs @ p)") (auto simp: first_piece_def)
qed

text \<open>The URL of a page: its scheme, its authority and a path.\<close>

definition page_url :: "ustr \<Rightarrow> ustr \<Rightarrow> ustr \<Rightarrow> ustr" where
  "page_url scheme authority path = scheme @ str ''://'' @ authority @ path"

definition site_ok :: "ustr \<Rightarrow> ustr \<Rightarrow> bool" where
  "site_ok scheme authority \<longleftrightarrow> 58 \<notin> set scheme \<and> 47 \<notin> set authority \<and> authority \<noteq> []"

definition path_ok :: "ustr \<Rightarrow> bool" where
  "path_ok p \<longleftrightarrow> p = [] \<or> hd p = 47"

lemma origin_matches_page:
  "site_ok scheme authority \<Longrightarrow> path_ok p \<Longrightarrow>
     origin_matches_host (Some (page_url scheme authority p)) host \<longleftrightarrow> authority = host"
  by (simp add: origin_matches_host_def page_url_def split_once_scheme first_piece_app site_ok_def path_ok_def)

lemma trim_end_keeps:
  assumes "a \<noteq> []" "c \<notin> set a"
  shows "trim_end_matches c (q @ a @ p) = q @ a @ trim_end_matches c p"
proof -
  have "dropWhile (\<lambda>x. x = c) (rev p @ rev a @ rev q) = dropWhile (\<lambda>x. x = c) (rev p) @ rev a @ rev q"
  proof (cases "\<exists>x \<in> set (rev p). x \<noteq> c")
    case True
    then show ?thesis by (auto simp: dropWhile_append1)
  next
    case False
    have "rev a \<noteq> []" "hd (rev a) \<noteq> c" using assms by (auto simp: hd_rev)
    then have "dropWhile (\<lambda>x. x = c) (rev a @ rev q) = rev a @ rev q" by (intro dropWhile_id) auto
    with False show ?thesis by (subst dropWhile_append2) auto
  qed
  then show ?thesis by (simp add: trim_end_matches_def)
qed

lemma path_ok_trim:
  assumes "path_ok p"
  shows "path_ok (trim_end_matches c p)"
proof (cases "trim_end_matches c p = []")
  case False
  have "p = trim_end_matches c p @ rev (takeWhile (\<lambda>x. x = c) (rev p))"
    unfolding trim_end_matches_def by (metis rev_append rev_rev_ident takeWhile_dropWhile_id)
  with False have "hd p = hd (trim_end_matches c p)" by (metis hd_append2)
  moreover have "p \<noteq> []" using False by (auto simp: trim_end_matches_def)
  ultimately show ?thesis using assms by (simp add: path_ok_def)
qed (simp add: path_ok_def)

lemma origin_in_list_page:
  assumes "site_ok scheme authority" "path_ok p"
  shows "origin_in_list (Some (page_url scheme authority p)) allowed \<longleftrightarrow>
    scheme @ str ''://'' @ authority \<in> set allowed"
proof -
  have "trim_end_matches 47 (page_url scheme authority p) = page_url scheme authority (trim_end_matches 47 p)"
    using assms(1) trim_end_keeps [of authority 47 "scheme @ str ''://''" p]
    by (simp add: page_url_def site_ok_def)
  with assms path_ok_trim [OF assms(2), of 47] show ?thesis
    by (auto simp: origin_in_list_def page_url_def split_once_scheme first_piece_app site_ok_def
        path_ok_def list_ex_iff)
qed

text \<open>
  C25: a state-changing request that a browser sends along with its session cookie from a page
  of some site (its Origin, and whatever the Referer's path) reaches the server's own routes
  exactly when that site is the one the request is addressed to or an allowed origin. The jar
  is only assumed to hold the cookies that the session parser finds.
\<close>

theorem forged_requests_are_refused:
  assumes jar: "\<And>t. parse_session_token None (rq_cookie rq) = Some (t, Cookie) \<Longrightarrow> 37 \<notin> set t \<Longrightarrow>
      has_session_cookie jar (rq_cookie rq)"
    and "\<not> safe_method (rq_method rq)" "rq_authorization rq = None"
    and "extract_token rq = Some (token, Cookie)" "37 \<notin> set token"
    and "site_ok scheme authority" "path_ok p" "rq_origin rq = Some (page_url scheme authority [])"
    and "rq_referer rq = None \<or> rq_referer rq = Some (page_url scheme authority p)"
  shows "origin_check jar allowed_origins rq next =
    (if rq_host rq = Some authority \<or>
        (\<exists>allowed. allowed_origins = Some allowed \<and> scheme @ str ''://'' @ authority \<in> set allowed)
     then Inr next else Inl 403)"
proof -
  have cookie: "has_session_cookie jar (rq_cookie rq)"
    using jar assms(3-5) by (simp add: extract_token_def)
  have "path_ok []" by (simp add: path_ok_def)
  note page = origin_matches_page [OF assms(6)] origin_in_list_page [OF assms(6)]
  have host: "origin_matches_host (rq_origin rq) h \<or> origin_matches_host (rq_referer rq) h \<longleftrightarrow> authority = h" for h
    using assms(7-9) \<open>path_ok []\<close> page by (auto simp: origin_matches_host_def)
  have listed: "origin_in_list (rq_origin rq) l \<or> origin_in_list (rq_referer rq) l \<longleftrightarrow>
      scheme @ str ''://'' @ authority \<in> set l" for l
    using assms(7-9) \<open>path_ok []\<close> page by (auto simp: origin_in_list_def)
  show ?thesis
    using assms(2,3) cookie
    by (simp add: origin_check_def host listed split: option.split)
qed

text \<open>A form on another site posts to the server with the reader's cookie.\<close>

definition forged :: request where
  "forged =
     \<lparr> rq_method = POST, rq_path = str ''/api/auth/logout'', rq_query = None,
       rq_authorization = None, rq_cookie = Some (str ''theme=dark; omnibus_session=t1''),
       rq_host = Some (str ''books.home:3000''),
       rq_origin = Some (str ''https://books.home.evil.example''),
       rq_referer = Some (str ''https://books.home.evil.example/books.home:3000'') \<rparr>"

definition plain_jar :: "ustr option \<Rightarrow> ustr \<Rightarrow> bool" where
  "plain_jar cookie name \<longleftrightarrow>
     (case cookie of
        None \<Rightarrow> False
      | Some c \<Rightarrow> list_ex (\<lambda>pair. map_option fst (split_once 61 (trim pair)) = Some name) (split_on 59 c))"

theorem forged_requests_are_refused_witness:
  "origin_check plain_jar (Some [str ''https://proxy.home'']) forged True = Inl 403"
proof -
  have jar: "has_session_cookie plain_jar (rq_cookie forged)" by code_simp
  have args: "\<not> safe_method (rq_method forged)" "rq_authorization forged = None"
    "extract_token forged = Some (str ''t1'', Cookie)" "37 \<notin> set (str ''t1'')"
    "site_ok (str ''https'') (str ''books.home.evil.example'')" "path_ok (str ''/books.home:3000'')"
    "rq_origin forged = Some (page_url (str ''https'') (str ''books.home.evil.example'') [])"
    "rq_referer forged = None \<or>
       rq_referer forged = Some (page_url (str ''https'') (str ''books.home.evil.example'') (str ''/books.home:3000''))"
    by code_simp+
  have "rq_host forged \<noteq> Some (str ''books.home.evil.example'')"
    "str ''https'' @ str ''://'' @ str ''books.home.evil.example'' \<notin> set [str ''https://proxy.home'']"
    by code_simp+
  with forged_requests_are_refused [where allowed_origins = "Some [str ''https://proxy.home'']",
      OF jar args] show ?thesis by simp
qed

subsection \<open>Gate and extractors\<close>

text \<open>A token that resolved resolves to the same user again, on the touched database.\<close>

lemma lookup_session_again:
  assumes "lookup_session env raw db = Inr ((u, s), db')"
  shows "\<exists>s' db''. lookup_session env raw db' = Inr ((u, s'), db'')"
proof -
  let ?h = "sha256 env raw" and ?t = "now env"
  from assms obtain r ur where r: "fetch_optional (\<lambda>r. s_token_hash r = ?h) (sessions db) = Some r"
    and ur: "fetch_optional (\<lambda>u. u_id u = s_user_id r) (users db) = Some ur"
    and ok: "check_session_validity r ?t = Inr ()" "row_to_session r = Inr s"
    and u: "u = build_user_from_joined_row db ur"
    and db': "db' = (if ?t - s_last_used_at r \<ge> SESSION_TOUCH_THRESHOLD_SECS
                     then touch_last_used (s_id r) ?t db else db)"
    by (auto simp: lookup_session_def fetch_session_row_def and_then_Inr)
  show ?thesis
  proof (cases "?t - s_last_used_at r \<ge> SESSION_TOUCH_THRESHOLD_SECS")
    case True
    let ?r = "if s_revoked_at r = None \<and> s_expires_at r > ?t then r\<lparr> s_last_used_at := ?t \<rparr> else r"
    have rows: "fetch_optional (\<lambda>r. s_token_hash r = ?h) (sessions db') = Some ?r"
      using True db' r by (simp add: touch_last_used_def fetch_update)
    have "check_session_validity ?r ?t = Inr ()" "\<exists>s'. row_to_session ?r = Inr s'"
      using ok by (auto simp: check_session_validity_def row_to_session_def SESSION_IDLE_TIMEOUT_SECS_def
          split: if_splits)
    then obtain s' where ok': "check_session_validity ?r ?t = Inr ()" "row_to_session ?r = Inr s'" by blast
    have us: "users db' = users db" "s_user_id ?r = s_user_id r"
      "build_user_from_joined_row db' ur = build_user_from_joined_row db ur"
      using db' by (auto simp: touch_last_used_def build_user_from_joined_row_def row_to_user_def has_avatar_def)
    show ?thesis
      using rows ur ok' us u by (auto simp: lookup_session_def fetch_session_row_def)
  next
    case False
    then show ?thesis using assms db' by auto
  qed
qed

lemma lookup_api_token_again:
  assumes "lookup_api_token env raw db = Inr ((u, s), db')"
  shows "\<exists>s' db''. lookup_api_token env raw db' = Inr ((u, s'), db'')"
proof -
  let ?h = "sha256 env raw" and ?t = "now env"
  from assms obtain r ur where r: "fetch_optional (\<lambda>r. t_token_hash r = ?h) (api_tokens db) = Some r"
    and ur: "fetch_optional (\<lambda>u. u_id u = t_user_id r) (users db) = Some ur"
    and ok: "t_revoked_at r = None"
    and u: "u = build_user_from_joined_row db ur"
    and db': "db' = (if ?t - (case t_last_used_at r of Some x \<Rightarrow> x | None \<Rightarrow> 0) \<ge> API_TOKEN_TOUCH_THRESHOLD_SECS
                     then touch_api_token (t_id r) ?t db else db)"
    by (auto simp: lookup_api_token_def and_then_Inr split: if_splits)
  show ?thesis
  proof (cases "?t - (case t_last_used_at r of Some x \<Rightarrow> x | None \<Rightarrow> 0) \<ge> API_TOKEN_TOUCH_THRESHOLD_SECS")
    case True
    have "fetch_optional (\<lambda>r. t_token_hash r = ?h) (api_tokens db') = Some (r\<lparr> t_last_used_at := Some ?t \<rparr>)"
      using True db' r ok by (simp add: touch_api_token_def fetch_update)
    moreover have "users db' = users db"
      "build_user_from_joined_row db' ur = build_user_from_joined_row db ur"
      using db' by (auto simp: touch_api_token_def build_user_from_joined_row_def row_to_user_def has_avatar_def)
    ultimately show ?thesis
      using ur ok u by (auto simp: lookup_api_token_def)
  next
    case False
    then show ?thesis using assms db' by auto
  qed
qed

lemma resolve_token_again:
  "resolve_token env raw db = Inr ((u, s), db') \<Longrightarrow>
     \<exists>s' db''. resolve_token env raw db' = Inr ((u, s'), db'')"
proof -
  assume r: "resolve_token env raw db = Inr ((u, s), db')"
  show ?thesis
  proof (cases "is_api_token_shaped raw")
    case True
    with r obtain tk where "lookup_api_token env raw db = Inr ((u, tk), db')"
      by (auto simp: resolve_token_def and_then_Inr)
    from lookup_api_token_again [OF this] obtain tk' db'' where
      "lookup_api_token env raw db' = Inr ((u, tk'), db'')" by blast
    with True show ?thesis by (simp add: resolve_token_def)
  next
    case False
    with r have "lookup_session env raw db = Inr ((u, s), db')" by (simp add: resolve_token_def)
    from lookup_session_again [OF this] False show ?thesis by (simp add: resolve_token_def)
  qed
qed

lemma find_map_Some: "find_map f xs = Some y \<Longrightarrow> \<exists>x \<in> set xs. f x = Some y"
  by (induction xs) (auto split: option.splits)

lemma split_on_chars: "p \<in> set (split_on d s) \<Longrightarrow> set p \<subseteq> set s"
proof (induction s arbitrary: p)
  case (Cons c cs)
  then show ?case by (cases "split_on d cs") (auto split: if_splits, blast+)
qed simp

lemma query_token_chars: "query_token (Some q) = Some t \<Longrightarrow> t \<noteq> [] \<and> set t \<subseteq> set q"
  by (force simp: query_token_def split_once_Some split: option.splits if_splits prod.splits
      dest!: find_map_Some split_on_chars)

text \<open>A URL holds no white space.\<close>

definition query_ok :: "request \<Rightarrow> bool" where
  "query_ok rq \<longleftrightarrow> (\<forall>q. rq_query rq = Some q \<longrightarrow> (\<forall>c \<in> set q. \<not> is_whitespace c))"

lemma query_bearer:
  assumes "query_ok rq" "query_token (rq_query rq) = Some t"
  shows "parse_session_token (Some (str ''Bearer '' @ t)) cookie = Some (t, Bearer)"
proof -
  obtain q where q: "rq_query rq = Some q" using assms(2) by (cases "rq_query rq") (auto simp: query_token_def)
  then have "t \<noteq> []" "\<forall>c \<in> set t. \<not> is_whitespace c"
    using assms query_token_chars [of q t] by (auto simp: query_ok_def)
  then show ?thesis by (simp add: parse_session_token_def bearer_token_def trim_by_none)
qed

text \<open>
  The extractor, whose handler takes the media form (\<open>m\<close>) or not: with a session header or cookie
  it resolves that token and never looks at the query; without one the query counts, for the media
  form only and only where no Authorization header of another scheme is in the way.
\<close>

lemma extractor_token:
  assumes "extract_token rq = Some (t, k)"
  shows "resolve_auth_user env m rq db =
    (case resolve_token env t db of
       Inr r \<Rightarrow> Inr r | Inl SessionNotFound \<Rightarrow> Inl 401 | Inl e \<Rightarrow> Inl 500)"
  using assms
  by (auto simp: resolve_auth_user_def validate_session_def extract_token_def Let_def
      split: sum.split auth_error.split option.splits)

lemma extractor_query:
  assumes "query_ok rq" "extract_token rq = None"
  shows "resolve_auth_user env m rq db = Inr r \<longleftrightarrow>
    m \<and> rq_authorization rq = None \<and>
    (\<exists>t. query_token (rq_query rq) = Some t \<and> resolve_token env t db = Inr r)"
proof (cases "m \<and> rq_authorization rq = None \<and> query_token (rq_query rq) \<noteq> None")
  case True
  then obtain t where t: "query_token (rq_query rq) = Some t" by blast
  show ?thesis
    using assms(2) True t query_bearer [OF assms(1) t]
    by (auto simp: resolve_auth_user_def validate_session_def Let_def
        split: sum.split auth_error.split)
next
  case False
  then have "resolve_auth_user env m rq db = Inl 401"
    using assms(2)
    by (auto simp: resolve_auth_user_def validate_session_def extract_token_def Let_def
        split: option.splits)
  with False show ?thesis by auto
qed

lemma gate_token_user:
  assumes "\<not> ungated (rq_path rq)" "extract_token rq = Some (t, k)"
  shows "case require_auth env rq db of
      Inl code \<Rightarrow> resolve_auth_user env m rq db = Inl code
    | Inr db' \<Rightarrow> \<exists>u s s' db''. resolve_token env t db = Inr ((u, s), db') \<and>
        resolve_auth_user env m rq db' = Inr ((u, s'), db'')"
proof (cases "resolve_token env t db")
  case (Inl e)
  with assms show ?thesis
    by (cases e) (simp_all add: require_auth_def gate_token_def extractor_token [OF assms(2)])
next
  case (Inr p)
  then obtain u s db' where p: "resolve_token env t db = Inr ((u, s), db')" by (cases p) auto
  from resolve_token_again [OF p] obtain s' db'' where "resolve_token env t db' = Inr ((u, s'), db'')" by blast
  with p assms show ?thesis
    by (auto simp: require_auth_def gate_token_def extractor_token [OF assms(2)])
qed

lemma gate_query:
  assumes "\<not> ungated (rq_path rq)" "extract_token rq = None"
  shows "require_auth env rq db = Inr db' \<longleftrightarrow>
    is_media rq \<and> (\<exists>t u s. query_token (rq_query rq) = Some t \<and> resolve_token env t db = Inr ((u, s), db'))"
  using assms
  by (auto simp: require_auth_def gate_token_def split: option.splits sum.splits auth_error.splits)

text \<open>
  C26: on a gated path, what the boundary gate and the extractor of the handler each let in,
  whichever form (\<open>m\<close>, the media form or the plain one) the handler's extractor has. A request
  with a session header or cookie is treated alike: what the gate turns away the extractor would
  have refused with the same status, and what it lets through, after touching the credential's
  last use, reaches the handler as the very user the gate resolved. A request without one is let
  through by the gate when it is a GET of a media path whose query token resolves, and by the
  extractor when it is of the media form, no other Authorization header is there and the
  query token resolves: so they part on a HEAD of a media path, on a foreign Authorization
  header, and on a media path whose handler has the plain form.
\<close>

theorem gate_and_extractor_agree:
  assumes "\<not> ungated (rq_path rq)" "query_ok rq"
  shows "case extract_token rq of
      Some (t, k) \<Rightarrow>
        (case require_auth env rq db of
           Inl code \<Rightarrow> resolve_auth_user env m rq db = Inl code
         | Inr db' \<Rightarrow> \<exists>u s s' db''. resolve_token env t db = Inr ((u, s), db') \<and>
             resolve_auth_user env m rq db' = Inr ((u, s'), db''))
    | None \<Rightarrow>
        (\<forall>db'. require_auth env rq db = Inr db' \<longleftrightarrow>
           is_media rq \<and>
           (\<exists>t u s. query_token (rq_query rq) = Some t \<and> resolve_token env t db = Inr ((u, s), db'))) \<and>
        (\<forall>r. resolve_auth_user env m rq db = Inr r \<longleftrightarrow>
           m \<and> rq_authorization rq = None \<and>
           (\<exists>t. query_token (rq_query rq) = Some t \<and> resolve_token env t db = Inr r))"
proof (cases "extract_token rq")
  case None
  then show ?thesis using gate_query [OF assms(1) None] extractor_query [OF assms(2) None] by simp
next
  case (Some p)
  then obtain t k where "extract_token rq = Some (t, k)" by (cases p) auto
  with gate_token_user [OF assms(1) this, where env = env and db = db and m = m] show ?thesis by simp
qed

definition cover_request :: "ustr option \<Rightarrow> request" where
  "cover_request authorization =
     \<lparr> rq_method = GET, rq_path = str ''/api/covers/7'', rq_query = Some (str ''size=2&token=t1''),
       rq_authorization = authorization, rq_cookie = None, rq_host = None, rq_origin = None,
       rq_referer = None \<rparr>"

lemma cover_request_facts:
  "\<not> ungated (rq_path (cover_request a))" "is_media (cover_request a)" "query_ok (cover_request a)"
  "query_token (rq_query (cover_request a)) = Some (str ''t1'')"
proof -
  show "\<not> ungated (rq_path (cover_request a))" "is_media (cover_request a)"
    "query_token (rq_query (cover_request a)) = Some (str ''t1'')"
    by (simp_all only: cover_request_def request.simps is_media_def) code_simp+
  have "list_all (\<lambda>c. \<not> is_whitespace c) (str ''size=2&token=t1'')" by code_simp
  then show "query_ok (cover_request a)" by (simp add: query_ok_def cover_request_def list_all_iff)
qed

lemma t1_resolves:
  "map_sum id (\<lambda>((u, s), db). usr_username u) (resolve_token (plain_env 951 []) (str ''t1'') plain_db) =
     Inr (str ''ada'')"
  by code_simp

text \<open>
  A cover asked for with a live token in the query: a GET passes both; a HEAD is refused by the
  gate and would have been let in by the extractor.
\<close>

theorem gate_and_extractor_agree_witness:
  "(\<exists>db' r. require_auth (plain_env 951 []) (cover_request None) plain_db = Inr db' \<and>
     media_auth_user (plain_env 951 []) (cover_request None) plain_db = Inr r) \<and>
   (\<exists>r. (\<forall>db'. require_auth (plain_env 951 []) (cover_request None\<lparr> rq_method := HEAD \<rparr>) plain_db \<noteq> Inr db') \<and>
     media_auth_user (plain_env 951 []) (cover_request None\<lparr> rq_method := HEAD \<rparr>) plain_db = Inr r) \<and>
   (\<forall>r. auth_user (plain_env 951 []) (cover_request None) plain_db \<noteq> Inr r)"
proof -
  let ?h = "cover_request None\<lparr> rq_method := HEAD \<rparr>"
  have head: "\<not> ungated (rq_path ?h)" "query_ok ?h" "\<not> is_media ?h"
    "query_token (rq_query ?h) = Some (str ''t1'')"
    using cover_request_facts [of None] by (simp_all add: query_ok_def is_media_def)
  have none: "extract_token (cover_request None) = None" "extract_token ?h = None"
    "rq_authorization (cover_request None) = None" "rq_authorization ?h = None"
    by (simp_all add: extract_token_def cover_request_def parse_session_token_def bearer_token_def)
  obtain u s db' where r: "resolve_token (plain_env 951 []) (str ''t1'') plain_db = Inr ((u, s), db')"
    using t1_resolves by (cases "resolve_token (plain_env 951 []) (str ''t1'') plain_db") auto
  show ?thesis
    using gate_and_extractor_agree [OF cover_request_facts(1,3) [of None], of "plain_env 951 []" plain_db True]
      gate_and_extractor_agree [OF cover_request_facts(1,3) [of None], of "plain_env 951 []" plain_db False]
      gate_and_extractor_agree [OF head(1,2), of "plain_env 951 []" plain_db True]
      none r head cover_request_facts(2,4) [of None]
    by (auto simp: media_auth_user_def auth_user_def)
qed

text \<open>
  the foreign header at work: a media read with a live token in its query and
  some other Authorization header, such as Basic credentials a reverse proxy asked for, passes
  the gate and is refused by the extractor of its handler.
\<close>

theorem basic_header_divides_gate_and_extractor:
  assumes "\<not> ungated (rq_path rq)" "is_media rq" "extract_token rq = None"
    and "rq_authorization rq \<noteq> None" "query_token (rq_query rq) = Some t"
    and "resolve_token env t db = Inr ((u, s), db')"
  shows "require_auth env rq db = Inr db' \<and> media_auth_user env rq db' = Inl 401"
proof -
  obtain a where a: "rq_authorization rq = Some a" using assms(4) by blast
  then have "parse_session_token (Some a) (rq_cookie rq) = None" using assms(3) by (simp add: extract_token_def)
  with a assms show ?thesis
    by (simp add: require_auth_def gate_token_def media_auth_user_def resolve_auth_user_def
        validate_session_def Let_def)
qed

theorem basic_header_divides_gate_and_extractor_witness:
  "\<exists>db'. require_auth (plain_env 951 []) (cover_request (Some (str ''Basic YTpi''))) plain_db = Inr db' \<and>
     media_auth_user (plain_env 951 []) (cover_request (Some (str ''Basic YTpi''))) db' = Inl 401"
proof -
  let ?rq = "cover_request (Some (str ''Basic YTpi''))"
  have "extract_token ?rq = None" by code_simp
  moreover have "rq_authorization ?rq \<noteq> None" by (simp add: cover_request_def)
  moreover obtain u s db' where "resolve_token (plain_env 951 []) (str ''t1'') plain_db = Inr ((u, s), db')"
    using t1_resolves by (cases "resolve_token (plain_env 951 []) (str ''t1'') plain_db") auto
  ultimately show ?thesis
    using basic_header_divides_gate_and_extractor [OF cover_request_facts(1,2) _ _ cover_request_facts(4)]
    by blast
qed

subsection \<open>Signing in as somebody else\<close>

text \<open>A swap: the old session is revoked and a new one minted in its place.\<close>

lemma revoke_session_checked_Inr:
  "revoke_session_checked env i db = Inr db' \<longleftrightarrow>
     (\<exists>r \<in> set (sessions db). s_id r = i \<and> s_revoked_at r = None) \<and>
     db' = revoke_where (\<lambda>r. s_id r = i \<and> s_revoked_at r = None) (now env) db"
  by (auto simp: revoke_session_checked_def Let_def)

lemma fetch_append_other: "\<not> P x \<Longrightarrow> fetch_optional P (rows @ [x]) = fetch_optional P rows"
  by (induction rows) (auto simp: fetch_optional_def)

lemma minted_keeps_others:
  assumes "insert_session env uid did imp kind ttl ua db = Inr (ns, db')" "r \<in> set (sessions db)"
  shows "resolve_session t (s_token_hash r) db' = resolve_session t (s_token_hash r) db"
proof -
  from assms(1) obtain row where "\<forall>r \<in> set (sessions db). s_token_hash r \<noteq> s_token_hash row"
    "sessions db' = sessions db @ [row]"
    by (force simp: insert_session_def and_then_Inr Let_def list_ex_iff split: if_splits)
  moreover from this assms(2) have "s_token_hash row \<noteq> s_token_hash r" by metis
  ultimately show ?thesis by (simp add: resolve_session_def fetch_append_other)
qed

lemma revoked_resolves_none:
  assumes "distinct (map s_token_hash (sessions db))" "r \<in> set (sessions db)" "s_id r = i"
  shows "resolve_session t (s_token_hash r) (revoke_where (\<lambda>r. s_id r = i \<and> s_revoked_at r = None) t' db) = None"
proof (cases "s_revoked_at r = None")
  case True
  then show ?thesis
    using session_store.revoked_stays_out [OF assms(1,2), of "\<lambda>r. s_id r = i \<and> s_revoked_at r = None" t t']
    assms(3) by simp
next
  case False
  have "resolve_session t (s_token_hash r) db = None"
    using fetch_unique [OF assms(1,2) refl] False by (simp add: resolve_session_def session_live_def)
  then show ?thesis
    using session_store.others_unaffected [OF assms(1,2), of "\<lambda>r. s_id r = i \<and> s_revoked_at r = None" t t'] False
    by simp
qed

text \<open>
  an administrator who signs in as somebody gives up their own session for it. When the
  handler answers with a new session, the old one resolves no longer, every other session
  resolves as before, and the new token is good for an hour, as that user, in a session that
  names the administrator. Nobody gets there from inside an impersonation, without a browser
  session, or onto their own account.
\<close>

theorem impersonation_swaps_sessions:
  assumes "impersonate_handler env (admin, s) ua uid db = Inr (ns, db')"
    and "distinct (map s_token_hash (sessions db))"
  shows "ses_kind s = Cookie \<and> ses_impersonator_id s = None \<and> uid \<noteq> usr_id admin \<and>
    ses_impersonator_id (ns_session ns) = Some (usr_id admin) \<and> ses_user_id (ns_session ns) = uid \<and>
    (\<exists>u. get_user_by_id uid db = Some u \<and>
      (\<forall>t. session_answer (lookup_session (env\<lparr> now := t \<rparr>) (ns_raw_token ns) db') =
        (if t < now env + 3600 then Inr (u, ns_session ns) else Inl SessionNotFound))) \<and>
    (\<forall>r \<in> set (sessions db). \<forall>t. resolve_session t (s_token_hash r) db' =
        (if s_id r = ses_id s then None else resolve_session t (s_token_hash r) db))"
proof -
  let ?P = "\<lambda>r. s_id r = ses_id s \<and> s_revoked_at r = None"
  let ?db = "revoke_where ?P (now env) db"
  have guards: "ses_kind s = Cookie" "ses_impersonator_id s = None" "uid \<noteq> usr_id admin"
    using assms(1) by (auto simp: impersonate_handler_def split: if_splits)
  with assms(1) obtain target where target: "get_user_by_id uid db = Some target"
    and swap: "begin_impersonation env admin s (usr_id target) ua db = Inr (ns, db')"
    by (auto simp: impersonate_handler_def split: option.splits sum.splits)
  obtain ur where ur: "fetch_optional (\<lambda>u. u_id u = uid) (users db) = Some ur" "target = row_to_user db ur"
    using target by (auto simp: get_user_by_id_def)
  have id: "usr_id target = uid" using fetch_optional_Some [OF ur(1)] ur(2) by (simp add: row_to_user_def)
  have mint: "insert_session env uid None (Some (usr_id admin)) Cookie IMPERSONATION_TTL_SECS ua ?db = Inr (ns, db')"
    using swap id by (auto simp: begin_impersonation_def and_then_Inr revoke_session_checked_Inr
        create_impersonation_session_def)
  have us: "users ?db = users db" "row_to_user ?db ur = row_to_user db ur"
    by (simp_all add: revoke_where_def row_to_user_def has_avatar_def)
  have rows: "sessions ?db = update_where ?P (\<lambda>r. r\<lparr> s_revoked_at := Some (now env) \<rparr>) (sessions db)"
    by (simp add: revoke_where_def)
  have new: "session_answer (lookup_session (env\<lparr> now := t \<rparr>) (ns_raw_token ns) db') =
        (if t < now env + 3600 then Inr (target, ns_session ns) else Inl SessionNotFound)" for t
    using minted_session_lookup [OF mint, of ur t] ur us
    by (auto simp: IMPERSONATION_TTL_SECS_def SESSION_IDLE_TIMEOUT_SECS_def)
  have fields: "ses_impersonator_id (ns_session ns) = Some (usr_id admin)" "ses_user_id (ns_session ns) = uid"
    using mint by (auto simp: insert_session_def and_then_Inr Let_def split: if_splits)
  have old: "resolve_session t (s_token_hash r) db' =
      (if s_id r = ses_id s then None else resolve_session t (s_token_hash r) db)"
    if r: "r \<in> set (sessions db)" for r t
  proof -
    have mem: "(if ?P r then r\<lparr> s_revoked_at := Some (now env) \<rparr> else r) \<in> set (sessions ?db)"
      unfolding rows by (rule mem_update_where [OF r])
    have same: "s_token_hash (if ?P r then r\<lparr> s_revoked_at := Some (now env) \<rparr> else r) = s_token_hash r"
      by simp
    have "resolve_session t (s_token_hash r) db' = resolve_session t (s_token_hash r) ?db"
      using minted_keeps_others [OF mint mem, of t] unfolding same .
    also have "\<dots> = (if s_id r = ses_id s then None else resolve_session t (s_token_hash r) db)"
      using revoked_resolves_none [OF assms(2) r, of "ses_id s" t "now env"]
        session_store.others_unaffected [OF assms(2) r, of ?P t "now env"] by simp
    finally show ?thesis .
  qed
  have "\<exists>u. get_user_by_id uid db = Some u \<and>
      (\<forall>t. session_answer (lookup_session (env\<lparr> now := t \<rparr>) (ns_raw_token ns) db') =
        (if t < now env + 3600 then Inr (u, ns_session ns) else Inl SessionNotFound))"
    using target new by (intro exI [of _ target] conjI allI)
  with guards fields old show ?thesis by (intro conjI ballI allI) assumption+
qed

definition ada_session :: session where
  "ada_session =
     \<lparr> ses_id = 1, ses_user_id = 1, ses_device_id = None, ses_impersonator_id = None,
       ses_kind = Cookie, ses_created_at = 0, ses_last_used_at = 900, ses_expires_at = 5000,
       ses_user_agent = None \<rparr>"

definition ada :: user where
  "ada = row_to_user plain_db (plain_user 1 (str ''ada'') (str ''pw''))"

theorem impersonation_swaps_sessions_witness:
  "\<exists>ns db'. impersonate_handler (plain_env 951 (str ''new'')) (ada, ada_session) None 2 plain_db = Inr (ns, db') \<and>
     resolve_session 951 (str ''t1'') db' = None \<and> resolve_session 951 (str ''t3'') db' \<noteq> None"
proof -
  let ?h = "impersonate_handler (plain_env 951 (str ''new'')) (ada, ada_session) None 2 plain_db"
  have "case ?h of Inr _ \<Rightarrow> True | Inl _ \<Rightarrow> False" by code_simp
  then obtain ns db' where i: "?h = Inr (ns, db')" by (cases ?h) auto
  have d: "distinct (map s_token_hash (sessions plain_db))" by code_simp
  have mem: "plain_session 1 (str ''t1'') 1 900 5000 \<in> set (sessions plain_db)"
    "plain_session 3 (str ''t3'') 2 900 5000 \<in> set (sessions plain_db)"
    by (simp_all add: plain_db_def)
  have live: "resolve_session 951 (str ''t3'') plain_db \<noteq> None" by code_simp
  have "\<forall>r \<in> set (sessions plain_db). \<forall>t. resolve_session t (s_token_hash r) db' =
      (if s_id r = ses_id ada_session then None else resolve_session t (s_token_hash r) plain_db)"
    using impersonation_swaps_sessions [OF i d] by blast
  from bspec [OF this mem(1), THEN spec, of 951] bspec [OF this mem(2), THEN spec, of 951] live i
  show ?thesis by (simp add: plain_session_def ada_session_def)
qed

end
