(* ===== verification/Requests.thy ===== *)
theory Requests
  imports Omni_Prelude Complex_Main
begin

text \<open>
  Book requests (\<open>db/src/requests/store.rs\<close> with \<open>store/change.rs\<close> and
  \<open>store/download.rs\<close>, \<open>poller.rs\<close>, \<open>shared/src/book_requests.rs\<close>): the two tables,
  every operation on them, and the poller's work on the download client. Stored tokens are
  their constructors (the CHECK constraints allow no others), download progress is an exact
  rational, and \<open>sql_now\<close> is the database clock that stamps \<open>updated_at\<close>.
\<close>

subsection \<open>Rows\<close>

datatype request_kind = Ebook | Audiobook

datatype request_state = Looking | Choose | Chosen | OnItsWay | Ready | Stuck | Cancelled

datatype stuck_reason = NotFoundReason | SearchFailed | StoppedMoving | CouldntAdd

datatype request_error = TooManyLive | WrongState | NotFound | DbError

record request_row =
  q_id :: int
  q_book_uuid :: ustr
  q_user_id :: int
  q_kind :: request_kind
  q_state :: request_state
  q_stuck_reason :: "stuck_reason option"
  q_stuck_detail :: "ustr option"
  q_chosen_result_id :: "int option"
  q_client_tag :: "ustr option"
  q_import_key :: "ustr option"
  q_remove_tag :: "ustr option"
  q_remove_since :: "int option"
  q_progress :: "rat option"
  q_moved_at :: "int option"
  q_cancel_at :: "int option"
  q_cancelled_by :: "int option"
  q_prior_state :: "request_state option"
  q_note :: "ustr option"
  q_created_at :: int
  q_updated_at :: int

record release =
  rel_guid :: ustr
  rel_title :: ustr
  rel_size_bytes :: "int option"
  rel_seeders :: "int option"
  rel_indexer :: "ustr option"
  rel_link :: ustr

record ranked =
  rk_release :: release
  rk_format :: "ustr option"
  rk_score :: rat
  rk_best_match :: bool
  rk_rejected :: bool

record result_row =
  v_id :: int
  v_request_id :: int
  v_release :: release
  v_format :: "ustr option"
  v_score :: rat
  v_best_match :: bool
  v_rejected :: bool
  v_tried :: bool

record requests_db =
  requests :: "request_row list"
  request_seq :: int
  results :: "result_row list"
  result_seq :: int

record request_version =
  rv_id :: int
  rv_title :: ustr
  rv_size_bytes :: "int option"
  rv_format :: "ustr option"
  rv_indexer :: "ustr option"
  rv_best_match :: bool
  rv_rejected :: bool

datatype search_outcome = Found "ranked list" | StuckOn stuck_reason "ustr option"

definition live_state :: "request_state \<Rightarrow> bool" where
  "live_state s \<longleftrightarrow> s = Looking \<or> s = Choose \<or> s = Chosen \<or> s = OnItsWay"

definition downloading_row :: "request_row \<Rightarrow> bool" where
  "downloading_row r \<longleftrightarrow>
     q_state r = OnItsWay \<and> (case q_progress r of None \<Rightarrow> True | Some p \<Rightarrow> p < 1)"

definition get_request :: "int \<Rightarrow> requests_db \<Rightarrow> request_row option" where
  "get_request i db = fetch_optional (\<lambda>r. q_id r = i) (requests db)"

definition update_requests ::
  "(request_row \<Rightarrow> bool) \<Rightarrow> (request_row \<Rightarrow> request_row) \<Rightarrow> requests_db \<Rightarrow> requests_db" where
  "update_requests P f db = db\<lparr> requests := update_where P f (requests db) \<rparr>"

subsection \<open>Starting and searching\<close>

text \<open>The row, whether it is new, and the tables.\<close>

definition start ::
  "int \<Rightarrow> int \<Rightarrow> ustr \<Rightarrow> request_kind \<Rightarrow> int \<Rightarrow> requests_db \<Rightarrow>
     request_error + (request_row \<times> bool) \<times> requests_db" where
  "start sql_now user_id book_uuid k max_live db =
     (case fetch_optional (\<lambda>r. q_user_id r = user_id \<and> q_book_uuid r = book_uuid \<and> q_kind r = k \<and>
                             live_state (q_state r)) (requests db) of
        Some row \<Rightarrow> Inr ((row, False), db)
      | None \<Rightarrow>
          if int (rows_affected (\<lambda>r. q_user_id r = user_id \<and> live_state (q_state r)) (requests db))
               \<ge> max_live
          then Inl TooManyLive
          else
            let i = request_seq db + 1;
                row = \<lparr> q_id = i, q_book_uuid = book_uuid, q_user_id = user_id, q_kind = k,
                        q_state = Looking, q_stuck_reason = None, q_stuck_detail = None,
                        q_chosen_result_id = None, q_client_tag = None, q_import_key = None,
                        q_remove_tag = None, q_remove_since = None, q_progress = None,
                        q_moved_at = None, q_cancel_at = None, q_cancelled_by = None,
                        q_prior_state = None, q_note = None, q_created_at = sql_now,
                        q_updated_at = sql_now \<rparr>
            in Inr ((row, True), db\<lparr> requests := requests db @ [row], request_seq := i \<rparr>))"

definition list_for_book :: "ustr \<Rightarrow> requests_db \<Rightarrow> request_row list" where
  "list_for_book book_uuid db =
     sort_key (\<lambda>r. - q_id r) (filter (\<lambda>r. q_book_uuid r = book_uuid) (requests db))"

definition versions :: "int \<Rightarrow> requests_db \<Rightarrow> request_version list" where
  "versions i db =
     map (\<lambda>v. \<lparr> rv_id = v_id v, rv_title = rel_title (v_release v),
                rv_size_bytes = rel_size_bytes (v_release v), rv_format = v_format v,
                rv_indexer = rel_indexer (v_release v), rv_best_match = v_best_match v,
                rv_rejected = v_tried v \<rparr>)
       (sort_key (\<lambda>v. if v_tried v then (1 :: nat) else 0)
         (sort_key (\<lambda>v. - v_score v)
           (sort_key v_id
             (filter (\<lambda>v. v_request_id v = i \<and> (\<not> v_rejected v \<or> v_tried v)) (results db)))))"

definition without_given_up :: "int \<Rightarrow> ranked list \<Rightarrow> requests_db \<Rightarrow> search_outcome" where
  "without_given_up i rs db =
     (let given_up = map (\<lambda>v. rel_guid (v_release v))
                       (filter (\<lambda>v. v_request_id v = i \<and> v_tried v) (results db));
          kept = filter (\<lambda>r. \<not> list_ex (\<lambda>g. g = rel_guid (rk_release r)) given_up) rs
      in if list_all rk_rejected kept then StuckOn NotFoundReason None else Found kept)"

definition insert_result :: "int \<Rightarrow> ranked \<Rightarrow> requests_db \<Rightarrow> requests_db" where
  "insert_result i r db =
     (let n = result_seq db + 1 in
      db\<lparr> results := results db @
            [\<lparr> v_id = n, v_request_id = i, v_release = rk_release r, v_format = rk_format r,
               v_score = rk_score r, v_best_match = rk_best_match r, v_rejected = rk_rejected r,
               v_tried = False \<rparr>],
          result_seq := n \<rparr>)"

definition finish_search :: "int \<Rightarrow> int \<Rightarrow> search_outcome \<Rightarrow> requests_db \<Rightarrow> requests_db" where
  "finish_search sql_now i outcome db =
     (let outcome = (case outcome of Found rs \<Rightarrow> without_given_up i rs db | stuck \<Rightarrow> stuck);
          (st, reason, detail) =
            (case outcome of Found _ \<Rightarrow> (Choose, None, None) | StuckOn r d \<Rightarrow> (Stuck, Some r, d));
          P = (\<lambda>r. q_id r = i \<and> q_state r = Looking)
      in
      if rows_affected P (requests db) = 0 then db
      else
        let db' = update_requests P (\<lambda>r. r\<lparr> q_state := st, q_stuck_reason := reason,
                    q_stuck_detail := detail, q_updated_at := sql_now \<rparr>) db
        in case outcome of
             Found rs \<Rightarrow>
               fold (insert_result i) rs
                 (db'\<lparr> results := delete_where (\<lambda>v. v_request_id v = i \<and> \<not> v_tried v) (results db') \<rparr>)
           | StuckOn _ _ \<Rightarrow> db')"

subsection \<open>Changes by the reader\<close>

definition CANCEL_GRACE_SECS :: int where "CANCEL_GRACE_SECS = 10"

definition kept_version :: "int \<Rightarrow> int \<Rightarrow> requests_db \<Rightarrow> bool" where
  "kept_version i result db \<longleftrightarrow>
     list_ex (\<lambda>v. v_id v = result \<and> v_request_id v = i \<and> \<not> v_rejected v) (results db)"

definition choose_version :: "int \<Rightarrow> int \<Rightarrow> int \<Rightarrow> requests_db \<Rightarrow> request_error + requests_db" where
  "choose_version sql_now i result db =
     (let P = (\<lambda>r. q_id r = i \<and> q_state r = Choose \<and> kept_version i result db) in
      if rows_affected P (requests db) = 1
      then Inr (update_requests P (\<lambda>r. r\<lparr> q_state := Chosen, q_chosen_result_id := Some result,
                  q_note := None, q_updated_at := sql_now \<rparr>) db)
      else case get_request i db of
             Some r \<Rightarrow> if q_state r \<noteq> Choose then Inl WrongState else Inl NotFound
           | None \<Rightarrow> Inl NotFound)"

definition cancel :: "int \<Rightarrow> int \<Rightarrow> int \<Rightarrow> int \<Rightarrow> requests_db \<Rightarrow> request_error + requests_db" where
  "cancel sql_now i by_user t db =
     (let P = (\<lambda>r. q_id r = i \<and>
                 (q_state r = Looking \<or> q_state r = Choose \<or> q_state r = Chosen \<or> downloading_row r))
      in if rows_affected P (requests db) = 0 then Inl WrongState
         else Inr (update_requests P (\<lambda>r. r\<lparr> q_prior_state := Some (q_state r), q_state := Cancelled,
                     q_cancelled_by := Some by_user, q_cancel_at := Some (t + CANCEL_GRACE_SECS),
                     q_updated_at := sql_now \<rparr>) db))"

definition ensure_room :: "int \<Rightarrow> int \<Rightarrow> requests_db \<Rightarrow> request_error + unit" where
  "ensure_room i max_live db =
     (case get_request i db of
        None \<Rightarrow> Inl DbError
      | Some q \<Rightarrow>
          let all_live = rows_affected (\<lambda>o'. q_user_id o' = q_user_id q \<and> live_state (q_state o')) (requests db);
              same = rows_affected (\<lambda>o'. q_user_id o' = q_user_id q \<and> q_book_uuid o' = q_book_uuid q \<and>
                       q_kind o' = q_kind q \<and> live_state (q_state o')) (requests db)
          in if same > 0 then Inl WrongState
             else if int all_live \<ge> max_live then Inl TooManyLive else Inr ())"

definition undoable :: "int \<Rightarrow> request_row \<Rightarrow> bool" where
  "undoable t r \<longleftrightarrow> q_state r = Cancelled \<and> (case q_cancel_at r of Some due \<Rightarrow> due > t | None \<Rightarrow> False)"

definition undo_cancel :: "int \<Rightarrow> int \<Rightarrow> int \<Rightarrow> int \<Rightarrow> requests_db \<Rightarrow> request_error + requests_db" where
  "undo_cancel sql_now i t max_live db =
     and_then (require (list_ex (\<lambda>r. q_id r = i \<and> undoable t r \<and> q_prior_state r \<noteq> None) (requests db)) WrongState) (\<lambda>_.
     and_then (ensure_room i max_live db) (\<lambda>_.
     Inr (update_requests (\<lambda>r. q_id r = i \<and> undoable t r)
       (\<lambda>r. r\<lparr> q_state := (case q_prior_state r of Some p \<Rightarrow> p | None \<Rightarrow> q_state r),
               q_prior_state := None, q_cancelled_by := None, q_cancel_at := None,
               q_updated_at := sql_now \<rparr>) db)))"

definition swap_in :: "int \<Rightarrow> int \<Rightarrow> int \<Rightarrow> ustr option \<Rightarrow> requests_db \<Rightarrow> request_error + requests_db" where
  "swap_in sql_now i t note db =
     (case fetch_optional (\<lambda>r. q_id r = i \<and> q_remove_tag r = None \<and>
             (downloading_row r \<or> (q_state r = Stuck \<and> q_stuck_reason r = Some StoppedMoving)))
             (requests db) of
        None \<Rightarrow> Inl WrongState
      | Some picked \<Rightarrow>
          let vs = update_where (\<lambda>v. Some (v_id v) = q_chosen_result_id picked)
                     (\<lambda>v. v\<lparr> v_rejected := True, v_tried := True \<rparr>) (results db);
              others = list_ex (\<lambda>v. v_request_id v = i \<and> \<not> v_rejected v) vs
          in Inr (update_requests (\<lambda>r. q_id r = i)
               (\<lambda>r. r\<lparr> q_state := (if others then Choose else Looking),
                       q_remove_tag := q_client_tag r,
                       q_remove_since := (if q_client_tag r = None then None else Some t),
                       q_client_tag := None, q_chosen_result_id := None, q_progress := None,
                       q_moved_at := None, q_stuck_reason := None, q_stuck_detail := None,
                       q_note := note, q_updated_at := sql_now \<rparr>)
               (db\<lparr> results := vs \<rparr>)))"

definition swap :: "int \<Rightarrow> int \<Rightarrow> int \<Rightarrow> ustr option \<Rightarrow> requests_db \<Rightarrow> request_error + requests_db" where
  "swap sql_now i t note db = swap_in sql_now i t note db"

text \<open>The state \<open>restart\<close> reports is the row's, read back by the caller.\<close>

definition restart :: "int \<Rightarrow> int \<Rightarrow> int \<Rightarrow> int \<Rightarrow> requests_db \<Rightarrow> request_error + requests_db" where
  "restart sql_now i t max_live db =
     (let stuck_on = (\<lambda>reason. case get_request i db of
                        Some r \<Rightarrow> q_state r = Stuck \<and> q_stuck_reason r = Some reason | None \<Rightarrow> False)
      in
      if stuck_on StoppedMoving then swap_in sql_now i t None db
      else if stuck_on CouldntAdd then
        and_then (ensure_room i max_live db) (\<lambda>_.
        Inr (update_requests (\<lambda>r. q_id r = i)
          (\<lambda>r. r\<lparr> q_state := OnItsWay, q_progress := Some 1, q_stuck_reason := None,
                  q_stuck_detail := None, q_updated_at := sql_now \<rparr>) db))
      else
        let P = (\<lambda>r. q_id r = i \<and> (q_state r = Looking \<or> q_state r = Stuck)) in
        if rows_affected P (requests db) = 0 then Inl WrongState
        else
          let db' = update_requests P (\<lambda>r. r\<lparr> q_state := Looking, q_stuck_reason := None,
                      q_stuck_detail := None, q_updated_at := sql_now \<rparr>) db
          in Inr (db'\<lparr> results := delete_where (\<lambda>v. v_request_id v = i) (results db') \<rparr>))"

subsection \<open>What the poller writes\<close>

definition claim_due_cancels :: "int \<Rightarrow> requests_db \<Rightarrow> requests_db" where
  "claim_due_cancels t db =
     update_requests
       (\<lambda>r. (case q_cancel_at r of Some due \<Rightarrow> due \<le> t | None \<Rightarrow> False) \<and>
            (q_remove_tag r = None \<or> q_client_tag r = None))
       (\<lambda>r. r\<lparr> q_remove_tag := (case q_client_tag r of Some tag \<Rightarrow> Some tag | None \<Rightarrow> q_remove_tag r),
               q_remove_since := (if q_client_tag r = None then q_remove_since r else Some t),
               q_client_tag := None, q_cancel_at := None \<rparr>) db"

definition pending_removals :: "requests_db \<Rightarrow> request_row list" where
  "pending_removals db = sort_key q_id (filter (\<lambda>r. q_remove_tag r \<noteq> None) (requests db))"

definition mark_removal_seen :: "int \<Rightarrow> ustr \<Rightarrow> requests_db \<Rightarrow> requests_db" where
  "mark_removal_seen i tag db =
     update_requests (\<lambda>r. q_id r = i \<and> q_remove_tag r = Some tag) (\<lambda>r. r\<lparr> q_remove_since := None \<rparr>) db"

definition finish_removal :: "int \<Rightarrow> ustr \<Rightarrow> requests_db \<Rightarrow> requests_db" where
  "finish_removal i tag db =
     update_requests (\<lambda>r. q_id r = i \<and> q_remove_tag r = Some tag)
       (\<lambda>r. r\<lparr> q_remove_tag := None, q_remove_since := None \<rparr>) db"

definition awaiting_add :: "requests_db \<Rightarrow> request_row list" where
  "awaiting_add db =
     sort_key q_id (filter (\<lambda>r. q_state r = Chosen \<and> q_chosen_result_id r \<noteq> None) (requests db))"

definition tag_of :: "int \<Rightarrow> int \<Rightarrow> ustr" where
  "tag_of i result = str ''omnibus-'' @ show_int i @ [45] @ show_int result"

definition addable :: "int \<Rightarrow> request_row \<Rightarrow> bool" where
  "addable i r \<longleftrightarrow> q_id r = i \<and> q_state r = Chosen \<and> q_chosen_result_id r \<noteq> None"

definition begin_download :: "int \<Rightarrow> requests_db \<Rightarrow> (ustr \<times> ustr) option \<times> requests_db" where
  "begin_download i db =
     (case fetch_optional (addable i) (requests db) of
        None \<Rightarrow> (None, db)
      | Some r \<Rightarrow>
          let result = (case q_chosen_result_id r of Some c \<Rightarrow> c | None \<Rightarrow> 0);
              db' = update_requests (addable i)
                      (\<lambda>r. r\<lparr> q_client_tag := map_option (tag_of (q_id r)) (q_chosen_result_id r) \<rparr>) db
          in (map_option (\<lambda>v. (tag_of i result, rel_link (v_release v)))
                (fetch_optional (\<lambda>v. v_id v = result) (results db')), db'))"

definition mark_on_its_way :: "int \<Rightarrow> int \<Rightarrow> int \<Rightarrow> requests_db \<Rightarrow> requests_db" where
  "mark_on_its_way sql_now i t db =
     update_requests (\<lambda>r. q_id r = i \<and> q_state r = Chosen)
       (\<lambda>r. r\<lparr> q_state := OnItsWay, q_moved_at := Some t, q_updated_at := sql_now \<rparr>) db"

definition downloading :: "requests_db \<Rightarrow> request_row list" where
  "downloading db =
     sort_key q_id (filter (\<lambda>r. downloading_row r \<and> q_client_tag r \<noteq> None) (requests db))"

definition awaiting_import :: "requests_db \<Rightarrow> request_row list" where
  "awaiting_import db =
     sort_key q_id (filter (\<lambda>r. q_state r = OnItsWay \<and>
       (case q_progress r of Some p \<Rightarrow> p \<ge> 1 | None \<Rightarrow> False) \<and> q_client_tag r \<noteq> None) (requests db))"

text \<open>Every write after a verdict names the pick it was read for; a NULL pick matches nothing.\<close>

definition same_pick :: "int \<Rightarrow> int option \<Rightarrow> request_row \<Rightarrow> bool" where
  "same_pick i chosen r \<longleftrightarrow> q_id r = i \<and> chosen \<noteq> None \<and> q_chosen_result_id r = chosen"

definition set_import_key :: "int \<Rightarrow> int option \<Rightarrow> ustr \<Rightarrow> requests_db \<Rightarrow> requests_db" where
  "set_import_key i chosen key db =
     update_requests (\<lambda>r. same_pick i chosen r \<and> q_state r = OnItsWay) (\<lambda>r. r\<lparr> q_import_key := Some key \<rparr>) db"

definition mark_ready :: "int \<Rightarrow> int \<Rightarrow> int option \<Rightarrow> requests_db \<Rightarrow> requests_db" where
  "mark_ready sql_now i chosen db =
     update_requests (\<lambda>r. same_pick i chosen r \<and> q_state r = OnItsWay)
       (\<lambda>r. r\<lparr> q_state := Ready, q_updated_at := sql_now \<rparr>) db"

definition record_progress :: "int \<Rightarrow> int option \<Rightarrow> rat \<Rightarrow> int \<Rightarrow> requests_db \<Rightarrow> requests_db" where
  "record_progress i chosen p t db =
     update_requests (\<lambda>r. same_pick i chosen r \<and> q_state r = OnItsWay)
       (\<lambda>r. r\<lparr> q_progress := Some p, q_moved_at := Some t \<rparr>) db"

definition mark_stuck ::
  "int \<Rightarrow> int \<Rightarrow> int option \<Rightarrow> stuck_reason \<Rightarrow> ustr \<Rightarrow> requests_db \<Rightarrow> requests_db" where
  "mark_stuck sql_now i chosen reason detail db =
     update_requests (\<lambda>r. same_pick i chosen r \<and> (q_state r = Chosen \<or> q_state r = OnItsWay))
       (\<lambda>r. r\<lparr> q_state := Stuck, q_stuck_reason := Some reason, q_stuck_detail := Some detail,
               q_updated_at := sql_now \<rparr>) db"

definition has_download_work :: "requests_db \<Rightarrow> bool" where
  "has_download_work db \<longleftrightarrow>
     list_ex (\<lambda>r. q_state r = Chosen \<or> q_cancel_at r \<noteq> None \<or> q_remove_tag r \<noteq> None \<or> downloading_row r)
       (requests db)"

subsection \<open>What happens to the book or the account\<close>

text \<open>
  A merge retargets the source's requests and an undo moves those of them that are still on the
  target back (\<open>db/src/merge/transaction.rs\<close>, \<open>relocation.rs\<close>); neither looks at what the
  reader has live on the other book.
\<close>

definition retarget_requests :: "ustr \<Rightarrow> ustr \<Rightarrow> requests_db \<Rightarrow> requests_db" where
  "retarget_requests src tgt db =
     update_requests (\<lambda>r. q_book_uuid r = src) (\<lambda>r. r\<lparr> q_book_uuid := tgt \<rparr>) db"

definition return_requests :: "ustr \<Rightarrow> ustr \<Rightarrow> int list \<Rightarrow> requests_db \<Rightarrow> requests_db" where
  "return_requests src tgt ids db =
     update_requests (\<lambda>r. q_book_uuid r = tgt \<and> List.member ids (q_id r)) (\<lambda>r. r\<lparr> q_book_uuid := src \<rparr>) db"

text \<open>Deleted requests take their versions with them.\<close>

definition delete_requests :: "(request_row \<Rightarrow> bool) \<Rightarrow> requests_db \<Rightarrow> requests_db" where
  "delete_requests P db =
     db\<lparr> requests := delete_where P (requests db),
         results := delete_where (\<lambda>v. list_ex (\<lambda>r. P r \<and> q_id r = v_request_id v) (requests db)) (results db) \<rparr>"

definition drop_requests :: "int \<Rightarrow> ustr \<Rightarrow> requests_db \<Rightarrow> requests_db" where
  "drop_requests sql_now uuid db =
     delete_requests (\<lambda>r. q_book_uuid r = uuid \<and> q_client_tag r = None \<and> q_remove_tag r = None)
       (update_requests (\<lambda>r. q_book_uuid r = uuid \<and> (q_client_tag r \<noteq> None \<or> q_remove_tag r \<noteq> None))
         (\<lambda>r. r\<lparr> q_state := Cancelled, q_prior_state := None, q_cancel_at := Some sql_now \<rparr>) db)"

text \<open>\<open>delete_user\<close>: the requests of an account go by cascade, those with a download too.\<close>

definition delete_requests_of :: "int \<Rightarrow> requests_db \<Rightarrow> requests_db" where
  "delete_requests_of uid db = delete_requests (\<lambda>r. q_user_id r = uid) db"

subsection \<open>The verdict on a download\<close>

definition STALL_SECS :: int where "STALL_SECS = 12 * 3600"
definition UNREACHABLE_SECS :: int where "UNREACHABLE_SECS = 600"
definition APPEAR_SECS :: int where "APPEAR_SECS = 600"

definition FINISHED_STATES :: "string list" where
  "FINISHED_STATES =
     [''uploading'', ''stalledUP'', ''queuedUP'', ''forcedUP'', ''pausedUP'', ''stoppedUP'', ''checkingUP'']"

record torrent_status =
  ts_state :: string
  ts_progress :: rat

datatype verdict = Wait | Progress rat | Stopped string

definition judge :: "request_row \<Rightarrow> torrent_status option \<Rightarrow> int \<Rightarrow> verdict" where
  "judge row status t =
     (let idle_secs = t - (case q_moved_at row of Some m \<Rightarrow> m | None \<Rightarrow> t) in
      case status of
        None \<Rightarrow>
          if q_progress row \<noteq> None \<or> idle_secs > APPEAR_SECS
          then Stopped ''the download client no longer has it'' else Wait
      | Some st \<Rightarrow>
          if ts_state st = ''error'' \<or> ts_state st = ''missingFiles''
          then Stopped ''the download client reports an error''
          else if ts_progress st \<ge> 1 \<or> list_ex (\<lambda>s. s = ts_state st) FINISHED_STATES
          then Progress 1
          else if (case q_progress row of None \<Rightarrow> True | Some p \<Rightarrow> ts_progress st > p)
          then Progress (ts_progress st)
          else if idle_secs > STALL_SECS
          then Stopped ''no data has arrived for a long while'' else Wait)"

subsection \<open>Requests and the download client together\<close>

text \<open>
  The client's jobs by tag. A job the client was handed may take a while to show up, at most
  \<open>APPEAR_SECS\<close>; the client may lose a job at any time. The poller is one task: while it
  hands a pick to the client (\<open>s_adding\<close>: the request, the tag, whether the client has taken
  it) it does nothing else, but readers may, and books may be merged, moved back or purged and
  accounts deleted. An add may fail, or the server restart, before or after the client took the
  job; a restart finds no add in progress.
\<close>

record job =
  j_added :: int
  j_visible :: bool

record request_sys =
  s_db :: requests_db
  s_now :: int
  s_jobs :: "ustr \<Rightarrow> job option"
  s_adding :: "(int \<times> ustr \<times> bool) option"

definition MAX_LIVE :: int where "MAX_LIVE = 5"

datatype sys_event =
    Tick nat
  | StartReq int ustr request_kind
  | SearchDone int search_outcome
  | Pick int int
  | CancelReq int int
  | Undo int
  | SwapReq int "ustr option"
  | Retry int
  | Claim
  | RemovalSeen int ustr
  | RemoveJob int ustr
  | RemovalGone int
  | BeginAdd int
  | AddJob
  | AddRefused "int option" ustr
  | AddFailed
  | AddDone
  | Follow int "torrent_status option"
  | StopAll ustr
  | ImportKey int "int option" ustr
  | ImportDone int "int option"
  | ImportFailed int "int option" ustr
  | Appear ustr
  | Vanish ustr
  | BooksMerged ustr ustr
  | MergeUndone ustr ustr "int list"
  | BookPurged ustr
  | AccountDeleted int
  | ServerRestart

definition set_db :: "request_sys \<Rightarrow> requests_db \<Rightarrow> request_sys" where
  "set_db s db = s\<lparr> s_db := db \<rparr>"

text \<open>A refused change leaves the tables as they are.\<close>

definition try_db :: "request_sys \<Rightarrow> request_error + requests_db \<Rightarrow> request_sys" where
  "try_db s r = (case r of Inr db \<Rightarrow> set_db s db | Inl _ \<Rightarrow> s)"

definition visible :: "request_sys \<Rightarrow> ustr \<Rightarrow> bool" where
  "visible s tag \<longleftrightarrow> (case s_jobs s tag of Some j \<Rightarrow> j_visible j | None \<Rightarrow> False)"

definition idle :: "request_sys \<Rightarrow> bool" where
  "idle s \<longleftrightarrow> s_adding s = None"

definition follow :: "request_sys \<Rightarrow> request_row \<Rightarrow> torrent_status option \<Rightarrow> requests_db" where
  "follow s row status =
     (case judge row status (s_now s) of
        Wait \<Rightarrow> s_db s
      | Progress p \<Rightarrow> record_progress (q_id row) (q_chosen_result_id row) p (s_now s) (s_db s)
      | Stopped why \<Rightarrow>
          mark_stuck (s_now s) (q_id row) (q_chosen_result_id row) StoppedMoving (str why) (s_db s))"

definition stop_downloading :: "int \<Rightarrow> ustr \<Rightarrow> requests_db \<Rightarrow> requests_db" where
  "stop_downloading t why db =
     fold (\<lambda>row db. mark_stuck t (q_id row) (q_chosen_result_id row) StoppedMoving why db)
       (downloading db) db"

fun sys_step :: "sys_event \<Rightarrow> request_sys \<Rightarrow> request_sys option" where
  "sys_step (Tick n) s = Some (s\<lparr> s_now := s_now s + int n \<rparr>)"
| "sys_step (StartReq u b k) s =
     (case start (s_now s) u b k MAX_LIVE (s_db s) of
        Inr (_, db) \<Rightarrow> Some (set_db s db) | Inl _ \<Rightarrow> Some s)"
| "sys_step (SearchDone i oc) s =
     (if (case oc of StuckOn r _ \<Rightarrow> r = NotFoundReason \<or> r = SearchFailed | Found _ \<Rightarrow> True)
      then Some (set_db s (finish_search (s_now s) i oc (s_db s))) else None)"
| "sys_step (Pick i v) s = Some (try_db s (choose_version (s_now s) i v (s_db s)))"
| "sys_step (CancelReq i u) s = Some (try_db s (cancel (s_now s) i u (s_now s) (s_db s)))"
| "sys_step (Undo i) s = Some (try_db s (undo_cancel (s_now s) i (s_now s) MAX_LIVE (s_db s)))"
| "sys_step (SwapReq i note) s = Some (try_db s (swap (s_now s) i (s_now s) note (s_db s)))"
| "sys_step (Retry i) s = Some (try_db s (restart (s_now s) i (s_now s) MAX_LIVE (s_db s)))"
| "sys_step Claim s = (if idle s then Some (set_db s (claim_due_cancels (s_now s) (s_db s))) else None)"
| "sys_step (RemovalSeen i tag) s =
     (if idle s \<and> visible s tag then Some (set_db s (mark_removal_seen i tag (s_db s))) else None)"
| "sys_step (RemoveJob i tag) s =
     (if idle s \<and> list_ex (\<lambda>r. q_id r = i \<and> q_remove_tag r = Some tag) (requests (s_db s))
      then Some (s\<lparr> s_jobs := (s_jobs s)(tag := None) \<rparr>) else None)"
| "sys_step (RemovalGone i) s =
     (case get_request i (s_db s) of
        None \<Rightarrow> None
      | Some r \<Rightarrow>
          (case q_remove_tag r of
             None \<Rightarrow> None
           | Some tag \<Rightarrow>
               if idle s \<and> \<not> visible s tag \<and>
                  (case q_remove_since r of None \<Rightarrow> True | Some since \<Rightarrow> s_now s - since > APPEAR_SECS)
               then Some (set_db s (finish_removal i tag (s_db s))) else None))"
| "sys_step (BeginAdd i) s =
     (if idle s then
        (case begin_download i (s_db s) of
           (Some (tag, _), db) \<Rightarrow> Some (s\<lparr> s_db := db, s_adding := Some (i, tag, False) \<rparr>)
         | (None, db) \<Rightarrow> Some (set_db s db))
      else None)"
| "sys_step AddJob s =
     (case s_adding s of
        Some (i, tag, False) \<Rightarrow>
          Some (s\<lparr> s_adding := Some (i, tag, True),
                   s_jobs := (if visible s tag then s_jobs s
                              else (s_jobs s)(tag \<mapsto> \<lparr> j_added = s_now s, j_visible = False \<rparr>)) \<rparr>)
      | _ \<Rightarrow> None)"
| "sys_step (AddRefused chosen why) s =
     (case s_adding s of
        Some (i, tag, _) \<Rightarrow>
          Some (s\<lparr> s_db := mark_stuck (s_now s) i chosen StoppedMoving why (s_db s), s_adding := None \<rparr>)
      | None \<Rightarrow> None)"
| "sys_step AddFailed s =
     (case s_adding s of Some _ \<Rightarrow> Some (s\<lparr> s_adding := None \<rparr>) | None \<Rightarrow> None)"
| "sys_step AddDone s =
     (case s_adding s of
        Some (i, tag, True) \<Rightarrow>
          Some (s\<lparr> s_db := mark_on_its_way (s_now s) i (s_now s) (s_db s), s_adding := None \<rparr>)
      | _ \<Rightarrow> None)"
| "sys_step (Follow i status) s =
     (case find (\<lambda>r. q_id r = i) (downloading (s_db s)) of
        None \<Rightarrow> None
      | Some row \<Rightarrow>
          if idle s \<and> (case q_client_tag row of Some tag \<Rightarrow> visible s tag = (status \<noteq> None) | None \<Rightarrow> False)
          then Some (set_db s (follow s row status)) else None)"
| "sys_step (StopAll why) s =
     (if idle s then Some (set_db s (stop_downloading (s_now s) why (s_db s))) else None)"
| "sys_step (ImportKey i chosen key) s =
     (if idle s then Some (set_db s (set_import_key i chosen key (s_db s))) else None)"
| "sys_step (ImportDone i chosen) s =
     (if idle s then Some (set_db s (mark_ready (s_now s) i chosen (s_db s))) else None)"
| "sys_step (ImportFailed i chosen why) s =
     (if idle s then Some (set_db s (mark_stuck (s_now s) i chosen CouldntAdd why (s_db s))) else None)"
| "sys_step (Appear tag) s =
     (case s_jobs s tag of
        Some j \<Rightarrow>
          if s_now s - j_added j \<le> APPEAR_SECS
          then Some (s\<lparr> s_jobs := (s_jobs s)(tag \<mapsto> j\<lparr> j_visible := True \<rparr>) \<rparr>) else None
      | None \<Rightarrow> None)"
| "sys_step (Vanish tag) s = Some (s\<lparr> s_jobs := (s_jobs s)(tag := None) \<rparr>)"
| "sys_step (BooksMerged src tgt) s =
     (if src \<noteq> tgt then Some (set_db s (retarget_requests src tgt (s_db s))) else None)"
| "sys_step (MergeUndone src tgt ids) s =
     (if src \<noteq> tgt then Some (set_db s (return_requests src tgt ids (s_db s))) else None)"
| "sys_step (BookPurged uuid) s = Some (set_db s (drop_requests (s_now s) uuid (s_db s)))"
| "sys_step (AccountDeleted uid) s = Some (set_db s (delete_requests_of uid (s_db s)))"
| "sys_step ServerRestart s = Some (s\<lparr> s_adding := None \<rparr>)"

definition empty_requests :: requests_db where
  "empty_requests = \<lparr> requests = [], request_seq = 0, results = [], result_seq = 0 \<rparr>"

definition fresh_sys :: "int \<Rightarrow> request_sys" where
  "fresh_sys t = \<lparr> s_db = empty_requests, s_now = t, s_jobs = (\<lambda>_. None), s_adding = None \<rparr>"

inductive sys_init :: "request_sys \<Rightarrow> bool" where
  "sys_init (fresh_sys t)"

text \<open>
  Deleting an account one of whose requests has a download in the client, or one still to be taken
  out, forgets that download: the one step left out of the system (\<open>Request_Rules\<close> proves that it
  has to be).
\<close>

definition abandons :: "sys_event \<Rightarrow> requests_db \<Rightarrow> bool" where
  "abandons ev db \<longleftrightarrow>
     (case ev of
        AccountDeleted uid \<Rightarrow>
          list_ex (\<lambda>r. q_user_id r = uid \<and> (q_client_tag r \<noteq> None \<or> q_remove_tag r \<noteq> None)) (requests db)
      | _ \<Rightarrow> False)"

inductive request_step :: "request_sys \<Rightarrow> request_sys \<Rightarrow> bool" where
  "sys_step ev s = Some s' \<Longrightarrow> \<not> abandons ev (s_db s) \<Longrightarrow> request_step s s'"

fun run_sys :: "sys_event list \<Rightarrow> request_sys \<Rightarrow> request_sys option" where
  "run_sys [] s = Some s"
| "run_sys (ev # evs) s = (case sys_step ev s of Some s' \<Rightarrow> run_sys evs s' | None \<Rightarrow> None)"

definition accounts_stay :: "sys_event list \<Rightarrow> bool" where
  "accounts_stay evs \<longleftrightarrow> list_all (\<lambda>ev. case ev of AccountDeleted _ \<Rightarrow> False | _ \<Rightarrow> True) evs"

lemma run_sys_reachable:
  "reachable sys_init request_step s \<Longrightarrow> accounts_stay evs \<Longrightarrow> run_sys evs s = Some s' \<Longrightarrow>
     reachable sys_init request_step s'"
proof (induction evs s rule: run_sys.induct)
  case (2 ev evs s)
  then obtain t where t: "sys_step ev s = Some t" "run_sys evs t = Some s'" by (auto split: option.splits)
  have "\<not> abandons ev (s_db s)" "accounts_stay evs"
    using 2(3) by (auto simp: accounts_stay_def abandons_def split: sys_event.splits)
  with 2 t show ?case by (blast intro: reach_step request_step.intros)
qed simp

subsection \<open>No download is forgotten\<close>

text \<open>The state a row is in, or was in before the cancel that Undo takes back.\<close>

definition effective_state :: "request_row \<Rightarrow> request_state" where
  "effective_state r =
     (if q_state r = Cancelled
      then (case q_prior_state r of Some p \<Rightarrow> p | None \<Rightarrow> Cancelled) else q_state r)"

definition row_ok :: "request_row \<Rightarrow> bool" where
  "row_ok r \<longleftrightarrow>
     (effective_state r = Looking \<or> effective_state r = Choose \<longrightarrow> q_client_tag r = None) \<and>
     (effective_state r = Chosen \<longrightarrow> q_client_tag r = None \<or>
        q_client_tag r = map_option (tag_of (q_id r)) (q_chosen_result_id r)) \<and>
     (q_state r = Stuck \<longrightarrow> q_client_tag r = None \<or>
        q_stuck_reason r = Some StoppedMoving \<or> q_stuck_reason r = Some CouldntAdd) \<and>
     q_prior_state r \<noteq> Some Stuck"

text \<open>A row answers for a job while it names it as its download or as one to remove.\<close>

definition tracks :: "request_row \<Rightarrow> ustr \<Rightarrow> job \<Rightarrow> bool" where
  "tracks r tag j \<longleftrightarrow>
     q_client_tag r = Some tag \<or>
     (q_remove_tag r = Some tag \<and>
      (case q_remove_since r of None \<Rightarrow> j_visible j | Some since \<Rightarrow> j_added j \<le> since))"

definition live_job :: "int \<Rightarrow> job \<Rightarrow> bool" where
  "live_job t j \<longleftrightarrow> j_visible j \<or> t - j_added j \<le> APPEAR_SECS"

definition jobs_tracked :: "request_sys \<Rightarrow> bool" where
  "jobs_tracked s \<longleftrightarrow>
     (\<forall>tag j. s_jobs s tag = Some j \<longrightarrow> j_added j \<le> s_now s \<and>
        (live_job (s_now s) j \<longrightarrow> (\<exists>r \<in> set (requests (s_db s)). tracks r tag j)))"

text \<open>The row being added stays picked, or its book is purged meanwhile.\<close>

definition held :: "request_row \<Rightarrow> bool" where
  "held r \<longleftrightarrow> effective_state r = Chosen \<or> q_state r = Cancelled \<and> q_prior_state r = None"

definition adding_row :: "int \<Rightarrow> ustr \<Rightarrow> request_row \<Rightarrow> bool" where
  "adding_row i tag r \<longleftrightarrow> q_id r = i \<and> q_client_tag r = Some tag \<and> held r"

definition adding_ok :: "request_sys \<Rightarrow> bool" where
  "adding_ok s \<longleftrightarrow>
     (case s_adding s of
        None \<Rightarrow> True
      | Some (i, tag, _) \<Rightarrow> \<exists>r \<in> set (requests (s_db s)). adding_row i tag r)"

definition table_ok :: "requests_db \<Rightarrow> bool" where
  "table_ok db \<longleftrightarrow>
     distinct (map q_id (requests db)) \<and> (\<forall>r \<in> set (requests db). q_id r \<le> request_seq db \<and> row_ok r)"

definition sys_inv :: "request_sys \<Rightarrow> bool" where
  "sys_inv s \<longleftrightarrow> table_ok (s_db s) \<and> jobs_tracked s \<and> adding_ok s"

text \<open>What an update has to keep, row by row.\<close>

definition good_update ::
  "request_sys \<Rightarrow> (request_row \<Rightarrow> bool) \<Rightarrow> (request_row \<Rightarrow> request_row) \<Rightarrow> bool" where
  "good_update s P f \<longleftrightarrow>
     (\<forall>r \<in> set (requests (s_db s)). P r \<longrightarrow>
        q_id (f r) = q_id r \<and>
        (row_ok r \<longrightarrow> row_ok (f r)) \<and>
        (\<forall>tag j. s_jobs s tag = Some j \<longrightarrow> j_added j \<le> s_now s \<longrightarrow> live_job (s_now s) j \<longrightarrow>
           tracks r tag j \<longrightarrow> tracks (f r) tag j) \<and>
        (\<forall>i tag b. s_adding s = Some (i, tag, b) \<longrightarrow> adding_row i tag r \<longrightarrow> adding_row i tag (f r)))"

lemma requests_update [simp]:
  "requests (update_requests P f db) = update_where P f (requests db)"
  "request_seq (update_requests P f db) = request_seq db"
  "results (update_requests P f db) = results db"
  by (simp_all add: update_requests_def)

lemma set_db_fields [simp]:
  "s_db (set_db s db) = db" "s_now (set_db s db) = s_now s" "s_jobs (set_db s db) = s_jobs s"
  "s_adding (set_db s db) = s_adding s"
  by (simp_all add: set_db_def)

lemma sys_update:
  assumes "sys_inv s" "good_update s P f"
    and "requests db = update_where P f (requests (s_db s))" "request_seq db = request_seq (s_db s)"
  shows "sys_inv (set_db s db)"
proof -
  let ?rows = "requests (s_db s)"
  let ?g = "\<lambda>r. if P r then f r else r"
  have ok: "table_ok (s_db s)" and jobs: "jobs_tracked s" and add: "adding_ok s"
    using assms(1) by (simp_all add: sys_inv_def)
  have g: "q_id (?g r) = q_id r" "row_ok r \<longrightarrow> row_ok (?g r)"
    "\<And>tag j. s_jobs s tag = Some j \<Longrightarrow> j_added j \<le> s_now s \<Longrightarrow> live_job (s_now s) j \<Longrightarrow>
       tracks r tag j \<Longrightarrow> tracks (?g r) tag j"
    "\<And>i tag b. s_adding s = Some (i, tag, b) \<Longrightarrow> adding_row i tag r \<Longrightarrow> adding_row i tag (?g r)"
    if "r \<in> set ?rows" for r
    using assms(2) that by (auto simp: good_update_def)
  have rows: "set (requests db) = ?g ` set ?rows" "map q_id (requests db) = map q_id ?rows"
    using g(1) by (auto simp: assms(3) update_where_def)
  have "q_id (?g r) \<le> request_seq (s_db s) \<and> row_ok (?g r)" if "r \<in> set ?rows" for r
    using ok g(1,2) [OF that] that by (simp add: table_ok_def)
  then have "\<forall>r \<in> set (requests db). q_id r \<le> request_seq (s_db s) \<and> row_ok r"
    unfolding rows(1) by blast
  then have "table_ok db"
    using ok by (simp add: table_ok_def rows(2) assms(4))
  moreover have "jobs_tracked (set_db s db)"
    unfolding jobs_tracked_def
  proof (intro allI impI conjI)
    fix tag j assume j: "s_jobs (set_db s db) tag = Some j"
    then show added: "j_added j \<le> s_now (set_db s db)" using jobs by (simp add: jobs_tracked_def)
    assume live: "live_job (s_now (set_db s db)) j"
    with j jobs obtain r where r: "r \<in> set ?rows" "tracks r tag j" by (auto simp: jobs_tracked_def)
    with g(3) [OF r(1)] j live added have "tracks (?g r) tag j" by simp
    moreover have "?g r \<in> set (requests db)" unfolding rows(1) using r(1) by (rule imageI)
    ultimately show "\<exists>r \<in> set (requests (s_db (set_db s db))). tracks r tag j" by auto
  qed
  moreover have "adding_ok (set_db s db)"
  proof (cases "s_adding s")
    case (Some p)
    then obtain i tag b where p: "s_adding s = Some (i, tag, b)" by (cases p) auto
    with add obtain r where r: "r \<in> set ?rows" "adding_row i tag r" by (auto simp: adding_ok_def)
    have "?g r \<in> set (requests db)" unfolding rows(1) using r(1) by (rule imageI)
    with g(4) [OF r(1) p r(2)] p show ?thesis by (auto simp: adding_ok_def)
  qed (simp add: adding_ok_def)
  ultimately show ?thesis by (simp add: sys_inv_def)
qed

text \<open>An update that leaves the tags alone only has to keep the row's own condition.\<close>

lemma good_update_quiet:
  assumes "\<And>r. P r \<Longrightarrow> q_id (f r) = q_id r \<and> q_client_tag (f r) = q_client_tag r \<and>
      q_remove_tag (f r) = q_remove_tag r \<and> q_remove_since (f r) = q_remove_since r"
    and "\<And>r. P r \<Longrightarrow> row_ok r \<Longrightarrow> row_ok (f r)"
    and "\<And>r. P r \<Longrightarrow> s_adding s \<noteq> None \<Longrightarrow> held r \<Longrightarrow> held (f r)"
  shows "good_update s P f"
  using assms by (auto simp: good_update_def tracks_def adding_row_def)

lemmas row_simps = row_ok_def effective_state_def held_def

lemma sys_update_quiet:
  assumes "sys_inv s" "db = update_requests P f (s_db s)"
    and "\<And>r. P r \<Longrightarrow> q_id (f r) = q_id r \<and> q_client_tag (f r) = q_client_tag r \<and>
      q_remove_tag (f r) = q_remove_tag r \<and> q_remove_since (f r) = q_remove_since r"
    and "\<And>r. P r \<Longrightarrow> row_ok r \<Longrightarrow> row_ok (f r)"
    and "\<And>r. P r \<Longrightarrow> s_adding s \<noteq> None \<Longrightarrow> held r \<Longrightarrow> held (f r)"
  shows "sys_inv (set_db s db)"
  by (rule sys_update [OF assms(1) good_update_quiet [OF assms(3-5)]]) (simp_all add: assms(2))

text \<open>Rows without a download can go.\<close>

lemma sys_delete:
  assumes "sys_inv s" "\<forall>r \<in> set (requests (s_db s)). P r \<longrightarrow> q_client_tag r = None \<and> q_remove_tag r = None"
    and "db = delete_requests P (s_db s)"
  shows "sys_inv (set_db s db)"
proof -
  have rows: "requests db = delete_where P (requests (s_db s))" "request_seq db = request_seq (s_db s)"
    by (simp_all add: assms(3) delete_requests_def)
  have kept: "r \<in> set (requests db)"
    if "r \<in> set (requests (s_db s))" "q_client_tag r \<noteq> None \<or> q_remove_tag r \<noteq> None" for r
    using assms(2) that by (auto simp: rows delete_where_def)
  have "table_ok db"
    using assms(1) by (auto simp: sys_inv_def table_ok_def rows delete_where_def distinct_map_filter)
  moreover have "jobs_tracked (set_db s db)"
    using assms(1) kept by (fastforce simp: sys_inv_def jobs_tracked_def tracks_def)
  moreover have "adding_ok (set_db s db)"
    using assms(1) kept by (fastforce simp: sys_inv_def adding_ok_def adding_row_def split: option.splits)
  ultimately show ?thesis by (simp add: sys_inv_def)
qed

lemma sys_inv_same_rows:
  "requests db = requests db' \<Longrightarrow> request_seq db = request_seq db' \<Longrightarrow>
     sys_inv (set_db s db) = sys_inv (set_db s db')"
  by (simp add: sys_inv_def table_ok_def jobs_tracked_def adding_ok_def split: option.split)

lemma set_db_id [simp]: "set_db s (s_db s) = s"
  by (simp add: set_db_def)

lemma inv_start:
  assumes "sys_inv s" "start t u b k m (s_db s) = Inr (x, db)"
  shows "sys_inv (set_db s db)"
proof (cases "db = s_db s")
  case False
  then obtain row where row: "requests db = requests (s_db s) @ [row]" "request_seq db = q_id row"
    "q_id row = request_seq (s_db s) + 1" "q_client_tag row = None" "q_state row = Looking"
    "q_prior_state row = None"
    using assms(2) by (auto simp: start_def Let_def split: option.splits if_splits)
  have new: "row_ok row" using row(4-6) by (simp add: row_simps)
  have "table_ok db"
    using assms(1) row new by (force simp: sys_inv_def table_ok_def)
  moreover have "jobs_tracked (set_db s db)" "adding_ok (set_db s db)"
    using assms(1) row(1) by (fastforce simp: sys_inv_def jobs_tracked_def adding_ok_def split: option.splits)+
  ultimately show ?thesis by (simp add: sys_inv_def)
qed (use assms(1) in simp)

lemma fold_insert_result [simp]:
  "requests (fold (insert_result i) rs db) = requests db"
  "request_seq (fold (insert_result i) rs db) = request_seq db"
  by (induction rs arbitrary: db) (simp_all add: insert_result_def Let_def)

lemma finish_search_rows:
  "(\<exists>st reason d. (st = Choose \<or> st = Stuck) \<and>
      requests (finish_search t i oc db) =
        requests (update_requests (\<lambda>r. q_id r = i \<and> q_state r = Looking)
          (\<lambda>r. r\<lparr> q_state := st, q_stuck_reason := reason, q_stuck_detail := d, q_updated_at := t \<rparr>) db)) \<and>
   request_seq (finish_search t i oc db) = request_seq db \<or>
   finish_search t i oc db = db"
  by (auto simp: finish_search_def Let_def split: search_outcome.split)

lemma inv_search:
  assumes "sys_inv s"
  shows "sys_inv (set_db s (finish_search t i oc (s_db s)))"
proof -
  from finish_search_rows [of t i oc "s_db s"] consider
    (same) "finish_search t i oc (s_db s) = s_db s"
  | (upd) st reason d where "st = Choose \<or> st = Stuck"
      "requests (finish_search t i oc (s_db s)) =
        requests (update_requests (\<lambda>r. q_id r = i \<and> q_state r = Looking)
          (\<lambda>r. r\<lparr> q_state := st, q_stuck_reason := reason, q_stuck_detail := d, q_updated_at := t \<rparr>) (s_db s))"
      "request_seq (finish_search t i oc (s_db s)) = request_seq (s_db s)" by blast
  then show ?thesis
  proof cases
    case (upd st reason d)
    let ?db = "update_requests (\<lambda>r. q_id r = i \<and> q_state r = Looking)
        (\<lambda>r. r\<lparr> q_state := st, q_stuck_reason := reason, q_stuck_detail := d, q_updated_at := t \<rparr>) (s_db s)"
    have "sys_inv (set_db s ?db)"
      by (rule sys_update_quiet [OF assms refl]) (use upd(1) in \<open>auto simp: row_simps\<close>)
    then show ?thesis using sys_inv_same_rows [OF upd(2), of s] upd(3) by simp
  qed (use assms in simp)
qed

lemma inv_choose:
  assumes "sys_inv s" "choose_version t i v (s_db s) = Inr db"
  shows "sys_inv (set_db s db)"
proof -
  have eq: "db = update_requests (\<lambda>r. q_id r = i \<and> q_state r = Choose \<and> kept_version i v (s_db s))
      (\<lambda>r. r\<lparr> q_state := Chosen, q_chosen_result_id := Some v, q_note := None, q_updated_at := t \<rparr>) (s_db s)"
    using assms(2) by (auto simp: choose_version_def Let_def split: if_splits option.splits)
  show ?thesis by (rule sys_update_quiet [OF assms(1) eq]) (auto simp: row_simps)
qed

lemma inv_cancel:
  assumes "sys_inv s" "cancel t i u n (s_db s) = Inr db"
  shows "sys_inv (set_db s db)"
proof -
  have eq: "db = update_requests (\<lambda>r. q_id r = i \<and>
        (q_state r = Looking \<or> q_state r = Choose \<or> q_state r = Chosen \<or> downloading_row r))
      (\<lambda>r. r\<lparr> q_prior_state := Some (q_state r), q_state := Cancelled, q_cancelled_by := Some u,
              q_cancel_at := Some (n + CANCEL_GRACE_SECS), q_updated_at := t \<rparr>) (s_db s)"
    using assms(2) by (auto simp: cancel_def Let_def split: if_splits)
  show ?thesis
    by (rule sys_update_quiet [OF assms(1) eq]) (auto simp: row_simps downloading_row_def)
qed

lemma inv_undo:
  assumes "sys_inv s" "undo_cancel t i n m (s_db s) = Inr db"
  shows "sys_inv (set_db s db)"
proof -
  have eq: "db = update_requests (\<lambda>r. q_id r = i \<and> undoable n r)
      (\<lambda>r. r\<lparr> q_state := (case q_prior_state r of Some p \<Rightarrow> p | None \<Rightarrow> q_state r),
              q_prior_state := None, q_cancelled_by := None, q_cancel_at := None,
              q_updated_at := t \<rparr>) (s_db s)"
    using assms(2) by (auto simp: undo_cancel_def and_then_Inr)
  show ?thesis
    by (rule sys_update_quiet [OF assms(1) eq]) (auto simp: undoable_def row_simps split: option.splits)
qed

text \<open>A swap moves the download to the removal list, which has to be empty.\<close>

lemma inv_swap:
  assumes "sys_inv s" "swap_in t i (s_now s) note (s_db s) = Inr db"
  shows "sys_inv (set_db s db)"
proof -
  let ?Q = "\<lambda>r. q_id r = i \<and> q_remove_tag r = None \<and>
      (downloading_row r \<or> q_state r = Stuck \<and> q_stuck_reason r = Some StoppedMoving)"
  let ?f = "\<lambda>others r. r\<lparr> q_state := (if others then Choose else Looking),
      q_remove_tag := q_client_tag r, q_remove_since := (if q_client_tag r = None then None else Some (s_now s)),
      q_client_tag := None, q_chosen_result_id := None, q_progress := None, q_moved_at := None,
      q_stuck_reason := None, q_stuck_detail := None, q_note := note, q_updated_at := t \<rparr>"
  from assms(2) obtain picked others where picked: "fetch_optional ?Q (requests (s_db s)) = Some picked"
    and eq: "requests db = update_where (\<lambda>r. q_id r = i) (?f others) (requests (s_db s))"
      "request_seq db = request_seq (s_db s)"
    by (auto simp: swap_in_def Let_def split: option.splits)
  have only: "?Q r" if "r \<in> set (requests (s_db s))" "q_id r = i" for r
  proof -
    have "distinct (map q_id (requests (s_db s)))" using assms(1) by (simp add: sys_inv_def table_ok_def)
    with fetch_optional_Some [OF picked] that have "r = picked"
      by (auto simp: distinct_map inj_on_def)
    with fetch_optional_Some [OF picked] show ?thesis by simp
  qed
  have "good_update s (\<lambda>r. q_id r = i) (?f others)"
    unfolding good_update_def
  proof (intro ballI impI)
    fix r assume r: "r \<in> set (requests (s_db s))" "q_id r = i"
    note q = only [OF r]
    show "q_id (?f others r) = q_id r \<and> (row_ok r \<longrightarrow> row_ok (?f others r)) \<and>
        (\<forall>tag j. s_jobs s tag = Some j \<longrightarrow> j_added j \<le> s_now s \<longrightarrow> live_job (s_now s) j \<longrightarrow>
           tracks r tag j \<longrightarrow> tracks (?f others r) tag j) \<and>
        (\<forall>i tag b. s_adding s = Some (i, tag, b) \<longrightarrow> adding_row i tag r \<longrightarrow> adding_row i tag (?f others r))"
      using q by (auto simp: row_simps tracks_def adding_row_def downloading_row_def)
  qed
  then show ?thesis by (rule sys_update [OF assms(1) _ eq])
qed

lemma inv_restart:
  assumes "sys_inv s" "restart t i (s_now s) m (s_db s) = Inr db"
  shows "sys_inv (set_db s db)"
proof -
  let ?stuck = "\<lambda>reason. case get_request i (s_db s) of
      Some r \<Rightarrow> q_state r = Stuck \<and> q_stuck_reason r = Some reason | None \<Rightarrow> False"
  have uniq: "r = r'" if "r \<in> set (requests (s_db s))" "r' \<in> set (requests (s_db s))" "q_id r = q_id r'" for r r'
    using assms(1) that by (auto simp: sys_inv_def table_ok_def distinct_map inj_on_def)
  have get: "get_request i (s_db s) = Some r" if "r \<in> set (requests (s_db s))" "q_id r = i" for r
    using assms(1) that fetch_unique [of q_id "requests (s_db s)" r i]
    by (simp add: get_request_def sys_inv_def table_ok_def)
  consider (stopped) "?stuck StoppedMoving" | (add) "\<not> ?stuck StoppedMoving" "?stuck CouldntAdd"
    | (search) "\<not> ?stuck StoppedMoving" "\<not> ?stuck CouldntAdd" by blast
  then show ?thesis
  proof cases
    case stopped
    then show ?thesis using assms inv_swap by (simp add: restart_def Let_def)
  next
    case add
    let ?f = "\<lambda>r. r\<lparr> q_state := OnItsWay, q_progress := Some 1, q_stuck_reason := None,
        q_stuck_detail := None, q_updated_at := t \<rparr>"
    from assms(2) add have eq: "requests db = update_where (\<lambda>r. q_id r = i) ?f (requests (s_db s))"
      "request_seq db = request_seq (s_db s)"
      by (auto simp: restart_def Let_def and_then_Inr)
    have st: "q_state r = Stuck" if "r \<in> set (requests (s_db s))" "q_id r = i" for r
      using add(2) get [OF that] by simp
    have "good_update s (\<lambda>r. q_id r = i) ?f"
      unfolding good_update_def
      by (auto simp: row_simps tracks_def adding_row_def dest: st)
    then show ?thesis by (rule sys_update [OF assms(1) _ eq])
  next
    case search
    let ?P = "\<lambda>r. q_id r = i \<and> (q_state r = Looking \<or> q_state r = Stuck)"
    let ?f = "\<lambda>r. r\<lparr> q_state := Looking, q_stuck_reason := None, q_stuck_detail := None, q_updated_at := t \<rparr>"
    from assms(2) search have eq: "requests db = update_where ?P ?f (requests (s_db s))"
      "request_seq db = request_seq (s_db s)"
      by (auto simp: restart_def Let_def split: if_splits)
    have tagless: "q_client_tag r = None" if "r \<in> set (requests (s_db s))" "?P r" for r
    proof -
      have "row_ok r" using assms(1) that(1) by (simp add: sys_inv_def table_ok_def)
      with that(2) search get [OF that(1)] show ?thesis by (auto simp: row_simps)
    qed
    have "good_update s ?P ?f"
      unfolding good_update_def
      by (auto simp: row_simps tracks_def adding_row_def dest: tagless)
    then show ?thesis by (rule sys_update [OF assms(1) _ eq])
  qed
qed

lemma inv_claim:
  assumes "sys_inv s" "s_adding s = None"
  shows "sys_inv (set_db s (claim_due_cancels (s_now s) (s_db s)))"
proof (rule sys_update [OF assms(1)])
  let ?f = "\<lambda>r :: request_row. r\<lparr> q_remove_tag := (case q_client_tag r of Some tag \<Rightarrow> Some tag | None \<Rightarrow> q_remove_tag r),
      q_remove_since := (if q_client_tag r = None then q_remove_since r else Some (s_now s)),
      q_client_tag := None, q_cancel_at := None \<rparr>"
  let ?P = "\<lambda>r :: request_row. (case q_cancel_at r of Some due \<Rightarrow> due \<le> s_now s | None \<Rightarrow> False) \<and>
      (q_remove_tag r = None \<or> q_client_tag r = None)"
  show "requests (claim_due_cancels (s_now s) (s_db s)) = update_where ?P ?f (requests (s_db s))"
    "request_seq (claim_due_cancels (s_now s) (s_db s)) = request_seq (s_db s)"
    by (simp_all add: claim_due_cancels_def)
  show "good_update s ?P ?f"
    unfolding good_update_def
  proof (intro ballI impI)
    fix r :: request_row assume "?P r"
    then show "q_id (?f r) = q_id r \<and> (row_ok r \<longrightarrow> row_ok (?f r)) \<and>
        (\<forall>tag j. s_jobs s tag = Some j \<longrightarrow> j_added j \<le> s_now s \<longrightarrow> live_job (s_now s) j \<longrightarrow>
           tracks r tag j \<longrightarrow> tracks (?f r) tag j) \<and>
        (\<forall>i tag b. s_adding s = Some (i, tag, b) \<longrightarrow> adding_row i tag r \<longrightarrow> adding_row i tag (?f r))"
      using assms(2) by (auto simp: row_simps tracks_def split: option.splits)
  qed
qed

lemma inv_removal:
  assumes "sys_inv s" "visible s tag"
  shows "sys_inv (set_db s (mark_removal_seen i tag (s_db s)))"
proof (rule sys_update [OF assms(1)])
  let ?P = "\<lambda>r. q_id r = i \<and> q_remove_tag r = Some tag"
  let ?f = "\<lambda>r. r\<lparr> q_remove_since := None \<rparr>"
  show "good_update s ?P ?f"
    using assms(2)
    by (auto simp: good_update_def row_simps tracks_def adding_row_def visible_def split: option.splits)
qed (simp_all add: mark_removal_seen_def)

lemma inv_gone:
  assumes "sys_inv s" "get_request i (s_db s) = Some r" "q_remove_tag r = Some tag" "\<not> visible s tag"
    and "case q_remove_since r of None \<Rightarrow> True | Some since \<Rightarrow> s_now s - since > APPEAR_SECS"
  shows "sys_inv (set_db s (finish_removal i tag (s_db s)))"
proof (rule sys_update [OF assms(1)])
  let ?P = "\<lambda>r. q_id r = i \<and> q_remove_tag r = Some tag"
  let ?f = "\<lambda>r. r\<lparr> q_remove_tag := None, q_remove_since := None \<rparr>"
  have uniq: "r' = r" if "r' \<in> set (requests (s_db s))" "q_id r' = i" for r'
    using assms(1,2) that fetch_unique [of q_id "requests (s_db s)" r' i]
    by (simp add: get_request_def sys_inv_def table_ok_def)
  have dead: False if "tracks r tag j" "q_client_tag r \<noteq> Some tag" "s_jobs s tag = Some j" "live_job (s_now s) j" for j
    using that assms(3-5) by (auto simp: tracks_def live_job_def visible_def split: option.splits)
  show "good_update s ?P ?f"
    unfolding good_update_def
  proof (intro ballI impI)
    fix r' assume r': "r' \<in> set (requests (s_db s))" "?P r'"
    then have [simp]: "r' = r" using uniq by blast
    show "q_id (?f r') = q_id r' \<and> (row_ok r' \<longrightarrow> row_ok (?f r')) \<and>
        (\<forall>tag j. s_jobs s tag = Some j \<longrightarrow> j_added j \<le> s_now s \<longrightarrow> live_job (s_now s) j \<longrightarrow>
           tracks r' tag j \<longrightarrow> tracks (?f r') tag j) \<and>
        (\<forall>i tag b. s_adding s = Some (i, tag, b) \<longrightarrow> adding_row i tag r' \<longrightarrow> adding_row i tag (?f r'))"
      using dead assms(3) by (auto simp: row_simps adding_row_def) (auto simp: tracks_def)
  qed
qed (simp_all add: finish_removal_def)

lemma inv_stuck:
  assumes "sys_inv s" "s_adding s = None" "reason = StoppedMoving \<or> reason = CouldntAdd"
  shows "sys_inv (set_db s (mark_stuck t i chosen reason why (s_db s)))"
  by (rule sys_update_quiet [OF assms(1) mark_stuck_def])
    (use assms(2,3) in \<open>auto simp: row_simps split: if_splits\<close>)

lemma inv_stop_all:
  assumes "sys_inv s" "s_adding s = None"
  shows "sys_inv (set_db s (fold (\<lambda>row db. mark_stuck t (q_id row) (q_chosen_result_id row)
      StoppedMoving why db) rows (s_db s)))"
  using assms
proof (induction rows arbitrary: s)
  case (Cons row rows)
  let ?db = "mark_stuck t (q_id row) (q_chosen_result_id row) StoppedMoving why (s_db s)"
  have "sys_inv (set_db s ?db)" using Cons.prems by (intro inv_stuck) simp_all
  from Cons.IH [OF this] Cons.prems(2) show ?case by (simp add: set_db_def)
qed simp

lemma inv_progress:
  assumes "sys_inv s" "s_adding s = None"
  shows "sys_inv (set_db s (record_progress i chosen p t (s_db s)))"
    "sys_inv (set_db s (set_import_key i chosen key (s_db s)))"
    "sys_inv (set_db s (mark_ready t i chosen (s_db s)))"
  by (rule sys_update_quiet [OF assms(1) record_progress_def], simp,
      use assms(2) in \<open>auto simp: row_simps split: if_splits\<close>)
    (rule sys_update_quiet [OF assms(1) set_import_key_def], simp,
      use assms(2) in \<open>auto simp: row_simps split: if_splits\<close>,
     rule sys_update_quiet [OF assms(1) mark_ready_def], simp,
      use assms(2) in \<open>auto simp: row_simps split: if_splits\<close>)

lemma inv_release:
  assumes "sys_inv s"
  shows "sys_inv (s\<lparr> s_adding := None \<rparr>)"
  using assms by (simp add: sys_inv_def jobs_tracked_def adding_ok_def)

lemma inv_begin:
  assumes "sys_inv s" "s_adding s = None"
  shows "case begin_download i (s_db s) of
     (Some (tag, _), db) \<Rightarrow> sys_inv (s\<lparr> s_db := db, s_adding := Some (i, tag, False) \<rparr>)
   | (None, db) \<Rightarrow> sys_inv (set_db s db)"
proof (cases "fetch_optional (addable i) (requests (s_db s))")
  case None
  then show ?thesis using assms(1) by (simp add: begin_download_def)
next
  case (Some r)
  let ?f = "\<lambda>r :: request_row. r\<lparr> q_client_tag := map_option (tag_of (q_id r)) (q_chosen_result_id r) \<rparr>"
  let ?db = "update_requests (addable i) ?f (s_db s)"
  from fetch_optional_Some [OF Some] have r: "r \<in> set (requests (s_db s))" "addable i r" by simp_all
  then obtain c where c: "q_chosen_result_id r = Some c" "q_id r = i" "q_state r = Chosen"
    by (auto simp: addable_def)
  have keep: "tracks (?f r') tag j" if "row_ok r'" "addable i r'" "tracks r' tag j" for r' tag j
    using that by (auto simp: tracks_def addable_def row_simps)
  have rows: "row_ok r'" if "r' \<in> set (requests (s_db s))" for r'
    using assms(1) that by (simp add: sys_inv_def table_ok_def)
  have "row_ok (?f r')" if "row_ok r'" "addable i r'" for r'
    using that by (auto simp: addable_def row_simps)
  with keep rows assms(2) have "good_update s (addable i) ?f"
    unfolding good_update_def by auto
  then have inv: "sys_inv (set_db s ?db)" by (rule sys_update [OF assms(1)]) simp_all
  have "?f r \<in> set (requests ?db)" using mem_update_where [OF r(1), of "addable i" ?f] r(2) by simp
  moreover have "adding_row i (tag_of i c) (?f r)" using c by (simp add: adding_row_def row_simps)
  ultimately have "sys_inv (s\<lparr> s_db := ?db, s_adding := Some (i, tag_of i c, False) \<rparr>)"
    using inv by (auto simp: sys_inv_def jobs_tracked_def adding_ok_def simp del: requests_update)
  with inv Some c(1) show ?thesis by (auto simp: begin_download_def Let_def split: option.split)
qed

lemma inv_add_job:
  assumes "sys_inv s" "s_adding s = Some (i, tag, False)"
  shows "sys_inv (s\<lparr> s_adding := Some (i, tag, True),
     s_jobs := (if visible s tag then s_jobs s
                else (s_jobs s)(tag \<mapsto> \<lparr> j_added = s_now s, j_visible = False \<rparr>)) \<rparr>)"
proof -
  from assms obtain r where r: "r \<in> set (requests (s_db s))" "adding_row i tag r"
    by (auto simp: sys_inv_def adding_ok_def)
  then have "tracks r tag j" for j by (simp add: tracks_def adding_row_def)
  with r assms(1) show ?thesis by (auto simp: sys_inv_def jobs_tracked_def adding_ok_def)
qed

lemma inv_on_its_way:
  assumes "sys_inv s" "s_adding s = None"
  shows "sys_inv (set_db s (mark_on_its_way t i m (s_db s)))"
  by (rule sys_update_quiet [OF assms(1) mark_on_its_way_def])
    (use assms(2) in \<open>auto simp: row_simps split: if_splits\<close>)

text \<open>The book and the account.\<close>

lemma inv_book:
  assumes "sys_inv s"
  shows "sys_inv (set_db s (retarget_requests src tgt (s_db s)))"
    and "sys_inv (set_db s (return_requests src tgt ids (s_db s)))"
  by (rule sys_update_quiet [OF assms retarget_requests_def]; auto simp: row_simps split: if_splits)
    (rule sys_update_quiet [OF assms return_requests_def]; auto simp: row_simps split: if_splits)

lemma inv_purge:
  assumes "sys_inv s"
  shows "sys_inv (set_db s (drop_requests t uuid (s_db s)))"
proof -
  let ?db = "update_requests (\<lambda>r. q_book_uuid r = uuid \<and> (q_client_tag r \<noteq> None \<or> q_remove_tag r \<noteq> None))
      (\<lambda>r. r\<lparr> q_state := Cancelled, q_prior_state := None, q_cancel_at := Some t \<rparr>) (s_db s)"
  have "sys_inv (set_db s ?db)"
    by (rule sys_update_quiet [OF assms refl]; simp add: row_simps)
  from sys_delete [OF this, of "\<lambda>r. q_book_uuid r = uuid \<and> q_client_tag r = None \<and> q_remove_tag r = None"]
  show ?thesis by (simp add: drop_requests_def set_db_def)
qed

lemma inv_account:
  assumes "sys_inv s" "\<not> abandons (AccountDeleted uid) (s_db s)"
  shows "sys_inv (set_db s (delete_requests_of uid (s_db s)))"
  using assms(2)
  by (intro sys_delete [OF assms(1) _ delete_requests_of_def]) (auto simp: abandons_def list_ex_iff)

lemma release_set_db:
  "s\<lparr> s_db := db, s_adding := None \<rparr> = set_db (s\<lparr> s_adding := None \<rparr>) db"
  by (simp add: set_db_def)

text \<open>The clock and the client.\<close>

lemma adding_ok_frame [simp]:
  "adding_ok (s\<lparr> s_now := t \<rparr>) = adding_ok s" "adding_ok (s\<lparr> s_jobs := jobs \<rparr>) = adding_ok s"
  by (auto simp: adding_ok_def split: option.splits)

lemma inv_client:
  assumes "sys_inv s"
  shows "sys_inv (s\<lparr> s_now := s_now s + int n \<rparr>)"
    and "sys_inv (s\<lparr> s_jobs := (s_jobs s)(tag := None) \<rparr>)"
    and "s_jobs s tag = Some j \<Longrightarrow> s_now s - j_added j \<le> APPEAR_SECS \<Longrightarrow>
      sys_inv (s\<lparr> s_jobs := (s_jobs s)(tag \<mapsto> j\<lparr> j_visible := True \<rparr>) \<rparr>)"
proof -
  have jobs: "jobs_tracked s" and rest: "table_ok (s_db s)" "adding_ok s"
    using assms by (simp_all add: sys_inv_def)
  have "jobs_tracked (s\<lparr> s_now := s_now s + int n \<rparr>)"
    unfolding jobs_tracked_def
  proof (intro allI impI conjI)
    fix tag j assume "s_jobs (s\<lparr> s_now := s_now s + int n \<rparr>) tag = Some j"
    with jobs have j: "j_added j \<le> s_now s"
      "live_job (s_now s) j \<Longrightarrow> \<exists>r \<in> set (requests (s_db s)). tracks r tag j"
      by (auto simp: jobs_tracked_def)
    then show "j_added j \<le> s_now (s\<lparr> s_now := s_now s + int n \<rparr>)" by simp
    assume "live_job (s_now (s\<lparr> s_now := s_now s + int n \<rparr>)) j"
    then have "live_job (s_now s) j" by (auto simp: live_job_def)
    with j show "\<exists>r \<in> set (requests (s_db (s\<lparr> s_now := s_now s + int n \<rparr>))). tracks r tag j" by simp
  qed
  with rest show "sys_inv (s\<lparr> s_now := s_now s + int n \<rparr>)"
    by (simp add: sys_inv_def)
  show "sys_inv (s\<lparr> s_jobs := (s_jobs s)(tag := None) \<rparr>)"
    using jobs rest by (auto simp: sys_inv_def jobs_tracked_def)
  assume j: "s_jobs s tag = Some j" "s_now s - j_added j \<le> APPEAR_SECS"
  then obtain r where r: "r \<in> set (requests (s_db s))" "tracks r tag j" "j_added j \<le> s_now s"
    using jobs by (auto simp: jobs_tracked_def live_job_def)
  then have "tracks r tag (j\<lparr> j_visible := True \<rparr>)" by (auto simp: tracks_def split: option.splits)
  with r jobs rest show "sys_inv (s\<lparr> s_jobs := (s_jobs s)(tag \<mapsto> j\<lparr> j_visible := True \<rparr>) \<rparr>)"
    by (auto simp: sys_inv_def jobs_tracked_def)
qed

text \<open>The changes a reader can make, whose refusal changes nothing.\<close>

lemma inv_try: "sys_inv s \<Longrightarrow> (\<And>db. res = Inr db \<Longrightarrow> sys_inv (set_db s db)) \<Longrightarrow> sys_inv (try_db s res)"
  by (cases res) (simp_all add: try_db_def)

lemma inv_follow:
  assumes "sys_inv s" "s_adding s = None"
  shows "sys_inv (set_db s (follow s row status))"
  using assms by (auto simp: follow_def intro: inv_progress inv_stuck split: verdict.split)

lemma sys_step_inv:
  assumes "sys_inv s" "sys_step ev s = Some s'" "\<not> abandons ev (s_db s)"
  shows "sys_inv s'"
proof (cases ev)
  case (StartReq u b k)
  then show ?thesis using assms inv_start by (force split: sum.splits prod.splits)
next
  case (BeginAdd i)
  then show ?thesis using assms inv_begin [OF assms(1), of i]
    by (auto simp: idle_def split: if_splits prod.splits option.splits)
next
  case AddJob
  then show ?thesis using assms inv_add_job [OF assms(1)]
    by (auto split: option.splits prod.splits bool.splits if_splits)
next
  case (AddRefused chosen why)
  then show ?thesis
    using assms inv_stuck [OF inv_release [OF assms(1)], of StoppedMoving]
    by (auto simp: release_set_db split: option.splits prod.splits bool.splits)
next
  case AddFailed
  then show ?thesis using assms inv_release by (auto split: option.splits)
next
  case ServerRestart
  then show ?thesis using assms inv_release by auto
next
  case (AccountDeleted uid)
  then show ?thesis using assms inv_account by auto
next
  case (BookPurged uuid)
  then show ?thesis using assms inv_purge by auto
next
  case (BooksMerged src tgt)
  then show ?thesis using assms inv_book by (auto split: if_splits)
next
  case (MergeUndone src tgt ids)
  then show ?thesis using assms inv_book by (auto split: if_splits)
next
  case AddDone
  then show ?thesis
    using assms inv_on_its_way [OF inv_release [OF assms(1)]]
    by (auto simp: release_set_db split: option.splits prod.splits bool.splits)
next
  case (RemovalGone i)
  then show ?thesis using assms inv_gone [OF assms(1)]
    by (auto split: option.splits if_splits)
next
  case (Follow i status)
  then show ?thesis using assms inv_follow [OF assms(1)]
    by (auto simp: idle_def split: option.splits if_splits)
qed (use assms inv_client [OF assms(1)] inv_search inv_claim inv_removal inv_stop_all inv_progress inv_stuck
       inv_choose inv_cancel inv_undo inv_swap inv_restart in
     \<open>auto simp: idle_def swap_def stop_downloading_def intro!: inv_try split: if_splits option.splits\<close>)

interpretation request_system: invariant_system sys_init request_step sys_inv
proof
  show "sys_init s \<Longrightarrow> sys_inv s" for s
    by (auto simp: sys_init.simps fresh_sys_def empty_requests_def sys_inv_def table_ok_def
        jobs_tracked_def adding_ok_def)
  show "sys_inv s \<Longrightarrow> request_step s t \<Longrightarrow> sys_inv t" for s t
    by (auto simp: request_step.simps intro: sys_step_inv)
qed

end
