(* ===== verification/Request_Rules.thy ===== *)
theory Request_Rules
  imports Requests
begin

text \<open>
  What the request tables promise (\<open>db/src/requests/store.rs\<close> and its two submodules): at most
  one live request per reader, book and format, no download without a row that answers for it,
  a cancel that can be taken back during its grace, and a version given up that is not offered
  again. The operations and the event system are in \<open>Requests\<close>.
\<close>

subsection \<open>One live request per reader, book and format\<close>

definition live_row :: "request_row \<Rightarrow> bool" where
  "live_row r \<longleftrightarrow> live_state (q_state r)"

definition same_target :: "request_row \<Rightarrow> request_row \<Rightarrow> bool" where
  "same_target r r' \<longleftrightarrow>
     q_user_id r' = q_user_id r \<and> q_book_uuid r' = q_book_uuid r \<and> q_kind r' = q_kind r"

definition live_rule :: "request_row list \<Rightarrow> bool" where
  "live_rule rows \<longleftrightarrow>
     (\<forall>r \<in> set rows. live_row r \<longrightarrow>
        rows_affected (\<lambda>r'. same_target r r' \<and> live_row r') rows \<le> 1 \<and>
        int (rows_affected (\<lambda>r'. q_user_id r' = q_user_id r \<and> live_row r') rows) \<le> MAX_LIVE)"

text \<open>A change that makes no row live.\<close>

definition no_revival :: "request_row list \<Rightarrow> request_row list \<Rightarrow> bool" where
  "no_revival rows rows' \<longleftrightarrow>
     list_all2 (\<lambda>r r'. same_target r r' \<and> (live_row r' \<longrightarrow> live_row r)) rows rows'"

lemma no_revival_refl [simp]: "no_revival rows rows"
  by (simp add: no_revival_def same_target_def list_all2_refl)

lemma no_revival_trans: "no_revival a b \<Longrightarrow> no_revival b c \<Longrightarrow> no_revival a c"
  unfolding no_revival_def
  by (rule list_all2_trans [where ?P1.0 = "\<lambda>r r'. same_target r r' \<and> (live_row r' \<longrightarrow> live_row r)"])
    (auto simp: same_target_def)

lemma no_revival_update:
  "(\<And>r. r \<in> set rows \<Longrightarrow> P r \<Longrightarrow> same_target r (f r) \<and> (live_row (f r) \<longrightarrow> live_row r)) \<Longrightarrow>
     no_revival rows (update_where P f rows)"
  by (induction rows) (auto simp: no_revival_def update_where_def same_target_def)

lemma affected_mono:
  "list_all2 (\<lambda>r r'. Q r' \<longrightarrow> P r) rows rows' \<Longrightarrow> rows_affected Q rows' \<le> rows_affected P rows"
  by (induction rows rows' rule: list_all2_induct) (auto simp: rows_affected_def)

lemma live_rule_no_revival:
  assumes "live_rule rows" "no_revival rows rows'"
  shows "live_rule rows'"
  unfolding live_rule_def
proof (intro ballI impI)
  fix r' assume r': "r' \<in> set rows'" "live_row r'"
  then obtain n where "n < length rows'" "r' = rows' ! n" by (auto simp: in_set_conv_nth)
  with r'(2) assms(2) have "rows ! n \<in> set rows" "same_target (rows ! n) r'" "live_row (rows ! n)"
    by (auto simp: no_revival_def list_all2_conv_all_nth)
  then obtain r where r: "r \<in> set rows" "same_target r r'" "live_row r" by blast
  have "rows_affected (\<lambda>x. same_target r' x \<and> live_row x) rows'
      \<le> rows_affected (\<lambda>x. same_target r x \<and> live_row x) rows"
    by (rule affected_mono, rule list_all2_mono [OF assms(2) [unfolded no_revival_def]])
      (use r(2) in \<open>auto simp: same_target_def\<close>)
  moreover have "rows_affected (\<lambda>x. q_user_id x = q_user_id r' \<and> live_row x) rows'
      \<le> rows_affected (\<lambda>x. q_user_id x = q_user_id r \<and> live_row x) rows"
    by (rule affected_mono, rule list_all2_mono [OF assms(2) [unfolded no_revival_def]])
      (use r(2) in \<open>auto simp: same_target_def\<close>)
  ultimately show "rows_affected (\<lambda>x. same_target r' x \<and> live_row x) rows' \<le> 1 \<and>
      int (rows_affected (\<lambda>x. q_user_id x = q_user_id r' \<and> live_row x) rows') \<le> MAX_LIVE"
    using assms(1) r(1,3) by (force simp: live_rule_def)
qed

text \<open>Reviving the one row there was room for.\<close>

lemma affected_one:
  assumes "distinct (map q_id rows)"
  shows "rows_affected Q (update_where (\<lambda>r. q_id r = i \<and> P r) f rows) \<le> rows_affected Q rows + 1"
  using assms
proof (induction rows)
  case (Cons r rows)
  show ?case
  proof (cases "q_id r = i")
    case True
    with Cons.prems have "\<forall>x \<in> set rows. q_id x \<noteq> i" by (force simp: image_iff)
    then have "update_where (\<lambda>r. q_id r = i \<and> P r) f rows = rows"
      by (simp add: update_where_def map_idI)
    then show ?thesis by (simp add: update_where_def rows_affected_def)
  qed (use Cons in \<open>simp add: update_where_def rows_affected_def\<close>)
qed (simp add: update_where_def rows_affected_def)

lemma live_rule_revive:
  assumes rule: "live_rule rows" and ids: "distinct (map q_id rows)"
    and q: "q \<in> set rows" "q_id q = i"
    and f: "\<And>r. same_target r (f r)"
    and room: "rows_affected (\<lambda>r. same_target q r \<and> live_row r) rows = 0"
      "int (rows_affected (\<lambda>r. q_user_id r = q_user_id q \<and> live_row r) rows) < MAX_LIVE"
  shows "live_rule (update_where (\<lambda>r. q_id r = i \<and> P r) f rows)"
proof -
  let ?rows = "update_where (\<lambda>r. q_id r = i \<and> P r) f rows"
  have only: "r = q" if "r \<in> set rows" "q_id r = i" for r
    using ids q that by (auto simp: distinct_map inj_on_def)
  have others: "list_all2 (\<lambda>r r'. Q r' \<longrightarrow> Q r) rows ?rows" if "\<not> Q (f q)" for Q :: "request_row \<Rightarrow> bool"
  proof -
    have "Q (if q_id r = i \<and> P r then f r else r) \<longrightarrow> Q r" if "r \<in> set rows" for r
      using \<open>\<not> Q (f q)\<close> only [OF that] by auto
    then show ?thesis by (simp add: update_where_def list_all2_conv_all_nth)
  qed
  show ?thesis
    unfolding live_rule_def
  proof (intro ballI impI conjI)
    fix r assume r: "r \<in> set ?rows" "live_row r"
    then obtain r0 where r0: "r0 \<in> set rows" "r = (if q_id r0 = i \<and> P r0 then f r0 else r0)"
      by (auto simp: update_where_def)
    show "rows_affected (\<lambda>r'. same_target r r' \<and> live_row r') ?rows \<le> 1"
    proof (cases "same_target r q")
      case True
      then have "(\<lambda>r'. same_target r r' \<and> live_row r') = (\<lambda>r'. same_target q r' \<and> live_row r')"
        by (auto simp: same_target_def)
      then show ?thesis using affected_one [OF ids, of _ i P f] room(1) by (metis add_0)
    next
      case False
      then have "r = r0" using r0 only f [of q] by (auto simp: same_target_def split: if_splits)
      moreover have "\<not> (same_target r (f q) \<and> live_row (f q))" using False f [of q] by (auto simp: same_target_def)
      then have
        "rows_affected (\<lambda>r'. same_target r r' \<and> live_row r') ?rows
          \<le> rows_affected (\<lambda>r'. same_target r r' \<and> live_row r') rows"
        by (intro affected_mono others) simp
      ultimately show ?thesis using rule r0(1) r(2) by (force simp: live_rule_def)
    qed
    show "int (rows_affected (\<lambda>r'. q_user_id r' = q_user_id r \<and> live_row r') ?rows) \<le> MAX_LIVE"
    proof (cases "q_user_id r = q_user_id q")
      case True
      then show ?thesis
        using affected_one [OF ids, of "\<lambda>r'. q_user_id r' = q_user_id q \<and> live_row r'" i P f] room(2) by simp
    next
      case False
      then have "r = r0" using r0 only f [of q] by (auto simp: same_target_def split: if_splits)
      moreover have "\<not> (q_user_id (f q) = q_user_id r \<and> live_row (f q))"
        using False f [of q] by (auto simp: same_target_def)
      then have
        "rows_affected (\<lambda>r'. q_user_id r' = q_user_id r \<and> live_row r') ?rows
          \<le> rows_affected (\<lambda>r'. q_user_id r' = q_user_id r \<and> live_row r') rows"
        by (intro affected_mono others) simp
      ultimately show ?thesis using rule r0(1) r(2) by (force simp: live_rule_def)
    qed
  qed
qed


lemma live_rule_revive_in:
  assumes "sys_inv s" "live_rule (requests (s_db s))" "ensure_room i MAX_LIVE (s_db s) = Inr ()"
    and "\<And>r. same_target r (f r)"
    and "db = update_requests (\<lambda>r. q_id r = i \<and> P r) f (s_db s)"
  shows "live_rule (requests db)"
proof -
  from assms(3) obtain q where q: "get_request i (s_db s) = Some q"
    and room: "rows_affected (\<lambda>r. same_target q r \<and> live_row r) (requests (s_db s)) = 0"
      "int (rows_affected (\<lambda>r. q_user_id r = q_user_id q \<and> live_row r) (requests (s_db s))) < MAX_LIVE"
    by (auto simp: ensure_room_def Let_def same_target_def live_row_def conj_assoc split: option.splits if_splits)
  have "q \<in> set (requests (s_db s))" "q_id q = i"
    using q fetch_optional_Some by (fastforce simp: get_request_def)+
  with live_rule_revive [OF assms(2) _ this assms(4) room, of P] assms(1,5) show ?thesis
    by (simp add: sys_inv_def table_ok_def)
qed

lemma live_rule_start:
  assumes "live_rule (requests db)" "start t u b k MAX_LIVE db = Inr (x, db')"
  shows "live_rule (requests db')"
proof (cases "requests db' = requests db")
  case False
  then obtain row where row: "requests db' = requests db @ [row]" "q_user_id row = u"
    "q_book_uuid row = b" "q_kind row = k"
    and none: "fetch_optional (\<lambda>r. q_user_id r = u \<and> q_book_uuid r = b \<and> q_kind r = k \<and>
      live_state (q_state r)) (requests db) = None"
    and room: "int (rows_affected (\<lambda>r. q_user_id r = u \<and> live_state (q_state r)) (requests db)) < MAX_LIVE"
    using assms(2) by (auto simp: start_def Let_def split: option.splits if_splits)
  have same: "filter (\<lambda>r'. same_target row r' \<and> live_row r') (requests db) = []"
    using none row(2-4) by (auto simp: fetch_optional_None same_target_def live_row_def filter_empty_conv)
  have per_target: "rows_affected (\<lambda>r'. same_target r r' \<and> live_row r') (requests db') \<le> 1"
    if r: "r \<in> set (requests db')" "live_row r" for r
  proof (cases "same_target r row")
    case True
    then have "(\<lambda>r'. same_target r r' \<and> live_row r') = (\<lambda>r'. same_target row r' \<and> live_row r')"
      by (auto simp: same_target_def)
    with same show ?thesis by (simp add: rows_affected_def row(1))
  next
    case False
    then have "r \<in> set (requests db)" using r row(1) by (auto simp: same_target_def)
    with r(2) assms(1) False show ?thesis by (auto simp: rows_affected_def row(1) live_rule_def)
  qed
  have per_user: "int (rows_affected (\<lambda>r'. q_user_id r' = q_user_id r \<and> live_row r') (requests db')) \<le> MAX_LIVE"
    if r: "r \<in> set (requests db')" "live_row r" for r
  proof (cases "q_user_id r = u")
    case True
    with room row(1) show ?thesis by (simp add: rows_affected_def live_row_def)
  next
    case False
    then have "r \<in> set (requests db)" using r row(1,2) by auto
    with r(2) assms(1) False row(2) show ?thesis by (auto simp: rows_affected_def row(1) live_rule_def)
  qed
  from per_target per_user show ?thesis by (auto simp: live_rule_def)
qed (use assms(1) in simp)

text \<open>The operations that never bring a row back to life.\<close>

lemmas revival_simps = same_target_def live_row_def live_state_def

lemma no_revival_poller:
  "no_revival (requests db) (requests (claim_due_cancels t db))"
  "no_revival (requests db) (requests (mark_removal_seen i tag db))"
  "no_revival (requests db) (requests (finish_removal i tag db))"
  "no_revival (requests db) (requests (mark_on_its_way t i n db))"
  "no_revival (requests db) (requests (set_import_key i chosen key db))"
  "no_revival (requests db) (requests (mark_ready t i chosen db))"
  "no_revival (requests db) (requests (record_progress i chosen p n db))"
  "no_revival (requests db) (requests (mark_stuck t i chosen reason why db))"
  unfolding claim_due_cancels_def mark_removal_seen_def finish_removal_def mark_on_its_way_def
    set_import_key_def mark_ready_def record_progress_def mark_stuck_def requests_update
  by (rule no_revival_update; auto simp: revival_simps)+

lemma no_revival_begin: "no_revival (requests db) (requests (snd (begin_download i db)))"
  by (auto simp: begin_download_def Let_def revival_simps intro!: no_revival_update split: option.splits)

lemma no_revival_search: "no_revival (requests db) (requests (finish_search t i oc db))"
  using finish_search_rows [of t i oc db]
  by (auto simp: revival_simps intro!: no_revival_update)

lemma no_revival_stop_all:
  "no_revival (requests db)
     (requests (fold (\<lambda>row db. mark_stuck t (q_id row) (q_chosen_result_id row) StoppedMoving why db) rows db))"
  by (induction rows arbitrary: db) (auto intro: no_revival_trans no_revival_poller)

text \<open>Rows that go, and rows that move to another book.\<close>

lemma live_rule_filter:
  assumes "live_rule rows"
  shows "live_rule (filter Q rows)"
proof -
  have le: "rows_affected P (filter Q rows) \<le> rows_affected P rows" for P
    unfolding rows_affected_def filter_filter by (induction rows) auto
  show ?thesis
    unfolding live_rule_def
  proof (intro ballI impI conjI)
    fix r assume r: "r \<in> set (filter Q rows)" "live_row r"
    with assms have "rows_affected (\<lambda>r'. same_target r r' \<and> live_row r') rows \<le> 1"
      "int (rows_affected (\<lambda>r'. q_user_id r' = q_user_id r \<and> live_row r') rows) \<le> MAX_LIVE"
      by (simp_all add: live_rule_def)
    with le [of "\<lambda>r'. same_target r r' \<and> live_row r'"] le [of "\<lambda>r'. q_user_id r' = q_user_id r \<and> live_row r'"]
    show "rows_affected (\<lambda>r'. same_target r r' \<and> live_row r') (filter Q rows) \<le> 1"
      "int (rows_affected (\<lambda>r'. q_user_id r' = q_user_id r \<and> live_row r') (filter Q rows)) \<le> MAX_LIVE"
      by linarith+
  qed
qed

lemma affected_split:
  assumes "\<forall>r \<in> set rows. Q r \<longrightarrow> P r" "rows_affected P rows \<le> n"
  shows "rows_affected Q rows \<le> n"
proof -
  have "rows_affected Q rows \<le> rows_affected P rows"
    using assms(1) unfolding rows_affected_def by (induction rows) auto
  with assms(2) show ?thesis by simp
qed

lemma affected_map: "rows_affected P (map g rows) = rows_affected (\<lambda>r. P (g r)) rows"
  by (induction rows) (simp_all add: rows_affected_def)

text \<open>
  Moving the rows \<open>P\<close> of one book to another keeps the rule unless two live ones meet there.
\<close>

lemma live_rule_move:
  assumes rule: "live_rule rows" and moved: "\<And>r. P r \<Longrightarrow> q_book_uuid r = a"
    and apart: "\<not> (\<exists>r \<in> set rows. \<exists>r' \<in> set rows. P r \<and> q_book_uuid r' = b \<and> live_row r \<and> live_row r' \<and>
      q_user_id r' = q_user_id r \<and> q_kind r' = q_kind r)"
  shows "live_rule (update_where P (\<lambda>r. r\<lparr> q_book_uuid := b \<rparr>) rows)"
proof -
  define g where "g r = (if P r then r\<lparr> q_book_uuid := b \<rparr> else r)" for r
  have rows: "update_where P (\<lambda>r. r\<lparr> q_book_uuid := b \<rparr>) rows = map g rows"
    by (simp add: update_where_def g_def)
  have g: "live_row (g r) = live_row r" "q_user_id (g r) = q_user_id r" "q_kind (g r) = q_kind r"
    "q_book_uuid (g r) = (if P r then b else q_book_uuid r)" for r
    by (simp_all add: g_def live_row_def)
  have "rows_affected (\<lambda>r'. same_target (g r) (g r') \<and> live_row (g r')) rows \<le> 1"
    if r: "r \<in> set rows" "live_row r" for r
  proof -
    have "same_target r r'" if r': "r' \<in> set rows" "same_target (g r) (g r')" "live_row (g r')" for r'
    proof -
      have alike: "q_user_id r' = q_user_id r" "q_kind r' = q_kind r"
        "(if P r' then b else q_book_uuid r') = (if P r then b else q_book_uuid r)"
        using r'(2) unfolding same_target_def g by simp_all
      have lives: "live_row r'" using r'(3) by (simp add: g)
      have "P r = P r'"
      proof (rule ccontr)
        assume "P r \<noteq> P r'"
        then consider "P r" "q_book_uuid r' = b" | "P r'" "q_book_uuid r = b" using alike(3) by (auto split: if_splits)
        then show False by cases (use apart r r'(1) lives alike(1,2) in metis)+
      qed
      then show ?thesis using alike moved [of r] moved [of r'] by (simp add: same_target_def split: if_splits)
    qed
    then have kept: "\<forall>r' \<in> set rows. same_target (g r) (g r') \<and> live_row (g r') \<longrightarrow> same_target r r' \<and> live_row r'"
      unfolding g(1) by blast
    have "rows_affected (\<lambda>r'. same_target r r' \<and> live_row r') rows \<le> 1"
      using rule r unfolding live_rule_def by blast
    with kept show ?thesis by (rule affected_split)
  qed
  moreover have "int (rows_affected (\<lambda>r'. q_user_id r' = q_user_id r \<and> live_row r') rows) \<le> MAX_LIVE"
    if "r \<in> set rows" "live_row r" for r
    using rule that unfolding live_rule_def by blast
  ultimately show ?thesis
    unfolding rows live_rule_def by (auto simp: affected_map g)
qed

text \<open>A merge, or its undo, by which two live requests of one reader meet on a book.\<close>

definition meet :: "(request_row \<Rightarrow> bool) \<Rightarrow> ustr \<Rightarrow> requests_db \<Rightarrow> bool" where
  "meet P b db \<longleftrightarrow>
     list_ex (\<lambda>r. P r \<and> live_row r \<and>
       list_ex (\<lambda>r'. q_book_uuid r' = b \<and> live_row r' \<and> q_user_id r' = q_user_id r \<and> q_kind r' = q_kind r)
         (requests db)) (requests db)"

definition joins_live :: "sys_event \<Rightarrow> requests_db \<Rightarrow> bool" where
  "joins_live ev db \<longleftrightarrow>
     (case ev of
        BooksMerged src tgt \<Rightarrow> meet (\<lambda>r. q_book_uuid r = src) tgt db
      | MergeUndone src tgt ids \<Rightarrow> meet (\<lambda>r. q_book_uuid r = tgt \<and> List.member ids (q_id r)) src db
      | _ \<Rightarrow> False)"

lemma live_rule_retarget:
  assumes "live_rule (requests db)"
  shows "\<not> joins_live (BooksMerged src tgt) db \<Longrightarrow> live_rule (requests (retarget_requests src tgt db))"
    and "\<not> joins_live (MergeUndone src tgt ids) db \<Longrightarrow> live_rule (requests (return_requests src tgt ids db))"
proof -
  have move: "live_rule (update_where P (\<lambda>r. r\<lparr> q_book_uuid := b \<rparr>) (requests db))"
    if "\<not> meet P b db" "\<And>r. P r \<Longrightarrow> q_book_uuid r = a" for P a b
  proof (rule live_rule_move [OF assms that(2)])
    show "\<not> (\<exists>r \<in> set (requests db). \<exists>r' \<in> set (requests db). P r \<and> q_book_uuid r' = b \<and> live_row r \<and>
        live_row r' \<and> q_user_id r' = q_user_id r \<and> q_kind r' = q_kind r)"
      using that(1) by (auto simp: meet_def list_ex_iff)
  qed
  show "\<not> joins_live (BooksMerged src tgt) db \<Longrightarrow> live_rule (requests (retarget_requests src tgt db))"
    unfolding retarget_requests_def requests_update joins_live_def sys_event.case
    by (rule move [where a = src]) simp_all
  show "\<not> joins_live (MergeUndone src tgt ids) db \<Longrightarrow> live_rule (requests (return_requests src tgt ids db))"
    unfolding return_requests_def requests_update joins_live_def sys_event.case
    by (rule move [where a = tgt]) simp_all
qed

lemma live_rule_drop:
  assumes "live_rule (requests db)"
  shows "live_rule (requests (delete_requests P db))"
    and "live_rule (requests (drop_requests t uuid db))"
proof -
  have gone: "live_rule (requests (delete_requests P db))" if "live_rule (requests db)" for P db
    using live_rule_filter [OF that] by (simp add: delete_requests_def delete_where_def)
  then show "live_rule (requests (delete_requests P db))" using assms .
  show "live_rule (requests (drop_requests t uuid db))"
    unfolding drop_requests_def
    by (rule gone, rule live_rule_no_revival [OF assms]) (auto simp: revival_simps intro!: no_revival_update)
qed

text \<open>Starting a stuck request again by other means than its finished download.\<close>

definition restarts_stuck :: "sys_event \<Rightarrow> requests_db \<Rightarrow> bool" where
  "restarts_stuck ev db \<longleftrightarrow>
     (case ev of
        SwapReq i _ \<Rightarrow> (case get_request i db of Some r \<Rightarrow> q_state r = Stuck | None \<Rightarrow> False)
      | Retry i \<Rightarrow> (case get_request i db of
                     Some r \<Rightarrow> q_state r = Stuck \<and> q_stuck_reason r \<noteq> Some CouldntAdd | None \<Rightarrow> False)
      | _ \<Rightarrow> False)"

lemma get_request_row:
  assumes "sys_inv s" "r \<in> set (requests (s_db s))" "q_id r = i"
  shows "get_request i (s_db s) = Some r"
  using assms fetch_unique [of q_id "requests (s_db s)" r i]
  by (simp add: get_request_def sys_inv_def table_ok_def)

lemma get_request_mem: "get_request i db = Some r \<Longrightarrow> r \<in> set (requests db) \<and> q_id r = i"
  using fetch_optional_Some by (fastforce simp: get_request_def)

lemma no_revival_swap:
  assumes "sys_inv s" "swap_in t i n note (s_db s) = Inr db"
    and "\<And>r. get_request i (s_db s) = Some r \<Longrightarrow> q_state r \<noteq> Stuck"
  shows "no_revival (requests (s_db s)) (requests db)"
proof -
  from assms(2) obtain picked where picked: "picked \<in> set (requests (s_db s))" "q_id picked = i"
    "downloading_row picked \<or> q_state picked = Stuck"
    by (auto simp: swap_in_def split: option.splits dest!: fetch_optional_Some)
  with assms(3) get_request_row [OF assms(1) picked(1,2)] have "live_row picked"
    by (auto simp: revival_simps downloading_row_def)
  moreover have "r = picked" if "r \<in> set (requests (s_db s))" "q_id r = i" for r
    using get_request_row [OF assms(1) that] get_request_row [OF assms(1) picked(1,2)] by simp
  ultimately show ?thesis
    using assms(2)
    by (auto simp: swap_in_def Let_def same_target_def split: option.splits intro!: no_revival_update)
qed

lemma live_rule_retry:
  assumes inv: "sys_inv s" and rule: "live_rule (requests (s_db s))"
    and res: "restart t i n MAX_LIVE (s_db s) = Inr db" and "\<not> restarts_stuck (Retry i) (s_db s)"
  shows "live_rule (requests db)"
proof (cases "\<exists>r. get_request i (s_db s) = Some r \<and> q_state r = Stuck \<and> q_stuck_reason r = Some CouldntAdd")
  case True
  with res have room: "ensure_room i MAX_LIVE (s_db s) = Inr ()"
    and eq: "db = update_requests (\<lambda>r. q_id r = i \<and> True)
      (\<lambda>r. r\<lparr> q_state := OnItsWay, q_progress := Some 1, q_stuck_reason := None,
              q_stuck_detail := None, q_updated_at := t \<rparr>) (s_db s)"
    by (auto simp: restart_def and_then_Inr)
  show ?thesis
    by (rule live_rule_revive_in [OF inv rule room _ eq]) (simp add: same_target_def)
next
  case False
  with assms(4) have calm: "q_state r \<noteq> Stuck" if "get_request i (s_db s) = Some r" for r
    using that by (auto simp: restarts_stuck_def)
  then have "requests db = update_where (\<lambda>r. q_id r = i \<and> (q_state r = Looking \<or> q_state r = Stuck))
      (\<lambda>r. r\<lparr> q_state := Looking, q_stuck_reason := None, q_stuck_detail := None, q_updated_at := t \<rparr>)
      (requests (s_db s))"
    using res by (auto simp: restart_def Let_def split: option.splits if_splits)
  moreover have "q_state r \<noteq> Stuck" if "r \<in> set (requests (s_db s))" "q_id r = i" for r
    using calm get_request_row [OF inv that] by simp
  ultimately have "no_revival (requests (s_db s)) (requests db)"
    by (auto simp: revival_simps intro!: no_revival_update)
  then show ?thesis by (rule live_rule_no_revival [OF rule])
qed

lemma live_rule_undo:
  assumes "sys_inv s" "live_rule (requests (s_db s))" "undo_cancel t i n MAX_LIVE (s_db s) = Inr db"
  shows "live_rule (requests db)"
proof -
  from assms(3) have room: "ensure_room i MAX_LIVE (s_db s) = Inr ()"
    and eq: "db = update_requests (\<lambda>r. q_id r = i \<and> undoable n r)
      (\<lambda>r. r\<lparr> q_state := (case q_prior_state r of Some p \<Rightarrow> p | None \<Rightarrow> q_state r),
              q_prior_state := None, q_cancelled_by := None, q_cancel_at := None,
              q_updated_at := t \<rparr>) (s_db s)"
    by (auto simp: undo_cancel_def and_then_Inr)
  then show ?thesis by (intro live_rule_revive_in [OF assms(1,2)]) (auto simp: same_target_def)
qed

lemma no_revival_reader:
  "cancel t i u n db = Inr db' \<Longrightarrow> no_revival (requests db) (requests db')"
  "choose_version t i v db = Inr db' \<Longrightarrow> no_revival (requests db) (requests db')"
  by (auto simp: cancel_def choose_version_def Let_def revival_simps downloading_row_def
      intro!: no_revival_update split: if_splits option.splits)

lemma no_revival_follow: "no_revival (requests (s_db s)) (requests (follow s row status))"
  by (auto simp: follow_def intro: no_revival_poller split: verdict.split)

lemmas no_revivals = no_revival_poller no_revival_search no_revival_stop_all no_revival_follow

lemma no_revival_step:
  assumes "sys_step ev s = Some s'"
    and "\<nexists>uuid. ev = BookPurged uuid" "\<nexists>u. ev = AccountDeleted u" "\<nexists>a b. ev = BooksMerged a b"
      "\<nexists>a b ids. ev = MergeUndone a b ids"
    and "\<nexists>u b k. ev = StartReq u b k" "\<nexists>i. ev = Undo i" "\<nexists>i. ev = Retry i" "\<nexists>i why. ev = SwapReq i why"
  shows "no_revival (requests (s_db s)) (requests (s_db s'))"
proof (cases ev)
  case (BeginAdd i)
  with assms(1) no_revival_begin [of "s_db s" i] show ?thesis
    by (auto split: if_splits prod.splits option.splits)
qed (use assms in \<open>auto simp: stop_downloading_def try_db_def intro: no_revivals no_revival_reader
       split: if_splits option.splits prod.splits bool.splits sum.splits\<close>)

lemma live_rule_step:
  assumes inv: "sys_inv s" and held: "live_rule (requests (s_db s))"
    and step: "sys_step ev s = Some s'" and calm: "\<not> restarts_stuck ev (s_db s)" "\<not> joins_live ev (s_db s)"
  shows "live_rule (requests (s_db s'))"
proof (cases ev)
  case (StartReq u b k)
  then show ?thesis using step held live_rule_start by (force split: sum.splits prod.splits)
next
  case (Undo i)
  then show ?thesis using step held live_rule_undo [OF inv held]
    by (auto simp: try_db_def split: sum.splits)
next
  case (Retry i)
  then show ?thesis using step held calm live_rule_retry [OF inv held]
    by (auto simp: try_db_def split: sum.splits)
next
  case (BooksMerged a b)
  then show ?thesis using step calm live_rule_retarget(1) [OF held] by (auto split: if_splits)
next
  case (MergeUndone a b ids)
  then show ?thesis using step calm live_rule_retarget(2) [OF held] by (auto split: if_splits)
next
  case (BookPurged uuid)
  then show ?thesis using step live_rule_drop(2) [OF held] by auto
next
  case (AccountDeleted u)
  then show ?thesis using step live_rule_drop(1) [OF held] by (auto simp: delete_requests_of_def)
next
  case (SwapReq i why)
  have "q_state r \<noteq> Stuck" if "get_request i (s_db s) = Some r" for r
    using calm SwapReq that by (auto simp: restarts_stuck_def)
  then show ?thesis using SwapReq step held no_revival_swap [OF inv] live_rule_no_revival [OF held]
    by (auto simp: try_db_def swap_def split: sum.splits)
qed (use no_revival_step [OF step] live_rule_no_revival [OF held] in auto)

subsection \<open>Taking back a cancel\<close>

lemma cancel_Inr:
  assumes "distinct (map q_id (requests db))" "get_request i db = Some r" "cancel t i u n db = Inr db'"
  shows "db' = update_requests (\<lambda>q. q_id q = i)
      (\<lambda>q. q\<lparr> q_prior_state := Some (q_state q), q_state := Cancelled, q_cancelled_by := Some u,
              q_cancel_at := Some (n + CANCEL_GRACE_SECS), q_updated_at := t \<rparr>) db"
proof -
  let ?C = "\<lambda>q. q_state q = Looking \<or> q_state q = Choose \<or> q_state q = Chosen \<or> downloading_row q"
  have only: "q = r" if "q \<in> set (requests db)" "q_id q = i" for q
    using assms(1) get_request_mem [OF assms(2)] that by (auto simp: distinct_map inj_on_def)
  from assms(3) have "?C r" and eq: "db' = update_requests (\<lambda>q. q_id q = i \<and> ?C q)
      (\<lambda>q. q\<lparr> q_prior_state := Some (q_state q), q_state := Cancelled, q_cancelled_by := Some u,
              q_cancel_at := Some (n + CANCEL_GRACE_SECS), q_updated_at := t \<rparr>) db"
    by (auto simp: cancel_def Let_def dest: only split: if_splits)
  then have "(q_id q = i \<and> ?C q) = (q_id q = i)" if "q \<in> set (requests db)" for q
    using only [OF that] by blast
  then show ?thesis unfolding eq by (auto simp: update_requests_def update_where_def)
qed

lemma undo_after_cancel:
  assumes ids: "distinct (map q_id (requests db))" and r: "get_request i db = Some r"
    and c: "cancel t i u n db = Inr db'"
  shows "get_request i db' = Some (r\<lparr> q_prior_state := Some (q_state r), q_state := Cancelled,
      q_cancelled_by := Some u, q_cancel_at := Some (n + CANCEL_GRACE_SECS), q_updated_at := t \<rparr>)"
    and "distinct (map q_id (requests db'))"
    and "results db' = results db"
    and "q \<in> set (requests db) \<Longrightarrow> q_id q \<noteq> i \<Longrightarrow> q \<in> set (requests db')"
proof -
  let ?f = "\<lambda>q. q\<lparr> q_prior_state := Some (q_state q), q_state := Cancelled, q_cancelled_by := Some u,
      q_cancel_at := Some (n + CANCEL_GRACE_SECS), q_updated_at := t \<rparr>"
  note eq = cancel_Inr [OF assms]
  show "get_request i db' = Some (?f r)"
    using fetch_update_unique [of q_id "requests db" r i ?f] ids get_request_mem [OF r]
    by (simp add: get_request_def eq)
  show "distinct (map q_id (requests db'))"
    using ids by (simp add: eq map_update_where)
  show "results db' = results db" by (simp add: eq)
  show "q \<in> set (requests db) \<Longrightarrow> q_id q \<noteq> i \<Longrightarrow> q \<in> set (requests db')"
    by (auto simp: eq update_where_def)
qed

lemma undo_Inr:
  assumes ids: "distinct (map q_id (requests db))" and r: "get_request i db = Some r"
    and st: "q_state r = Cancelled" "q_prior_state r = Some p" "q_cancel_at r = Some due" "due > n"
    and room: "ensure_room i m db = Inr ()"
  shows "\<exists>db'. undo_cancel t i n m db = Inr db' \<and>
      get_request i db' = Some (r\<lparr> q_state := p, q_prior_state := None, q_cancelled_by := None,
        q_cancel_at := None, q_updated_at := t \<rparr>) \<and>
      results db' = results db \<and>
      (\<forall>q \<in> set (requests db). q_id q \<noteq> i \<longrightarrow> q \<in> set (requests db'))"
proof -
  let ?f = "\<lambda>q. q\<lparr> q_state := (case q_prior_state q of Some p \<Rightarrow> p | None \<Rightarrow> q_state q),
      q_prior_state := None, q_cancelled_by := None, q_cancel_at := None, q_updated_at := t \<rparr>"
  let ?db = "update_requests (\<lambda>q. q_id q = i \<and> undoable n q) ?f db"
  have mem: "r \<in> set (requests db)" "q_id r = i" using get_request_mem [OF r] by simp_all
  have und: "undoable n r" using st by (simp add: undoable_def)
  have "list_ex (\<lambda>q. q_id q = i \<and> undoable n q \<and> q_prior_state q \<noteq> None) (requests db)"
    using mem und st(2) by (auto simp: list_ex_iff)
  with room have undo: "undo_cancel t i n m db = Inr ?db" by (simp add: undo_cancel_def)
  have "get_request i ?db = Some (?f r)"
    using fetch_update [of "\<lambda>q. q_id q = i" ?f "\<lambda>q. q_id q = i \<and> undoable n q" "requests db"] r und mem(2)
    by (simp add: get_request_def)
  moreover have "\<forall>q \<in> set (requests db). q_id q \<noteq> i \<longrightarrow> q \<in> set (requests ?db)"
    by (auto simp: update_where_def)
  ultimately show ?thesis using undo st(2) by auto
qed

lemma not_undoable:
  assumes "distinct (map q_id (requests db))" "get_request i db = Some r" "\<not> undoable n r"
  shows "undo_cancel t i n m db = Inl WrongState"
proof -
  have "q = r" if "q \<in> set (requests db)" "q_id q = i" for q
    using assms(1) get_request_mem [OF assms(2)] that by (auto simp: distinct_map inj_on_def)
  with assms(3) have "\<not> list_ex (\<lambda>q. q_id q = i \<and> undoable n q \<and> q_prior_state q \<noteq> None) (requests db)"
    by (auto simp: list_ex_iff)
  then show ?thesis by (simp add: undo_cancel_def)
qed

lemma not_cancellable:
  assumes "distinct (map q_id (requests db))" "get_request i db = Some r" "q_state r = Cancelled"
  shows "cancel t i u n db = Inl WrongState"
proof -
  have "q = r" if "q \<in> set (requests db)" "q_id q = i" for q
    using assms(1) get_request_mem [OF assms(2)] that by (auto simp: distinct_map inj_on_def)
  with assms(3) show ?thesis by (auto simp: cancel_def Let_def downloading_row_def)
qed

subsection \<open>Properties\<close>

definition demo_release :: "string \<Rightarrow> ranked" where
  "demo_release guid =
     \<lparr> rk_release = \<lparr> rel_guid = str guid, rel_title = str ''Emma'', rel_size_bytes = None, rel_seeders = None,
                       rel_indexer = None, rel_link = str ''magnet:'' \<rparr>,
       rk_format = None, rk_score = 1, rk_best_match = True, rk_rejected = False \<rparr>"

text \<open>Found, picked, handed to the client, cancelled, and claimed once the grace is over.\<close>

definition demo_cancelled :: "sys_event list" where
  "demo_cancelled =
     [StartReq 1 (str ''b'') Ebook, SearchDone 1 (Found [demo_release ''g'']), Pick 1 1, BeginAdd 1,
      AddJob, Appear (tag_of 1 1), AddDone, CancelReq 1 1, Tick 10, Claim]"

text \<open>C4: No download is lost track of: every job the client still has, or may yet show, is the
  download of a request or on the removal list, whatever the readers and the poller did, however
  books were merged, moved back and purged, and wherever the server restarted. (Deleting an account
  with a download in the client is the step the system leaves out, see
  \<open>deleted_account_abandons_its_download\<close>.)\<close>

theorem every_download_is_tracked:
  assumes "reachable sys_init request_step s" "s_jobs s tag = Some j" "live_job (s_now s) j"
  shows "\<exists>r \<in> set (requests (s_db s)). q_client_tag r = Some tag \<or> q_remove_tag r = Some tag"
  using request_system.reachable_inv [OF assms(1)] assms(2,3)
  by (fastforce simp: sys_inv_def jobs_tracked_def tracks_def)

lemma run_sys_append:
  "run_sys (evs @ evs') s = (case run_sys evs s of Some s' \<Rightarrow> run_sys evs' s' | None \<Rightarrow> None)"
  by (induction evs s rule: run_sys.induct) (auto split: option.split)

definition holds_after :: "sys_event list \<Rightarrow> (request_sys \<Rightarrow> bool) \<Rightarrow> bool" where
  "holds_after evs P \<longleftrightarrow> accounts_stay evs \<and> (case run_sys evs (fresh_sys 0) of Some s \<Rightarrow> P s | None \<Rightarrow> False)"

lemma holds_afterE:
  assumes "holds_after evs P"
  obtains s where "run_sys evs (fresh_sys 0) = Some s" "reachable sys_init request_step s" "P s"
proof -
  obtain s where s: "run_sys evs (fresh_sys 0) = Some s" "P s"
    using assms by (auto simp: holds_after_def split: option.splits)
  moreover have "reachable sys_init request_step s"
    by (rule run_sys_reachable [OF _ _ s(1)])
      (use assms in \<open>auto simp: holds_after_def intro: reach_init sys_init.intros\<close>)
  ultimately show thesis using that by blast
qed

theorem every_download_is_tracked_witness:
  "\<exists>s. run_sys demo_cancelled (fresh_sys 0) = Some s \<and>
     (\<exists>r \<in> set (requests (s_db s)). q_client_tag r = Some (tag_of 1 1) \<or> q_remove_tag r = Some (tag_of 1 1))"
proof -
  have "holds_after demo_cancelled (\<lambda>s. case s_jobs s (tag_of 1 1) of
      Some j \<Rightarrow> live_job (s_now s) j | None \<Rightarrow> False)" by code_simp
  then obtain s j where s: "run_sys demo_cancelled (fresh_sys 0) = Some s" "reachable sys_init request_step s"
    "s_jobs s (tag_of 1 1) = Some j" "live_job (s_now s) j"
    by (elim holds_afterE) (auto split: option.splits)
  from every_download_is_tracked [OF s(2-4)] s(1) show ?thesis by blast
qed

text \<open>C23: A reader never gets a second live request for a book and format, nor more than five
  altogether, by anything that happens to the requests, the poller, the books or the accounts, with
  two exceptions: starting a stuck request again without its finished download, and a merge of books,
  or the undo of one, by which live requests of the reader for one format meet on a book.\<close>

theorem live_rule_is_kept:
  assumes "reachable sys_init request_step s" "live_rule (requests (s_db s))"
    and "sys_step ev s = Some s'" "\<not> restarts_stuck ev (s_db s)" "\<not> joins_live ev (s_db s)"
  shows "live_rule (requests (s_db s'))"
  by (rule live_rule_step [OF request_system.reachable_inv [OF assms(1)] assms(2-5)])

text \<open>A cancel taken back, and a merge of books by which a reader's two requests differ in format.\<close>

theorem live_rule_is_kept_witness:
  "(\<exists>s s'. run_sys [StartReq 1 (str ''b'') Ebook, CancelReq 1 1, StartReq 1 (str ''c'') Ebook] (fresh_sys 0) = Some s \<and>
     sys_step (Undo 1) s = Some s' \<and> live_rule (requests (s_db s'))) \<and>
   (\<exists>s s'. run_sys [StartReq 1 (str ''b'') Audiobook, StartReq 1 (str ''c'') Ebook] (fresh_sys 0) = Some s \<and>
     sys_step (BooksMerged (str ''b'') (str ''c'')) s = Some s' \<and> live_rule (requests (s_db s')))"
proof
  let ?run = "[StartReq 1 (str ''b'') Ebook, CancelReq 1 1, StartReq 1 (str ''c'') Ebook]"
  have "holds_after ?run (\<lambda>s. live_rule (requests (s_db s)))" by code_simp
  then obtain s where s: "run_sys ?run (fresh_sys 0) = Some s" "reachable sys_init request_step s"
    "live_rule (requests (s_db s))" by (rule holds_afterE)
  from live_rule_is_kept [OF s(2,3), of "Undo 1"] s(1)
  show "\<exists>s s'. run_sys ?run (fresh_sys 0) = Some s \<and> sys_step (Undo 1) s = Some s' \<and> live_rule (requests (s_db s'))"
    by (simp add: restarts_stuck_def joins_live_def)
next
  let ?run = "[StartReq 1 (str ''b'') Audiobook, StartReq 1 (str ''c'') Ebook]"
  let ?ev = "BooksMerged (str ''b'') (str ''c'')"
  have "holds_after ?run (\<lambda>s. live_rule (requests (s_db s)) \<and> \<not> joins_live ?ev (s_db s))" by code_simp
  then obtain s where s: "run_sys ?run (fresh_sys 0) = Some s" "reachable sys_init request_step s"
    "live_rule (requests (s_db s)) \<and> \<not> joins_live ?ev (s_db s)" by (rule holds_afterE)
  have "str ''b'' \<noteq> str ''c''" by code_simp
  with live_rule_is_kept [OF s(2), of ?ev] s(1,3)
  show "\<exists>s s'. run_sys ?run (fresh_sys 0) = Some s \<and> sys_step ?ev s = Some s' \<and> live_rule (requests (s_db s'))"
    by (simp add: restarts_stuck_def)
qed

text \<open>
  The exceptions are real. A reader asks for two books that are then merged: two live requests for
  one book, in one step from a state that keeps the rule.
\<close>

theorem merge_joins_live_requests:
  "holds_after [StartReq 1 (str ''b'') Ebook, StartReq 1 (str ''c'') Ebook] (\<lambda>s. live_rule (requests (s_db s))) \<and>
   holds_after [StartReq 1 (str ''b'') Ebook, StartReq 1 (str ''c'') Ebook, BooksMerged (str ''b'') (str ''c'')]
     (\<lambda>s. \<not> live_rule (requests (s_db s)))"
  by (intro conjI; code_simp)

text \<open>
  And an account deleted while its request downloads leaves the client a job that no row names: the
  step left out of the system.
\<close>

theorem deleted_account_abandons_its_download:
  "case run_sys [StartReq 1 (str ''b'') Ebook, SearchDone 1 (Found [demo_release ''g'']), Pick 1 1, BeginAdd 1,
       AddJob, Appear (tag_of 1 1), AddDone, AccountDeleted 1, Tick 1000000] (fresh_sys 0) of
     None \<Rightarrow> False
   | Some s \<Rightarrow> requests (s_db s) = [] \<and>
       (case s_jobs s (tag_of 1 1) of Some j \<Rightarrow> live_job (s_now s) j | None \<Rightarrow> False)"
  by code_simp

lemma restart_second_live:
  assumes "distinct (map q_id (requests db))" "get_request i db = Some r" "q_state r = Stuck"
    and "q_stuck_reason r = Some SearchFailed \<or> q_stuck_reason r = Some NotFoundReason"
    and "other \<in> set (requests db)" "same_target r other" "live_row other"
  shows "ensure_room i m db = Inl WrongState"
    and "\<exists>db'. restart t i n m db = Inr db' \<and> \<not> live_rule (requests db')"
proof -
  let ?P = "\<lambda>q. q_id q = i \<and> (q_state q = Looking \<or> q_state q = Stuck)"
  let ?f = "\<lambda>q. q\<lparr> q_state := Looking, q_stuck_reason := None, q_stuck_detail := None, q_updated_at := t \<rparr>"
  have mem: "r \<in> set (requests db)" "q_id r = i" using get_request_mem [OF assms(2)] by simp_all
  have "\<exists>o' \<in> set (requests db). q_user_id o' = q_user_id r \<and> q_book_uuid o' = q_book_uuid r \<and>
      q_kind o' = q_kind r \<and> live_state (q_state o')"
    using assms(5-7) by (auto simp: same_target_def live_row_def)
  then show "ensure_room i m db = Inl WrongState"
    using assms(2) by (auto simp: ensure_room_def Let_def rows_affected_def filter_empty_conv)
  let ?rows = "update_where ?P ?f (requests db)"
  have apart: "q_id other \<noteq> i"
    using assms(1,3,5,7) mem by (auto simp: live_row_def live_state_def distinct_map inj_on_def)
  have "?f r \<in> set ?rows" "other \<in> set ?rows"
    using mem_update_where [OF mem(1), of ?P ?f] mem_update_where [OF assms(5), of ?P ?f] mem(2) assms(3) apart
    by simp_all
  moreover have "?f r \<noteq> other" using apart mem(2) by auto
  ultimately have "2 \<le> card {q \<in> set ?rows. same_target (?f r) q \<and> live_row q}"
    using assms(6,7) card_mono [of "{q \<in> set ?rows. same_target (?f r) q \<and> live_row q}" "{?f r, other}"]
    by (auto simp: same_target_def live_row_def live_state_def)
  also have "\<dots> \<le> rows_affected (\<lambda>q. same_target (?f r) q \<and> live_row q) ?rows"
    using card_length [of "filter (\<lambda>q. same_target (?f r) q \<and> live_row q) ?rows"]
    by (simp add: rows_affected_def)
  finally have "\<not> live_rule ?rows"
    using \<open>?f r \<in> set ?rows\<close> by (force simp: live_rule_def live_row_def live_state_def)
  moreover have "\<exists>db'. restart t i n m db = Inr db' \<and> requests db' = ?rows"
    using assms(2-4) mem by (auto simp: restart_def Let_def)
  ultimately show "\<exists>db'. restart t i n m db = Inr db' \<and> \<not> live_rule (requests db')" by auto
qed

text \<open>C24: Starting a stuck request again does not look whether its reader has meanwhile asked for
  the same book: a request whose search failed goes live beside the newer one, where a cancel
  that is taken back is refused.\<close>

theorem retry_makes_a_second_live_request:
  assumes "distinct (map q_id (requests db))" "get_request i db = Some r" "q_state r = Stuck"
    and "q_stuck_reason r = Some SearchFailed \<or> q_stuck_reason r = Some NotFoundReason"
    and "other \<in> set (requests db)" "same_target r other" "live_row other"
  shows "ensure_room i m db = Inl WrongState \<and>
    (\<exists>db'. restart t i n m db = Inr db' \<and> \<not> live_rule (requests db'))"
  using restart_second_live [OF assms] by blast

text \<open>A search that failed, and the same book asked for again.\<close>

definition demo_twice :: "sys_event list" where
  "demo_twice =
     [StartReq 1 (str ''b'') Ebook, SearchDone 1 (StuckOn SearchFailed None), StartReq 1 (str ''b'') Ebook]"

theorem retry_makes_a_second_live_request_witness:
  "\<exists>s db'. run_sys demo_twice (fresh_sys 0) = Some s \<and> live_rule (requests (s_db s)) \<and>
     restart 0 1 0 5 (s_db s) = Inr db' \<and> \<not> live_rule (requests db')"
proof -
  have "holds_after demo_twice (\<lambda>s. live_rule (requests (s_db s)) \<and> distinct (map q_id (requests (s_db s))) \<and>
      (case requests (s_db s) of
         [r, q] \<Rightarrow> get_request 1 (s_db s) = Some r \<and> q_state r = Stuck \<and>
           q_stuck_reason r = Some SearchFailed \<and> same_target r q \<and> live_row q
       | _ \<Rightarrow> False))" by code_simp
  then obtain s r q where s: "run_sys demo_twice (fresh_sys 0) = Some s" "live_rule (requests (s_db s))"
    "distinct (map q_id (requests (s_db s)))" "requests (s_db s) = [r, q]"
    "get_request 1 (s_db s) = Some r" "q_state r = Stuck" "q_stuck_reason r = Some SearchFailed"
    "same_target r q" "live_row q"
    by (elim holds_afterE) (auto split: list.splits)
  from retry_makes_a_second_live_request [OF s(3,5,6) _ _ s(8,9), of 5 0 0] s(1,2,4,7) show ?thesis by auto
qed

text \<open>A cancel can be taken back for ten seconds, if there is still room for the request: the
  request is then as it was, everything else untouched. After that, or a second time, it cannot,
  and a cancelled request cannot be cancelled again.\<close>

theorem cancel_and_undo:
  assumes "distinct (map q_id (requests db))" "get_request i db = Some r" "cancel t i u n db = Inr db'"
  shows "cancel t' i u' n' db' = Inl WrongState \<and>
    (n' \<ge> n + 10 \<longrightarrow> undo_cancel t' i n' m db' = Inl WrongState) \<and>
    (n' < n + 10 \<longrightarrow> ensure_room i m db' = Inr () \<longrightarrow>
       (\<exists>db''. undo_cancel t' i n' m db' = Inr db'' \<and>
          get_request i db'' = Some (r\<lparr> q_prior_state := None, q_cancelled_by := None,
            q_cancel_at := None, q_updated_at := t' \<rparr>) \<and>
          results db'' = results db \<and>
          (\<forall>q \<in> set (requests db). q_id q \<noteq> i \<longrightarrow> q \<in> set (requests db'')) \<and>
          undo_cancel t' i n' m db'' = Inl WrongState))"
proof -
  note after = undo_after_cancel [OF assms]
  have late: "undo_cancel t' i n' m db' = Inl WrongState" if "n' \<ge> n + 10"
    by (rule not_undoable [OF after(2,1)]) (use that in \<open>simp add: undoable_def CANCEL_GRACE_SECS_def\<close>)
  have undone: "\<exists>db''. undo_cancel t' i n' m db' = Inr db'' \<and>
      get_request i db'' = Some (r\<lparr> q_prior_state := None, q_cancelled_by := None,
        q_cancel_at := None, q_updated_at := t' \<rparr>) \<and> results db'' = results db \<and>
      (\<forall>q \<in> set (requests db). q_id q \<noteq> i \<longrightarrow> q \<in> set (requests db'')) \<and>
      undo_cancel t' i n' m db'' = Inl WrongState"
    if room: "n' < n + 10" "ensure_room i m db' = Inr ()"
  proof -
    from undo_Inr [OF after(2,1) _ _ _ _ room(2), of "q_state r" "n + CANCEL_GRACE_SECS" n' t'] room(1)
    obtain db'' where db'': "undo_cancel t' i n' m db' = Inr db''"
      "get_request i db'' = Some (r\<lparr> q_prior_state := None, q_cancelled_by := None,
        q_cancel_at := None, q_updated_at := t' \<rparr>)" "results db'' = results db'"
      "\<forall>q \<in> set (requests db'). q_id q \<noteq> i \<longrightarrow> q \<in> set (requests db'')"
      by (auto simp: CANCEL_GRACE_SECS_def)
    have "map q_id (requests db'') = map q_id (requests db')"
      using db''(1) by (auto simp: undo_cancel_def and_then_Inr map_update_where)
    with after(2) have "undo_cancel t' i n' m db'' = Inl WrongState"
      by (intro not_undoable [OF _ db''(2)]) (simp_all add: undoable_def)
    with db'' after(3,4) show ?thesis by auto
  qed
  show ?thesis using late undone not_cancellable [OF after(2,1)] by simp
qed

theorem cancel_and_undo_witness:
  "\<exists>r db'' s. run_sys [StartReq 1 (str ''b'') Ebook, CancelReq 1 1] (fresh_sys 0) = Some s \<and>
     undo_cancel 0 1 9 5 (s_db s) = Inr db'' \<and> get_request 1 db'' = Some r \<and> q_state r = Looking"
proof -
  have "holds_after [StartReq 1 (str ''b'') Ebook] (\<lambda>s. distinct (map q_id (requests (s_db s))) \<and>
      (case get_request 1 (s_db s) of Some r \<Rightarrow> q_state r = Looking | None \<Rightarrow> False) \<and> s_now s = 0 \<and>
      (case cancel 0 1 1 0 (s_db s) of Inr db \<Rightarrow> ensure_room 1 5 db = Inr () | Inl _ \<Rightarrow> False))" by code_simp
  then obtain s r db' where s: "run_sys [StartReq 1 (str ''b'') Ebook] (fresh_sys 0) = Some s" "s_now s = 0"
    "distinct (map q_id (requests (s_db s)))" "get_request 1 (s_db s) = Some r" "q_state r = Looking"
    "cancel 0 1 1 0 (s_db s) = Inr db'" "ensure_room 1 5 db' = Inr ()"
    by (elim holds_afterE) (auto split: option.splits sum.splits)
  from cancel_and_undo [OF s(3,4,6), of 0 1 9 5] s(7) obtain db'' where
    "undo_cancel 0 1 9 5 db' = Inr db''"
    "get_request 1 db'' = Some (r\<lparr> q_prior_state := None, q_cancelled_by := None, q_cancel_at := None,
       q_updated_at := 0 \<rparr>)" by auto
  moreover have "run_sys [StartReq 1 (str ''b'') Ebook, CancelReq 1 1] (fresh_sys 0) = Some (set_db s db')"
    using run_sys_append [of "[StartReq 1 (str ''b'') Ebook]" "[CancelReq 1 1]" "fresh_sys 0"] s(1,2,6)
    by (simp add: try_db_def del: sys_step.simps(2))
  ultimately show ?thesis using s(5) by (intro exI conjI) (assumption | simp)+
qed

lemma inserted_results:
  "x \<in> set (results (fold (insert_result i) rs db)) \<Longrightarrow>
     x \<in> set (results db) \<or> (\<exists>r \<in> set rs. v_release x = rk_release r)"
  by (induction rs arbitrary: db) (fastforce simp: insert_result_def Let_def)+

lemma search_skips_given_up:
  assumes "x \<in> set (results (finish_search t i (Found rs) db))"
    and "w \<in> set (results db)" "v_request_id w = i" "v_tried w"
    and "rel_guid (v_release x) = rel_guid (v_release w)"
  shows "x \<in> set (results db)"
proof (rule ccontr)
  assume new: "x \<notin> set (results db)"
  with assms(1) obtain kept where kept: "without_given_up i rs db = Found kept"
    "\<exists>r \<in> set kept. v_release x = rk_release r"
    by (auto simp: finish_search_def Let_def split: search_outcome.splits if_splits dest!: inserted_results)
  then show False
    using assms(2-5) by (auto simp: without_given_up_def Let_def list_ex_iff split: if_splits)
qed

lemma swap_gives_up:
  assumes "swap t i n why db = Inr db'" "get_request i db = Some r" "distinct (map q_id (requests db))"
  shows "results db' = update_where (\<lambda>x. Some (v_id x) = q_chosen_result_id r)
      (\<lambda>x. x\<lparr> v_rejected := True, v_tried := True \<rparr>) (results db)"
proof -
  let ?Q = "\<lambda>r. q_id r = i \<and> q_remove_tag r = None \<and>
      (downloading_row r \<or> q_state r = Stuck \<and> q_stuck_reason r = Some StoppedMoving)"
  from assms(1) obtain picked where found: "fetch_optional ?Q (requests db) = Some picked"
    and given_up: "results db' = update_where (\<lambda>x. Some (v_id x) = q_chosen_result_id picked)
      (\<lambda>x. x\<lparr> v_rejected := True, v_tried := True \<rparr>) (results db)"
    by (auto simp: swap_def swap_in_def Let_def split: option.splits)
  have "picked \<in> set (requests db)" "q_id picked = i" using fetch_optional_Some [OF found] by simp_all
  with get_request_mem [OF assms(2)] assms(3) have "picked = r" by (auto simp: distinct_map inj_on_def)
  with given_up show ?thesis by simp
qed

lemma choose_not_kept: "\<not> kept_version i v db \<Longrightarrow> \<exists>e. choose_version t i v db = Inl e"
  by (simp add: choose_version_def rows_affected_def split: option.split)

text \<open>A version given up by a swap cannot be picked again, and a new search for the request does
  not store its release a second time.\<close>

theorem given_up_versions_stay_out:
  assumes "swap t i n why db = Inr db'" "get_request i db = Some r" "distinct (map q_id (requests db))"
    and "q_chosen_result_id r = Some v" "w \<in> set (results db)" "v_id w = v" "v_request_id w = i"
    and "x \<in> set (results (finish_search t' i (Found rs) db'))" "v_request_id x = i"
    and "rel_guid (v_release x) = rel_guid (v_release w)"
  shows "(\<exists>e. choose_version t' i v db' = Inl e) \<and> x \<in> set (results db')"
proof -
  let ?give_up = "\<lambda>x :: result_row. x\<lparr> v_rejected := True, v_tried := True \<rparr>"
  have vs: "results db' = update_where (\<lambda>x. v_id x = v) ?give_up (results db)"
    using swap_gives_up [OF assms(1-3)] by (simp add: assms(4))
  have "\<forall>x \<in> set (results db'). v_id x = v \<longrightarrow> v_rejected x"
    unfolding vs set_update_where ball_Un by simp
  then have "\<not> kept_version i v db'" unfolding kept_version_def list_ex_iff by blast
  then have "\<exists>e. choose_version t' i v db' = Inl e" by (rule choose_not_kept)
  moreover have "?give_up w \<in> set (results db')"
    using mem_update_where [OF assms(5), of "\<lambda>x. v_id x = v" ?give_up] assms(6) by (simp add: vs)
  then have "x \<in> set (results db')"
    by (rule search_skips_given_up [OF assms(8)]) (simp_all add: assms(7,10))
  ultimately show ?thesis by (rule conjI)
qed

text \<open>The only version found is downloading.\<close>

definition demo_downloading :: "sys_event list" where
  "demo_downloading =
     [StartReq 1 (str ''b'') Ebook, SearchDone 1 (Found [demo_release ''g'']), Pick 1 1, BeginAdd 1, AddJob, AddDone]"

text \<open>The result rows of a swap and of the search after it.\<close>

definition demo_search_again :: "requests_db \<Rightarrow> result_row list" where
  "demo_search_again db =
     (case swap 0 1 0 None db of
        Inr db' \<Rightarrow> results (finish_search 0 1 (Found [demo_release ''g'', demo_release ''h'']) db')
      | Inl _ \<Rightarrow> [])"

theorem given_up_versions_stay_out_witness:
  "\<exists>s db'. run_sys demo_downloading (fresh_sys 0) = Some s \<and> swap 0 1 0 None (s_db s) = Inr db' \<and>
     choose_version 0 1 1 db' \<in> range Inl"
proof -
  have "holds_after demo_downloading (\<lambda>s. distinct (map q_id (requests (s_db s))) \<and>
      (case get_request 1 (s_db s) of Some r \<Rightarrow> q_chosen_result_id r = Some 1 | None \<Rightarrow> False) \<and>
      (case swap 0 1 0 None (s_db s) of Inr _ \<Rightarrow> True | Inl _ \<Rightarrow> False) \<and>
      (case (results (s_db s), demo_search_again (s_db s)) of
         ([w], [x, y]) \<Rightarrow> v_id w = 1 \<and> v_request_id w = 1 \<and> v_request_id x = 1 \<and>
           rel_guid (v_release x) = rel_guid (v_release w)
       | _ \<Rightarrow> False))" by code_simp
  then obtain s r w x y db' where s: "run_sys demo_downloading (fresh_sys 0) = Some s"
    "swap 0 1 0 None (s_db s) = Inr db'" "get_request 1 (s_db s) = Some r"
    "distinct (map q_id (requests (s_db s)))" "q_chosen_result_id r = Some 1"
    "results (s_db s) = [w]" "demo_search_again (s_db s) = [x, y]"
    "v_id w = 1" "v_request_id w = 1" "v_request_id x = 1" "rel_guid (v_release x) = rel_guid (v_release w)"
    by (elim holds_afterE) (auto split: option.splits sum.splits list.splits)
  have "w \<in> set (results (s_db s))" using s(6) by simp
  moreover have
    "x \<in> set (results (finish_search 0 1 (Found [demo_release ''g'', demo_release ''h'']) db'))"
    using s(2,7) by (simp add: demo_search_again_def)
  ultimately have "\<exists>e. choose_version 0 1 1 db' = Inl e"
    using given_up_versions_stay_out [OF s(2-5) _ s(8,9) _ s(10,11)] by blast
  then show ?thesis using s(1,2) by auto
qed

end
