(* ===== verification/Progress.thy ===== *)
theory Progress
  imports Omni_Prelude Complex_Main "HOL-Library.List_Lexorder" "HOL-Library.Product_Lexorder"
begin

text \<open>
  Reading positions (\<open>db/src/progress/upsert.rs\<close>, \<open>ledger.rs\<close>, \<open>session.rs\<close>, the store half
  of \<open>state.rs\<close> and \<open>resume.rs\<close>, \<open>shared/src/progress.rs\<close>) and read statuses
  (\<open>db/src/read_status/mod.rs\<close>): the tables, the write that keeps the newest position of a
  reader in one format of a book, the ledger of pages covered, the status a position starts,
  and the session reports. Seconds and fractions (\<open>f64\<close>) are exact rationals, stored tokens
  are constructors, and \<open>pe_now\<close> is the database clock.
\<close>

subsection \<open>Rows\<close>

datatype progress_format = Epub | Audio

datatype read_status = Unread | Reading | Finished

datatype progress_error = BookNotFound | Sqlx

record book_ref =
  bk_id :: int
  bk_uuid :: ustr

record book_file_ref =
  bf_book_id :: int
  bf_format :: string

record library_db =
  lib_books :: "book_ref list"
  lib_merged :: "(ustr \<times> int) list"
  lib_files :: "book_file_ref list"

record position_row =
  p_user_id :: int
  p_book_uuid :: ustr
  p_format :: progress_format
  p_epub_cfi :: "ustr option"
  p_audio_seconds :: "rat option"
  p_percent :: "int option"
  p_kobo_location :: "ustr option"
  p_book_file_id :: "int option"
  p_xpointer :: "ustr option"
  p_koreader_percentage :: "rat option"
  p_spent_minutes :: "int option"
  p_remaining_minutes :: "int option"
  p_statistics_at :: "int option"
  p_updated_at :: int
  p_client_updated_at :: "int option"

record mark_row =
  m_user_id :: int
  m_book_uuid :: ustr
  m_format :: progress_format
  m_sitting_max :: int
  m_sitting_at :: "int option"
  m_updated_at :: int

record slot_row =
  sl_user_id :: int
  sl_book_uuid :: ustr
  sl_format :: progress_format
  sl_slot :: int
  sl_gained :: int
  sl_updated_at :: int

record status_row =
  rs_user_id :: int
  rs_book_uuid :: ustr
  rs_status :: read_status
  rs_updated_at :: int
  rs_finished_at :: "int option"
  rs_auto_started :: bool

record hide_row =
  sh_user_id :: int
  sh_series_id :: int
  sh_hidden_at :: int

record kobo_sync_row =
  ks_device_id :: int
  ks_book_uuid :: ustr
  ks_synced_at :: int

record session_entry =
  se_user_id :: int
  se_book_uuid :: ustr
  se_started_at :: int
  se_ended_at :: int
  se_seconds :: int
  se_device_id :: "int option"
  se_client_id :: "ustr option"
  se_utc_offset :: "int option"
  se_time_zone :: "ustr option"

record rate_row =
  pr_user_id :: int
  pr_book_uuid :: ustr
  pr_rate :: rat
  pr_updated_at :: int

record reading_db =
  positions :: "position_row list"
  marks :: "mark_row list"
  slots :: "slot_row list"
  statuses :: "status_row list"
  hides :: "hide_row list"
  kobo_synced :: "kobo_sync_row list"
  kobo_owner :: "(int \<times> int) list"
  reading_sessions :: "session_entry list"
  listening_sessions :: "session_entry list"
  rates :: "rate_row list"

text \<open>The books, the series a book is in (\<open>effective_series_sql\<close>, another module), the clock.\<close>

record progress_env =
  pe_lib :: library_db
  pe_series_of :: "ustr \<Rightarrow> int list"
  pe_now :: int

subsection \<open>Wire types\<close>

record progress_update =
  pu_book_uuid :: ustr
  pu_format :: progress_format
  pu_epub_cfi :: "ustr option"
  pu_audio_seconds :: "rat option"
  pu_percent :: "int option"
  pu_kobo_location :: "ustr option"
  pu_book_file_id :: "int option"
  pu_client_updated_at :: "int option"

record progress_record =
  pg_book_uuid :: ustr
  pg_format :: progress_format
  pg_epub_cfi :: "ustr option"
  pg_audio_seconds :: "rat option"
  pg_percent :: "int option"
  pg_kobo_location :: "ustr option"
  pg_book_file_id :: "int option"
  pg_updated_at :: int
  pg_client_updated_at :: int

definition EPUB_CFI_MAX_LEN :: nat where "EPUB_CFI_MAX_LEN = 4096"

definition blank :: "ustr \<Rightarrow> bool" where
  "blank s \<longleftrightarrow> trim s = []"

definition test_opt :: "('a \<Rightarrow> bool) \<Rightarrow> 'a option \<Rightarrow> bool" where
  "test_opt P x = (case x of Some v \<Rightarrow> P v | None \<Rightarrow> False)"

text \<open>\<open>ProgressUpdate::validate\<close>; a finite \<open>f64\<close> is a rational, the others have no counterpart.\<close>

definition validate_update :: "progress_update \<Rightarrow> string + unit" where
  "validate_update u =
     and_then (require (\<not> blank (pu_book_uuid u)) ''book_uuid is required'') (\<lambda>_.
     and_then (require (\<not> test_opt (\<lambda>ts. ts < 0) (pu_client_updated_at u)) ''client_updated_at must be non-negative'') (\<lambda>_.
     and_then (require (\<not> test_opt (\<lambda>p. \<not> (0 \<le> p \<and> p \<le> 100)) (pu_percent u)) ''progress_percent must be between 0 and 100'') (\<lambda>_.
     and_then (require (\<not> test_opt (\<lambda>i. i \<le> 0) (pu_book_file_id u)) ''book_file_id must be positive'') (\<lambda>_.
     case pu_format u of
       Epub \<Rightarrow>
         and_then (require (\<not> test_opt blank (pu_epub_cfi u)) ''epub_cfi must not be blank'') (\<lambda>_.
         and_then (require (\<not> (pu_epub_cfi u = None \<and> pu_percent u = None)) ''format=epub requires epub_cfi or progress_percent'') (\<lambda>_.
         and_then (require (\<not> test_opt (\<lambda>cfi. length cfi > EPUB_CFI_MAX_LEN) (pu_epub_cfi u)) ''epub_cfi exceeds 4096 characters'') (\<lambda>_.
         require (pu_audio_seconds u = None) ''audio_position_seconds must not be set for format=epub'')))
     | Audio \<Rightarrow>
         (case pu_audio_seconds u of
            None \<Rightarrow> Inl ''audio_position_seconds is required for format=audio''
          | Some pos \<Rightarrow>
              and_then (require (\<not> pos < 0) ''audio_position_seconds must be a non-negative finite number'') (\<lambda>_.
              and_then (require (pu_epub_cfi u = None) ''epub_cfi must not be set for format=audio'') (\<lambda>_.
              and_then (require (pu_percent u = None) ''progress_percent must not be set for format=audio'') (\<lambda>_.
              require (pu_kobo_location u = None) ''kobo_location must not be set for format=audio''))))))))"

definition format_str :: "progress_format \<Rightarrow> string" where
  "format_str f = (case f of Epub \<Rightarrow> ''epub'' | Audio \<Rightarrow> ''audio'')"

definition parse_format :: "string \<Rightarrow> progress_format" where
  "parse_format raw = (if raw = ''audio'' then Audio else Epub)"

definition status_str :: "read_status \<Rightarrow> string" where
  "status_str s = (case s of Unread \<Rightarrow> ''unread'' | Reading \<Rightarrow> ''reading'' | Finished \<Rightarrow> ''finished'')"

definition status_from_str :: "string \<Rightarrow> read_status option" where
  "status_from_str s =
     (if s = ''unread'' then Some Unread
      else if s = ''reading'' then Some Reading
      else if s = ''finished'' then Some Finished
      else None)"

definition status_from_db :: "string \<Rightarrow> read_status" where
  "status_from_db s = (case status_from_str s of Some st \<Rightarrow> st | None \<Rightarrow> Unread)"

definition comic_page_anchor :: "nat \<Rightarrow> ustr" where
  "comic_page_anchor page = str ''comic-page:'' @ show_nat page"

definition parse_comic_page_anchor :: "ustr \<Rightarrow> nat option" where
  "parse_comic_page_anchor anchor =
     (case strip_prefix (str ''comic-page:'') anchor of Some s \<Rightarrow> parse_uint 64 s | None \<Rightarrow> None)"

subsection \<open>The book a uuid stands for\<close>

definition resolve_canonical_book_uuid :: "library_db \<Rightarrow> ustr \<Rightarrow> ustr option" where
  "resolve_canonical_book_uuid lib u =
     (case map bk_uuid (filter (\<lambda>b. bk_uuid b = u) (lib_books lib)) @
           concat (map (\<lambda>(_, i). map bk_uuid (filter (\<lambda>b. bk_id b = i) (lib_books lib)))
                    (filter (\<lambda>(m, _). m = u) (lib_merged lib))) of
        [] \<Rightarrow> None
      | uuid # _ \<Rightarrow> Some uuid)"

definition audio_files :: "library_db \<Rightarrow> ustr \<Rightarrow> nat" where
  "audio_files lib u =
     length (concat (map (\<lambda>f. filter (\<lambda>b. bk_id b = bf_book_id f \<and> bk_uuid b = u) (lib_books lib))
       (filter (\<lambda>f. bf_format f = ''M4B'' \<or> bf_format f = ''M4A'' \<or> bf_format f = ''MP3'') (lib_files lib))))"

subsection \<open>The position write\<close>

definition position_key :: "int \<Rightarrow> ustr \<Rightarrow> progress_format \<Rightarrow> position_row \<Rightarrow> bool" where
  "position_key uid book f r \<longleftrightarrow> p_user_id r = uid \<and> p_book_uuid r = book \<and> p_format r = f"

text \<open>\<open>COALESCE(client_updated_at, updated_at)\<close>: the row's event time.\<close>

definition event_time :: "position_row \<Rightarrow> int" where
  "event_time r = (case p_client_updated_at r of Some t \<Rightarrow> t | None \<Rightarrow> p_updated_at r)"

definition to_record :: "position_row \<Rightarrow> progress_record" where
  "to_record r =
     \<lparr> pg_book_uuid = p_book_uuid r, pg_format = p_format r, pg_epub_cfi = p_epub_cfi r,
       pg_audio_seconds = p_audio_seconds r, pg_percent = p_percent r,
       pg_kobo_location = p_kobo_location r, pg_book_file_id = p_book_file_id r,
       pg_updated_at = p_updated_at r, pg_client_updated_at = event_time r \<rparr>"

definition read_progress_row ::
  "int \<Rightarrow> ustr \<Rightarrow> progress_format \<Rightarrow> reading_db \<Rightarrow> progress_error + progress_record" where
  "read_progress_row uid book f db =
     map_sum id to_record (ok_or Sqlx (fetch_optional (position_key uid book f) (positions db)))"

text \<open>The table's CHECK constraint.\<close>

definition check_position :: "position_row \<Rightarrow> bool" where
  "check_position r \<longleftrightarrow>
     (case p_percent r of Some p \<Rightarrow> 0 \<le> p \<and> p \<le> 100 | None \<Rightarrow> True) \<and>
     (case p_spent_minutes r of Some n \<Rightarrow> 0 \<le> n | None \<Rightarrow> True) \<and>
     (case p_remaining_minutes r of Some n \<Rightarrow> 0 \<le> n | None \<Rightarrow> True) \<and>
     (case p_format r of
        Epub \<Rightarrow> (p_epub_cfi r \<noteq> None \<or> p_percent r \<noteq> None) \<and> p_audio_seconds r = None
      | Audio \<Rightarrow> p_audio_seconds r \<noteq> None \<and> p_epub_cfi r = None \<and> p_percent r = None \<and>
          p_kobo_location r = None \<and> p_spent_minutes r = None \<and> p_remaining_minutes r = None \<and>
          p_statistics_at r = None)"

definition blank_to_null :: "ustr option \<Rightarrow> ustr option" where
  "blank_to_null x = (case x of Some s \<Rightarrow> if blank s then None else Some s | None \<Rightarrow> None)"

definition clamp_now :: "int \<Rightarrow> int option \<Rightarrow> int" where
  "clamp_now t x = min (case x of Some s \<Rightarrow> s | None \<Rightarrow> t) t"

text \<open>The row an insert would store.\<close>

definition offered_row ::
  "int \<Rightarrow> int \<Rightarrow> ustr \<Rightarrow> progress_update \<Rightarrow> ustr option \<Rightarrow> rat option \<Rightarrow> position_row" where
  "offered_row t uid book u xpointer percentage =
     \<lparr> p_user_id = uid, p_book_uuid = book, p_format = pu_format u,
       p_epub_cfi = blank_to_null (pu_epub_cfi u), p_audio_seconds = pu_audio_seconds u,
       p_percent = pu_percent u, p_kobo_location = blank_to_null (pu_kobo_location u),
       p_book_file_id = pu_book_file_id u, p_xpointer = xpointer,
       p_koreader_percentage = percentage, p_spent_minutes = None, p_remaining_minutes = None,
       p_statistics_at = None, p_updated_at = t,
       p_client_updated_at = Some (clamp_now t (pu_client_updated_at u)) \<rparr>"

text \<open>The \<open>DO UPDATE SET\<close> list: all but the key and the mirrored statistics.\<close>

definition overwrite :: "position_row \<Rightarrow> position_row \<Rightarrow> position_row" where
  "overwrite offered r =
     offered\<lparr> p_user_id := p_user_id r, p_book_uuid := p_book_uuid r, p_format := p_format r,
              p_spent_minutes := p_spent_minutes r, p_remaining_minutes := p_remaining_minutes r,
              p_statistics_at := p_statistics_at r \<rparr>"

text \<open>The \<open>WHERE\<close> of the update: newest wins, and a fileless write over a file of several loses.\<close>

definition wins :: "library_db \<Rightarrow> position_row \<Rightarrow> position_row \<Rightarrow> bool" where
  "wins lib offered r \<longleftrightarrow>
     event_time offered \<ge> event_time r \<and>
     \<not> (p_format offered = Audio \<and> p_book_file_id offered = None \<and> p_book_file_id r \<noteq> None \<and>
        audio_files lib (p_book_uuid offered) > 1)"

definition execute_upsert :: "library_db \<Rightarrow> position_row \<Rightarrow> reading_db \<Rightarrow> progress_error + reading_db" where
  "execute_upsert lib offered db =
     (let key = position_key (p_user_id offered) (p_book_uuid offered) (p_format offered) in
      if \<not> check_position offered then Inl Sqlx
      else case fetch_optional key (positions db) of
             None \<Rightarrow> Inr (db\<lparr> positions := positions db @ [offered] \<rparr>)
           | Some r \<Rightarrow>
               if \<not> wins lib offered r then Inr db
               else if \<not> check_position (overwrite offered r) then Inl Sqlx
               else Inr (db\<lparr> positions := update_where key (overwrite offered) (positions db) \<rparr>))"

definition AUDIO_TEARDOWN_ZERO_CUTOFF_SECONDS :: rat where
  "AUDIO_TEARDOWN_ZERO_CUTOFF_SECONDS = 1"

definition AUDIO_TEARDOWN_ZERO_MIN_STORED_SECONDS :: rat where
  "AUDIO_TEARDOWN_ZERO_MIN_STORED_SECONDS = 600"

definition is_audio_teardown_zero_write ::
  "progress_update \<Rightarrow> rat option \<Rightarrow> int option \<Rightarrow> bool" where
  "is_audio_teardown_zero_write u stored_position stored_file \<longleftrightarrow>
     (let same_file = (case (pu_book_file_id u, stored_file) of
                         (Some new_file, Some old_file) \<Rightarrow> new_file = old_file | _ \<Rightarrow> True)
      in case (pu_audio_seconds u, stored_position) of
           (Some new, Some old) \<Rightarrow>
             same_file \<and> new < AUDIO_TEARDOWN_ZERO_CUTOFF_SECONDS \<and>
             old > AUDIO_TEARDOWN_ZERO_MIN_STORED_SECONDS
         | _ \<Rightarrow> False)"

subsection \<open>The ledger of ground covered\<close>

definition SLOT_SECS :: int where "SLOT_SECS = 900"
definition IDLE_GAP_SECS :: int where "IDLE_GAP_SECS = 900"

text \<open>The new mark of the sitting and the ground gained.\<close>

definition sitting_gain :: "int \<Rightarrow> int option \<Rightarrow> int \<Rightarrow> int \<Rightarrow> int \<times> int" where
  "sitting_gain mark last_at percent observed_at =
     (let continues = (case last_at of Some prev \<Rightarrow> observed_at - prev \<le> IDLE_GAP_SECS | None \<Rightarrow> False);
          gained = max (percent - mark) 0;
          next_mark = (if continues then max mark percent else percent)
      in (next_mark, gained))"

definition mark_key :: "int \<Rightarrow> ustr \<Rightarrow> progress_format \<Rightarrow> mark_row \<Rightarrow> bool" where
  "mark_key uid book f r \<longleftrightarrow> m_user_id r = uid \<and> m_book_uuid r = book \<and> m_format r = f"

definition slot_key :: "int \<Rightarrow> ustr \<Rightarrow> progress_format \<Rightarrow> int \<Rightarrow> slot_row \<Rightarrow> bool" where
  "slot_key uid book f n r \<longleftrightarrow>
     sl_user_id r = uid \<and> sl_book_uuid r = book \<and> sl_format r = f \<and> sl_slot r = n"

text \<open>The two upserts of an observation: the sitting's mark, and the gain of its quarter-hour.\<close>

definition upsert_mark ::
  "int \<Rightarrow> ustr \<Rightarrow> progress_format \<Rightarrow> int \<Rightarrow> int \<Rightarrow> reading_db \<Rightarrow> reading_db" where
  "upsert_mark uid book f sitting_max observed_at db =
     (if fetch_optional (mark_key uid book f) (marks db) = None
      then db\<lparr> marks := marks db @
             [\<lparr> m_user_id = uid, m_book_uuid = book, m_format = f, m_sitting_max = sitting_max,
                m_sitting_at = Some observed_at, m_updated_at = observed_at \<rparr>] \<rparr>
      else db\<lparr> marks := update_where (mark_key uid book f)
             (\<lambda>r. r\<lparr> m_sitting_max := sitting_max,
                     m_sitting_at := Some (case m_sitting_at r of
                         Some prev \<Rightarrow> max prev observed_at | None \<Rightarrow> observed_at),
                     m_updated_at := observed_at \<rparr>) (marks db) \<rparr>)"

definition add_gain ::
  "int \<Rightarrow> ustr \<Rightarrow> progress_format \<Rightarrow> int \<Rightarrow> int \<Rightarrow> reading_db \<Rightarrow> reading_db" where
  "add_gain uid book f gained observed_at db =
     (let slot = observed_at div SLOT_SECS; key = slot_key uid book f slot in
      if fetch_optional key (slots db) = None
      then db\<lparr> slots := slots db @
             [\<lparr> sl_user_id = uid, sl_book_uuid = book, sl_format = f, sl_slot = slot,
                sl_gained = gained, sl_updated_at = observed_at \<rparr>] \<rparr>
      else db\<lparr> slots := update_where key
             (\<lambda>r. r\<lparr> sl_gained := sl_gained r + gained, sl_updated_at := observed_at \<rparr>) (slots db) \<rparr>)"

definition observe_percent ::
  "int \<Rightarrow> ustr \<Rightarrow> progress_format \<Rightarrow> int \<Rightarrow> int \<Rightarrow> reading_db \<Rightarrow> reading_db" where
  "observe_percent uid book f percent observed_at db =
     (let previous = fetch_optional (mark_key uid book f) (marks db);
          percent = max 0 (min 100 percent);
          (sitting_max, gained) =
            (case previous of
               Some r \<Rightarrow> sitting_gain (m_sitting_max r) (m_sitting_at r) percent observed_at
             | None \<Rightarrow> (percent, 0));
          db1 = upsert_mark uid book f sitting_max observed_at db
      in if gained \<le> 0 then db1 else add_gain uid book f gained observed_at db1)"

subsection \<open>Starting a book\<close>

definition unhide_series_of_book ::
  "progress_env \<Rightarrow> int \<Rightarrow> ustr \<Rightarrow> int \<Rightarrow> reading_db \<Rightarrow> reading_db" where
  "unhide_series_of_book env uid book started_at db =
     db\<lparr> hides := delete_where (\<lambda>h. sh_user_id h = uid \<and> sh_hidden_at h \<le> started_at \<and>
            List.member (pe_series_of env book) (sh_series_id h)) (hides db) \<rparr>"

definition status_key :: "int \<Rightarrow> ustr \<Rightarrow> status_row \<Rightarrow> bool" where
  "status_key uid book r \<longleftrightarrow> rs_user_id r = uid \<and> rs_book_uuid r = book"

definition mark_started :: "progress_env \<Rightarrow> int \<Rightarrow> progress_record \<Rightarrow> reading_db \<Rightarrow> reading_db" where
  "mark_started env uid surviving db =
     (if fetch_optional (status_key uid (pg_book_uuid surviving)) (statuses db) \<noteq> None then db
      else unhide_series_of_book env uid (pg_book_uuid surviving) (pg_client_updated_at surviving)
             (db\<lparr> statuses := statuses db @
                [\<lparr> rs_user_id = uid, rs_book_uuid = pg_book_uuid surviving, rs_status = Reading,
                   rs_updated_at = pg_client_updated_at surviving, rs_finished_at = None,
                   rs_auto_started = True \<rparr>] \<rparr>))"

subsection \<open>Upserting a position\<close>

definition upsert_koreader_progress ::
  "progress_env \<Rightarrow> int \<Rightarrow> progress_update \<Rightarrow> ustr option \<Rightarrow> rat option \<Rightarrow> reading_db \<Rightarrow>
     progress_error + progress_record \<times> reading_db" where
  "upsert_koreader_progress env uid u xpointer percentage db =
     and_then (ok_or BookNotFound (resolve_canonical_book_uuid (pe_lib env) (pu_book_uuid u))) (\<lambda>book.
     let existing = fetch_optional (position_key uid book (pu_format u)) (positions db);
         stored_position = Option.bind existing p_audio_seconds;
         stored_file = Option.bind existing p_book_file_id
     in
     if pu_format u = Audio \<and> is_audio_teardown_zero_write u stored_position stored_file
     then map_sum id (\<lambda>r. (r, db)) (read_progress_row uid book (pu_format u) db)
     else
       and_then (execute_upsert (pe_lib env) (offered_row (pe_now env) uid book u xpointer percentage) db) (\<lambda>db1.
       and_then (read_progress_row uid book (pu_format u) db1) (\<lambda>surviving.
       let db2 = mark_started env uid surviving db1
       in Inr (surviving,
               case pg_percent surviving of
                 Some percent \<Rightarrow>
                   observe_percent uid (pg_book_uuid surviving) (pg_format surviving) percent
                     (pg_client_updated_at surviving) db2
               | None \<Rightarrow> db2))))"

definition upsert_progress ::
  "progress_env \<Rightarrow> int \<Rightarrow> progress_update \<Rightarrow> reading_db \<Rightarrow> progress_error + progress_record \<times> reading_db" where
  "upsert_progress env uid u db = upsert_koreader_progress env uid u None None db"

subsection \<open>Writes that leave the clocks alone\<close>

definition attach_derived_percent ::
  "progress_env \<Rightarrow> int \<Rightarrow> ustr \<Rightarrow> int \<Rightarrow> int \<Rightarrow> reading_db \<Rightarrow> progress_error + bool \<times> reading_db" where
  "attach_derived_percent env uid uuid percent expected db =
     and_then (ok_or BookNotFound (resolve_canonical_book_uuid (pe_lib env) uuid)) (\<lambda>book.
     let P = (\<lambda>r. position_key uid book Epub r \<and> p_percent r = None \<and> event_time r = expected);
         f = (\<lambda>r. r\<lparr> p_percent := Some percent \<rparr>)
     in
     if rows_affected P (positions db) = 0 then Inr (False, db)
     else if \<not> list_all (\<lambda>r. P r \<longrightarrow> check_position (f r)) (positions db) then Inl Sqlx
     else Inr (True, observe_percent uid book Epub percent expected
                       (db\<lparr> positions := update_where P f (positions db) \<rparr>)))"

definition unlocated :: "int \<Rightarrow> ustr \<Rightarrow> int \<Rightarrow> position_row \<Rightarrow> bool" where
  "unlocated uid book expected r \<longleftrightarrow>
     position_key uid book Epub r \<and> p_kobo_location r = None \<and> event_time r = expected"

definition locate :: "ustr \<Rightarrow> int option \<Rightarrow> position_row \<Rightarrow> position_row" where
  "locate location_json percent r =
     r\<lparr> p_kobo_location := Some location_json,
        p_percent := (case p_percent r of Some p \<Rightarrow> Some p | None \<Rightarrow> percent) \<rparr>"

definition attach_derived_kobo_location ::
  "progress_env \<Rightarrow> int \<Rightarrow> ustr \<Rightarrow> ustr \<Rightarrow> int option \<Rightarrow> int \<Rightarrow> reading_db \<Rightarrow>
     progress_error + bool \<times> reading_db" where
  "attach_derived_kobo_location env uid uuid location_json percent expected db =
     and_then (ok_or BookNotFound (resolve_canonical_book_uuid (pe_lib env) uuid)) (\<lambda>book.
     let P = unlocated uid book expected; f = locate location_json percent in
     case fetch_optional P (positions db) of
       None \<Rightarrow> Inr (False, db)
     | Some r \<Rightarrow>
         if \<not> list_all (\<lambda>r. P r \<longrightarrow> check_position (f r)) (positions db) then Inl Sqlx
         else
           let db1 = db\<lparr> positions := update_where P f (positions db) \<rparr>
           in Inr (True, case p_percent (f r) of
                           Some settled \<Rightarrow> observe_percent uid book Epub settled expected db1
                         | None \<Rightarrow> db1))"

record kobo_statistics =
  kst_spent_reading_minutes :: "int option"
  kst_remaining_time_minutes :: "int option"
  kst_updated_at :: "int option"

definition statistics_is_empty :: "kobo_statistics \<Rightarrow> bool" where
  "statistics_is_empty s \<longleftrightarrow> kst_spent_reading_minutes s = None \<and> kst_remaining_time_minutes s = None"

definition set_kobo_statistics ::
  "progress_env \<Rightarrow> int \<Rightarrow> ustr \<Rightarrow> kobo_statistics \<Rightarrow> reading_db \<Rightarrow> progress_error + bool \<times> reading_db" where
  "set_kobo_statistics env uid uuid stats db =
     and_then (ok_or BookNotFound (resolve_canonical_book_uuid (pe_lib env) uuid)) (\<lambda>book.
     let P = (\<lambda>r. position_key uid book Epub r \<and>
               (p_spent_minutes r = None \<and> p_remaining_minutes r = None \<and> p_statistics_at r = None \<or>
                (case kst_updated_at stats of
                   Some t \<Rightarrow> t \<ge> (case p_statistics_at r of Some old \<Rightarrow> old | None \<Rightarrow> 0)
                 | None \<Rightarrow> False)));
         f = (\<lambda>r. r\<lparr> p_spent_minutes := kst_spent_reading_minutes stats,
                      p_remaining_minutes := kst_remaining_time_minutes stats,
                      p_statistics_at := map_option (\<lambda>t. min t (pe_now env)) (kst_updated_at stats) \<rparr>)
     in
     if \<not> list_all (\<lambda>r. P r \<longrightarrow> check_position (f r)) (positions db) then Inl Sqlx
     else Inr (rows_affected P (positions db) > 0,
               db\<lparr> positions := update_where P f (positions db) \<rparr>))"

subsection \<open>Reading positions back\<close>

definition get_progress ::
  "progress_env \<Rightarrow> int \<Rightarrow> ustr \<Rightarrow> progress_format \<Rightarrow> reading_db \<Rightarrow> progress_record option" where
  "get_progress env uid uuid f db =
     (case resolve_canonical_book_uuid (pe_lib env) uuid of
        None \<Rightarrow> None
      | Some book \<Rightarrow> map_option to_record (fetch_optional (position_key uid book f) (positions db)))"

definition read_records ::
  "int \<Rightarrow> ustr \<Rightarrow> progress_format option \<Rightarrow> reading_db \<Rightarrow> progress_record list" where
  "read_records uid book f db =
     map to_record (filter (\<lambda>r. p_user_id r = uid \<and> p_book_uuid r = book \<and>
       (case f of Some g \<Rightarrow> p_format r = g | None \<Rightarrow> True)) (positions db))"

text \<open>\<open>Iterator::max_by_key\<close> keeps the last of equal keys.\<close>

fun max_by_key :: "('a \<Rightarrow> 'k :: linorder) \<Rightarrow> 'a list \<Rightarrow> 'a option" where
  "max_by_key k [] = None"
| "max_by_key k (x # xs) =
     (case max_by_key k xs of None \<Rightarrow> Some x | Some y \<Rightarrow> if k x \<le> k y then Some y else Some x)"

text \<open>The percent of a record: the one enrichment resolved (\<open>enrich.rs\<close>), else the stored one.\<close>

definition percent_of :: "(progress_record \<Rightarrow> int option) \<Rightarrow> progress_record \<Rightarrow> int option" where
  "percent_of resolved r = (case resolved r of Some p \<Rightarrow> Some p | None \<Rightarrow> pg_percent r)"

definition furthest_of ::
  "(progress_record \<Rightarrow> int option) \<Rightarrow> progress_record list \<Rightarrow> progress_format option" where
  "furthest_of resolved records =
     (if list_all (\<lambda>r. percent_of resolved r \<noteq> None) records
      then map_option pg_format
             (max_by_key (\<lambda>r. (case percent_of resolved r of Some p \<Rightarrow> p | None \<Rightarrow> 0,
                               pg_client_updated_at r, pg_updated_at r)) records)
      else map_option pg_format
             (max_by_key (\<lambda>r. (pg_client_updated_at r, pg_updated_at r)) records))"

text \<open>\<open>ORDER BY ... DESC\<close> within a book: event time, receipt, audio first.\<close>

definition resume_rank :: "position_row \<Rightarrow> int \<times> int \<times> nat" where
  "resume_rank r = (event_time r, p_updated_at r, if p_format r = Audio then 1 else 0)"

definition recent_progress ::
  "int \<Rightarrow> nat \<Rightarrow> progress_format option \<Rightarrow> reading_db \<Rightarrow> progress_record list" where
  "recent_progress uid n f db =
     (let candidates = filter (\<lambda>r. p_user_id r = uid \<and>
              (case fetch_optional (status_key uid (p_book_uuid r)) (statuses db) of
                 None \<Rightarrow> True | Some st \<Rightarrow> rs_status st = Reading) \<and>
              (case f of None \<Rightarrow> True | Some g \<Rightarrow> p_format r = g)) (positions db);
          first = filter (\<lambda>r. \<not> list_ex (\<lambda>r'. p_book_uuid r' = p_book_uuid r \<and>
                                            resume_rank r' > resume_rank r) candidates) candidates
      in map to_record (take n (sort_key (\<lambda>r. (- event_time r, p_book_uuid r)) first)))"

definition set_playback_rate ::
  "progress_env \<Rightarrow> int \<Rightarrow> ustr \<Rightarrow> rat \<Rightarrow> reading_db \<Rightarrow> progress_error + rate_row \<times> reading_db" where
  "set_playback_rate env uid uuid rate db =
     and_then (ok_or BookNotFound (resolve_canonical_book_uuid (pe_lib env) uuid)) (\<lambda>book.
     let key = (\<lambda>r. pr_user_id r = uid \<and> pr_book_uuid r = book);
         row = \<lparr> pr_user_id = uid, pr_book_uuid = book, pr_rate = rate, pr_updated_at = pe_now env \<rparr>
     in Inr (row,
          if fetch_optional key (rates db) = None then db\<lparr> rates := rates db @ [row] \<rparr>
          else db\<lparr> rates := update_where key (\<lambda>_. row) (rates db) \<rparr>))"

definition get_playback_rate ::
  "progress_env \<Rightarrow> int \<Rightarrow> ustr \<Rightarrow> reading_db \<Rightarrow> progress_error + rate_row option" where
  "get_playback_rate env uid uuid db =
     and_then (ok_or BookNotFound (resolve_canonical_book_uuid (pe_lib env) uuid)) (\<lambda>book.
     Inr (fetch_optional (\<lambda>r. pr_user_id r = uid \<and> pr_book_uuid r = book) (rates db)))"

subsection \<open>Session reports\<close>

record session_report =
  sr_book_uuid :: ustr
  sr_format :: progress_format
  sr_started_at :: int
  sr_ended_at :: int
  sr_progress_units :: int
  sr_device_id :: "int option"
  sr_client_id :: "ustr option"
  sr_utc_offset_minutes :: "int option"
  sr_time_zone :: "ustr option"

definition CLIENT_ID_MAX_LEN :: nat where "CLIENT_ID_MAX_LEN = 64"
definition UTC_OFFSET_MIN_MINUTES :: int where "UTC_OFFSET_MIN_MINUTES = -12 * 60"
definition UTC_OFFSET_MAX_MINUTES :: int where "UTC_OFFSET_MAX_MINUTES = 14 * 60"
definition TIME_ZONE_MAX_LEN :: nat where "TIME_ZONE_MAX_LEN = 64"

definition validate_report :: "session_report \<Rightarrow> string + unit" where
  "validate_report r =
     and_then (require (\<not> blank (sr_book_uuid r)) ''book_uuid is required'') (\<lambda>_.
     and_then (require (\<not> (sr_started_at r < 0 \<or> sr_ended_at r < 0)) ''started_at and ended_at must be non-negative'') (\<lambda>_.
     and_then (require (\<not> sr_ended_at r < sr_started_at r) ''ended_at must be greater than or equal to started_at'') (\<lambda>_.
     and_then (require (\<not> sr_progress_units r < 0) ''progress_units must be non-negative'') (\<lambda>_.
     and_then (require (\<not> test_opt blank (sr_client_id r)) ''client_id must not be blank'') (\<lambda>_.
     and_then (require (\<not> test_opt (\<lambda>c. length c > CLIENT_ID_MAX_LEN) (sr_client_id r)) ''client_id exceeds 64 characters'') (\<lambda>_.
     and_then (require (\<not> test_opt (\<lambda>m. \<not> (UTC_OFFSET_MIN_MINUTES \<le> m \<and> m \<le> UTC_OFFSET_MAX_MINUTES)) (sr_utc_offset_minutes r))
                 ''utc_offset_minutes must be between -720 and 840'') (\<lambda>_.
     and_then (require (\<not> test_opt blank (sr_time_zone r)) ''time_zone must not be blank'') (\<lambda>_.
     require (\<not> test_opt (\<lambda>z. length z > TIME_ZONE_MAX_LEN) (sr_time_zone r)) ''time_zone exceeds 64 characters''))))))))"

definition zone_or_null :: "session_report \<Rightarrow> ustr option" where
  "zone_or_null r =
     (case sr_time_zone r of None \<Rightarrow> None | Some z \<Rightarrow> if trim z = [] then None else Some (trim z))"

definition session_of :: "int \<Rightarrow> session_report \<Rightarrow> ustr \<Rightarrow> session_entry" where
  "session_of uid r book =
     \<lparr> se_user_id = uid, se_book_uuid = book, se_started_at = sr_started_at r, se_ended_at = sr_ended_at r,
       se_seconds = sr_progress_units r, se_device_id = sr_device_id r, se_client_id = sr_client_id r,
       se_utc_offset = sr_utc_offset_minutes r, se_time_zone = zone_or_null r \<rparr>"

text \<open>\<open>INSERT OR IGNORE\<close> against the partial unique index on \<open>(user_id, client_id)\<close>.\<close>

definition insert_or_ignore :: "session_entry \<Rightarrow> session_entry list \<Rightarrow> session_entry list" where
  "insert_or_ignore e rows =
     (if se_client_id e \<noteq> None \<and>
         list_ex (\<lambda>r. se_user_id r = se_user_id e \<and> se_client_id r = se_client_id e) rows
      then rows else rows @ [e])"

definition insert_reading_session :: "int \<Rightarrow> session_report \<Rightarrow> ustr \<Rightarrow> reading_db \<Rightarrow> reading_db" where
  "insert_reading_session uid r book db =
     (case sr_format r of
        Epub \<Rightarrow> db\<lparr> reading_sessions := insert_or_ignore (session_of uid r book) (reading_sessions db) \<rparr>
      | Audio \<Rightarrow> db\<lparr> listening_sessions := insert_or_ignore (session_of uid r book) (listening_sessions db) \<rparr>)"

definition record_session ::
  "progress_env \<Rightarrow> int \<Rightarrow> session_report \<Rightarrow> reading_db \<Rightarrow> bool \<times> reading_db" where
  "record_session env uid r db =
     (case resolve_canonical_book_uuid (pe_lib env) (sr_book_uuid r) of
        None \<Rightarrow> (False, db)
      | Some book \<Rightarrow> (True, insert_reading_session uid r book db))"

subsection \<open>Read statuses\<close>

record status_update =
  su_book_uuid :: ustr
  su_status :: read_status

definition BOOK_UUID_MAX_LEN :: nat where "BOOK_UUID_MAX_LEN = 64"

definition validate_status :: "status_update \<Rightarrow> string + unit" where
  "validate_status u =
     and_then (require (\<not> blank (su_book_uuid u)) ''book_uuid is required'') (\<lambda>_.
     require (\<not> byte_len (su_book_uuid u) > BOOK_UUID_MAX_LEN) ''book uuid too long'')"

definition prior_status :: "int \<Rightarrow> ustr \<Rightarrow> reading_db \<Rightarrow> read_status option" where
  "prior_status uid book db = map_option rs_status (fetch_optional (status_key uid book) (statuses db))"

definition unhide_if_started ::
  "progress_env \<Rightarrow> int \<Rightarrow> read_status option \<Rightarrow> status_row \<Rightarrow> reading_db \<Rightarrow> reading_db" where
  "unhide_if_started env uid prior now db =
     (if (prior = None \<or> prior = Some Unread) \<and> rs_status now = Reading
      then unhide_series_of_book env uid (rs_book_uuid now) (rs_updated_at now) db else db)"

text \<open>An explicit write over a row, and the row it creates.\<close>

definition write_status :: "read_status \<Rightarrow> int \<Rightarrow> status_row \<Rightarrow> status_row" where
  "write_status st t r =
     r\<lparr> rs_status := st, rs_updated_at := t, rs_auto_started := False,
        rs_finished_at := (if st = Finished
          then Some (case rs_finished_at r of Some done_at \<Rightarrow> done_at | None \<Rightarrow> t) else None) \<rparr>"

definition new_status :: "int \<Rightarrow> ustr \<Rightarrow> read_status \<Rightarrow> int \<Rightarrow> status_row" where
  "new_status uid book st t =
     \<lparr> rs_user_id = uid, rs_book_uuid = book, rs_status = st, rs_updated_at = t,
       rs_finished_at = (if st = Finished then Some t else None), rs_auto_started = False \<rparr>"

definition upsert_status ::
  "int \<Rightarrow> ustr \<Rightarrow> read_status \<Rightarrow> int \<Rightarrow> (status_row \<Rightarrow> bool) \<Rightarrow> reading_db \<Rightarrow> status_row \<times> reading_db" where
  "upsert_status uid book st t lands db =
     (case fetch_optional (status_key uid book) (statuses db) of
        None \<Rightarrow>
          let row = new_status uid book st t in (row, db\<lparr> statuses := statuses db @ [row] \<rparr>)
      | Some r \<Rightarrow>
          if lands r
          then (write_status st t r,
                db\<lparr> statuses := update_where (status_key uid book) (write_status st t) (statuses db) \<rparr>)
          else (r, db))"

definition set_read_status ::
  "progress_env \<Rightarrow> int \<Rightarrow> status_update \<Rightarrow> reading_db \<Rightarrow> progress_error + status_row \<times> reading_db" where
  "set_read_status env uid u db =
     and_then (ok_or BookNotFound (resolve_canonical_book_uuid (pe_lib env) (su_book_uuid u))) (\<lambda>book.
     let prior = prior_status uid book db;
         (row, db1) = upsert_status uid book (su_status u) (pe_now env) (\<lambda>_. True) db
     in Inr (row, unhide_if_started env uid prior row db1))"

definition reannounce_state_since :: "int \<Rightarrow> ustr \<Rightarrow> int \<Rightarrow> reading_db \<Rightarrow> reading_db" where
  "reannounce_state_since uid book event_at db =
     db\<lparr> kobo_synced := update_where
            (\<lambda>k. ks_book_uuid k = book \<and> ks_synced_at k \<ge> event_at \<and>
                 list_ex (\<lambda>(d, o'). d = ks_device_id k \<and> o' = uid) (kobo_owner db))
            (\<lambda>k. k\<lparr> ks_synced_at := event_at - 1 \<rparr>) (kobo_synced db) \<rparr>"

definition set_read_status_at ::
  "progress_env \<Rightarrow> int \<Rightarrow> status_update \<Rightarrow> int \<Rightarrow> reading_db \<Rightarrow> progress_error + status_row \<times> reading_db" where
  "set_read_status_at env uid u event_at db =
     and_then (ok_or BookNotFound (resolve_canonical_book_uuid (pe_lib env) (su_book_uuid u))) (\<lambda>book.
     let prior = prior_status uid book db;
         t = min event_at (pe_now env);
         (row, db1) = upsert_status uid book (su_status u) t
                        (\<lambda>r. t \<ge> rs_updated_at r \<or> rs_auto_started r) db;
         db2 = unhide_if_started env uid prior row db1
     in Inr (row, if rs_updated_at row \<le> event_at
                  then reannounce_state_since uid (rs_book_uuid row) (rs_updated_at row) db2 else db2))"

definition start_unread_at ::
  "progress_env \<Rightarrow> int \<Rightarrow> ustr \<Rightarrow> int \<Rightarrow> reading_db \<Rightarrow> progress_error + reading_db" where
  "start_unread_at env uid book t db =
     (if prior_status uid book db = Some Unread
      then map_sum id snd (set_read_status_at env uid \<lparr> su_book_uuid = book, su_status = Reading \<rparr> t db)
      else Inr db)"

definition get_read_status :: "progress_env \<Rightarrow> int \<Rightarrow> ustr \<Rightarrow> reading_db \<Rightarrow> status_row option" where
  "get_read_status env uid uuid db =
     (case resolve_canonical_book_uuid (pe_lib env) uuid of
        None \<Rightarrow> None
      | Some book \<Rightarrow> fetch_optional (status_key uid book) (statuses db))"

end
