(* ===== verification/Progress_Rules.thy ===== *)
theory Progress_Rules
  imports Progress
begin

text \<open>
  What the position, ledger, status and session writes of \<open>Progress\<close> promise: the tables keep
  their shape, devices converge on the newest position, ground is counted once a sitting, and a
  status the reader chose outranks a position.
\<close>

subsection \<open>Keys\<close>

definition pkey :: "position_row \<Rightarrow> int \<times> ustr \<times> progress_format" where
  "pkey r = (p_user_id r, p_book_uuid r, p_format r)"

definition mkey :: "mark_row \<Rightarrow> int \<times> ustr \<times> progress_format" where
  "mkey r = (m_user_id r, m_book_uuid r, m_format r)"

definition skey :: "slot_row \<Rightarrow> int \<times> ustr \<times> progress_format \<times> int" where
  "skey r = (sl_user_id r, sl_book_uuid r, sl_format r, sl_slot r)"

definition stkey :: "status_row \<Rightarrow> int \<times> ustr" where
  "stkey r = (rs_user_id r, rs_book_uuid r)"

definition rkey :: "rate_row \<Rightarrow> int \<times> ustr" where
  "rkey r = (pr_user_id r, pr_book_uuid r)"

lemma key_eqs:
  "position_key uid book f = (\<lambda>r. pkey r = (uid, book, f))"
  "mark_key uid book f = (\<lambda>r. mkey r = (uid, book, f))"
  "slot_key uid book f n = (\<lambda>r. skey r = (uid, book, f, n))"
  "status_key uid book = (\<lambda>r. stkey r = (uid, book))"
  by (auto simp: fun_eq_iff pkey_def mkey_def skey_def stkey_def position_key_def mark_key_def
      slot_key_def status_key_def)

subsection \<open>The tables keep their shape\<close>

definition mark_ok :: "mark_row \<Rightarrow> bool" where
  "mark_ok r \<longleftrightarrow> 0 \<le> m_sitting_max r \<and> m_sitting_max r \<le> 100"

definition status_ok :: "status_row \<Rightarrow> bool" where
  "status_ok r \<longleftrightarrow>
     (rs_finished_at r \<noteq> None \<longleftrightarrow> rs_status r = Finished) \<and> (rs_auto_started r \<longrightarrow> rs_status r = Reading)"

definition ids_unique :: "session_entry list \<Rightarrow> bool" where
  "ids_unique rows \<longleftrightarrow>
     distinct (map (\<lambda>e. (se_user_id e, se_client_id e)) (filter (\<lambda>e. se_client_id e \<noteq> None) rows))"

definition position_ok :: "int \<Rightarrow> position_row \<Rightarrow> bool" where
  "position_ok t r \<longleftrightarrow> check_position r \<and> event_time r \<le> t \<and> p_updated_at r \<le> t"

definition reading_ok :: "int \<Rightarrow> reading_db \<Rightarrow> bool" where
  "reading_ok t db \<longleftrightarrow>
     distinct (map pkey (positions db)) \<and> list_all (position_ok t) (positions db) \<and>
     distinct (map mkey (marks db)) \<and> list_all mark_ok (marks db) \<and>
     distinct (map skey (slots db)) \<and> list_all (\<lambda>r. 0 < sl_gained r) (slots db) \<and>
     distinct (map stkey (statuses db)) \<and> list_all status_ok (statuses db) \<and>
     distinct (map rkey (rates db)) \<and>
     ids_unique (reading_sessions db) \<and> ids_unique (listening_sessions db)"

text \<open>One table at a time.\<close>

lemma reading_ok_positions:
  "reading_ok t db \<Longrightarrow> distinct (map pkey rows) \<Longrightarrow> list_all (position_ok t) rows \<Longrightarrow>
     reading_ok t (db\<lparr> positions := rows \<rparr>)"
  by (simp add: reading_ok_def)

lemma reading_ok_marks:
  "reading_ok t db \<Longrightarrow> distinct (map mkey rows) \<Longrightarrow> list_all mark_ok rows \<Longrightarrow> reading_ok t (db\<lparr> marks := rows \<rparr>)"
  by (simp add: reading_ok_def)

lemma reading_ok_slots:
  "reading_ok t db \<Longrightarrow> distinct (map skey rows) \<Longrightarrow> list_all (\<lambda>r. 0 < sl_gained r) rows \<Longrightarrow>
     reading_ok t (db\<lparr> slots := rows \<rparr>)"
  by (simp add: reading_ok_def)

lemma reading_ok_statuses:
  "reading_ok t db \<Longrightarrow> distinct (map stkey rows) \<Longrightarrow> list_all status_ok rows \<Longrightarrow>
     reading_ok t (db\<lparr> statuses := rows \<rparr>)"
  by (simp add: reading_ok_def)

lemma reading_ok_other [simp]:
  "reading_ok t (db\<lparr> hides := hs \<rparr>) = reading_ok t db"
  "reading_ok t (db\<lparr> kobo_synced := ks \<rparr>) = reading_ok t db"
  "reading_ok t (unhide_series_of_book env uid book n db) = reading_ok t db"
  "reading_ok t (reannounce_state_since uid book n db) = reading_ok t db"
  by (simp_all add: reading_ok_def unhide_series_of_book_def reannounce_state_since_def)

lemma reading_ok_later: "reading_ok t db \<Longrightarrow> t \<le> t' \<Longrightarrow> reading_ok t' db"
  by (auto simp: reading_ok_def position_ok_def list_all_iff)

lemma positions_ok:
  assumes "reading_ok t db" "fetch_optional (position_key uid book f) (positions db) = Some r"
  shows "r \<in> set (positions db)" "pkey r = (uid, book, f)" "check_position r" "event_time r \<le> t"
  using fetch_optional_Some [OF assms(2)] assms(1)
  by (auto simp: key_eqs reading_ok_def position_ok_def list_all_iff)

lemma upsert_mark_ok:
  assumes "reading_ok t db" "0 \<le> n" "n \<le> 100"
  shows "reading_ok t (upsert_mark uid book f n at' db)"
proof (cases "fetch_optional (mark_key uid book f) (marks db) = None")
  case True
  with assms show ?thesis
    unfolding upsert_mark_def
    by (simp add: key_eqs reading_ok_marks reading_ok_def mark_ok_def mkey_def distinct_append_new
        fetch_optional_None) (auto simp: mkey_def)
next
  case False
  with assms show ?thesis
    by (auto simp: upsert_mark_def distinct_update_where mkey_def reading_ok_def mark_ok_def
        intro!: list_all_update_where)
qed

lemma add_gain_ok:
  assumes "reading_ok t db" "0 < g"
  shows "reading_ok t (add_gain uid book f g at' db)"
proof (cases "fetch_optional (slot_key uid book f (at' div SLOT_SECS)) (slots db) = None")
  case True
  with assms show ?thesis
    by (auto simp: add_gain_def Let_def key_eqs fetch_key_None reading_ok_def) (auto simp: skey_def)
next
  case False
  with assms show ?thesis
    by (auto simp: add_gain_def Let_def distinct_update_where skey_def reading_ok_def
        intro!: list_all_update_where)
qed

lemma sitting_gain_range:
  "0 \<le> m \<Longrightarrow> m \<le> 100 \<Longrightarrow> 0 \<le> p \<Longrightarrow> p \<le> 100 \<Longrightarrow> sitting_gain m s p t = (n, g) \<Longrightarrow> 0 \<le> n \<and> n \<le> 100"
  by (auto simp: sitting_gain_def Let_def split: if_splits option.splits)

lemma observe_ok:
  assumes "reading_ok t db"
  shows "reading_ok t (observe_percent uid book f percent at' db)"
proof -
  let ?p = "max 0 (min 100 percent)"
  obtain n g where ng: "(case fetch_optional (mark_key uid book f) (marks db) of
      Some r \<Rightarrow> sitting_gain (m_sitting_max r) (m_sitting_at r) ?p at' | None \<Rightarrow> (?p, 0)) = (n, g)"
    by (cases "case fetch_optional (mark_key uid book f) (marks db) of
      Some r \<Rightarrow> sitting_gain (m_sitting_max r) (m_sitting_at r) ?p at' | None \<Rightarrow> (?p, 0)") blast
  have "mark_ok r" if "fetch_optional (mark_key uid book f) (marks db) = Some r" for r
    using fetch_optional_Some [OF that] assms by (simp add: reading_ok_def list_all_iff)
  with ng have "0 \<le> n \<and> n \<le> 100"
    by (cases "fetch_optional (mark_key uid book f) (marks db)")
      (auto simp: mark_ok_def dest: sitting_gain_range [rotated 4])
  with assms ng show ?thesis
    by (simp add: observe_percent_def Let_def upsert_mark_ok add_gain_ok)
qed

lemma mark_started_ok:
  assumes "reading_ok t db"
  shows "reading_ok t (mark_started env uid surviving db)"
proof (cases "fetch_optional (status_key uid (pg_book_uuid surviving)) (statuses db) = None")
  case True
  with assms show ?thesis
    by (auto simp: mark_started_def key_eqs fetch_key_None reading_ok_def status_ok_def unhide_series_of_book_def)
      (auto simp: stkey_def)
qed (use assms in \<open>simp add: mark_started_def\<close>)

lemma overwrite_simps [simp]:
  "pkey (overwrite off r) = pkey r" "event_time (overwrite off r) = event_time off"
  "p_updated_at (overwrite off r) = p_updated_at off"
  by (simp_all add: overwrite_def pkey_def event_time_def split: option.split)

lemma offered_simps [simp]:
  "pkey (offered_row t uid book u x p) = (uid, book, pu_format u)"
  "event_time (offered_row t uid book u x p) = clamp_now t (pu_client_updated_at u)"
  "p_updated_at (offered_row t uid book u x p) = t"
  "clamp_now t c \<le> t"
  by (simp_all add: offered_row_def pkey_def event_time_def clamp_now_def)

lemma execute_upsert_ok:
  assumes "reading_ok t db" "execute_upsert lib (offered_row t uid book u x p) db = Inr db'"
  shows "reading_ok t db'"
proof -
  let ?o = "offered_row t uid book u x p"
  let ?key = "position_key uid book (pu_format u)"
  have key: "position_key (p_user_id ?o) (p_book_uuid ?o) (p_format ?o) = ?key"
    by (simp add: offered_row_def)
  have o_ok: "check_position ?o" using assms(2) by (auto simp: execute_upsert_def Let_def split: if_splits)
  show ?thesis
  proof (cases "fetch_optional ?key (positions db)")
    case None
    then have "db' = db\<lparr> positions := positions db @ [?o] \<rparr>"
      using assms(2) o_ok by (simp add: execute_upsert_def Let_def key)
    with None assms(1) o_ok show ?thesis
      by (auto simp: key_eqs fetch_key_None reading_ok_def position_ok_def)
  next
    case (Some r)
    have uniq: "r' = r" if "r' \<in> set (positions db)" "?key r'" for r'
      using positions_ok(1,2) [OF assms(1) Some] that assms(1)
      by (auto simp: key_eqs reading_ok_def distinct_map inj_on_def)
    from assms(2) Some consider "db' = db"
      | "check_position (overwrite ?o r)"
        "db' = db\<lparr> positions := update_where ?key (overwrite ?o) (positions db) \<rparr>"
      by (auto simp: execute_upsert_def Let_def key split: if_splits)
    then show ?thesis
    proof cases
      case 2
      have "list_all (position_ok t) (update_where ?key (overwrite ?o) (positions db))"
        using assms(1) 2(1) uniq
        by (intro list_all_update_where) (auto simp: reading_ok_def position_ok_def)
      with 2(2) assms(1) show ?thesis
        by (auto simp: distinct_update_where reading_ok_def)
    qed (use assms(1) in simp)
  qed
qed

text \<open>What an upsert does after its position write.\<close>

definition after_write :: "progress_env \<Rightarrow> int \<Rightarrow> progress_record \<Rightarrow> reading_db \<Rightarrow> reading_db" where
  "after_write env uid surviving db =
     (case pg_percent surviving of
        Some percent \<Rightarrow>
          observe_percent uid (pg_book_uuid surviving) (pg_format surviving) percent
            (pg_client_updated_at surviving) (mark_started env uid surviving db)
      | None \<Rightarrow> mark_started env uid surviving db)"

lemma upsert_cases:
  assumes "upsert_koreader_progress env uid u x p db = Inr (r, db')"
  obtains (refused) "pu_format u = Audio" "db' = db"
  | (written) book db1 where "resolve_canonical_book_uuid (pe_lib env) (pu_book_uuid u) = Some book"
      "execute_upsert (pe_lib env) (offered_row (pe_now env) uid book u x p) db = Inr db1"
      "read_progress_row uid book (pu_format u) db1 = Inr r" "db' = after_write env uid r db1"
  using assms
  by (auto simp: upsert_koreader_progress_def and_then_Inr Let_def map_sum_def after_write_def
      split: if_splits sum.splits)

lemma upsert_ok:
  assumes "reading_ok (pe_now env) db" "upsert_koreader_progress env uid u x p db = Inr (r, db')"
  shows "reading_ok (pe_now env) db'"
  using assms(2)
proof (cases rule: upsert_cases)
  case (written book db1)
  from execute_upsert_ok [OF assms(1) written(2)] written(4) show ?thesis
    by (simp add: after_write_def observe_ok mark_started_ok split: option.split)
qed (use assms(1) in simp)

lemma clocks_update [simp]:
  "event_time (r\<lparr> p_percent := x \<rparr>) = event_time r" "pkey (r\<lparr> p_percent := x \<rparr>) = pkey r"
  "event_time (r\<lparr> p_kobo_location := l \<rparr>) = event_time r" "pkey (r\<lparr> p_kobo_location := l \<rparr>) = pkey r"
  "event_time (r\<lparr> p_spent_minutes := n \<rparr>) = event_time r" "pkey (r\<lparr> p_spent_minutes := n \<rparr>) = pkey r"
  "event_time (r\<lparr> p_remaining_minutes := n \<rparr>) = event_time r" "pkey (r\<lparr> p_remaining_minutes := n \<rparr>) = pkey r"
  "event_time (r\<lparr> p_statistics_at := n \<rparr>) = event_time r" "pkey (r\<lparr> p_statistics_at := n \<rparr>) = pkey r"
  by (simp_all add: event_time_def pkey_def split: option.split)

text \<open>An update of positions that keeps keys and clocks and is checked by the table.\<close>

lemma positions_update_ok:
  assumes "reading_ok t db" "list_all (\<lambda>r. P r \<longrightarrow> check_position (f r)) (positions db)"
    and "\<And>r. pkey (f r) = pkey r \<and> event_time (f r) = event_time r \<and> p_updated_at (f r) = p_updated_at r"
  shows "reading_ok t (db\<lparr> positions := update_where P f (positions db) \<rparr>)"
proof (rule reading_ok_positions [OF assms(1)])
  show "distinct (map pkey (update_where P f (positions db)))"
    using assms(1,3) by (simp add: distinct_update_where reading_ok_def)
  show "list_all (position_ok t) (update_where P f (positions db))"
  proof (rule list_all_update_where)
    show "list_all (position_ok t) (positions db)" using assms(1) by (simp add: reading_ok_def)
    show "r \<in> set (positions db) \<Longrightarrow> P r \<Longrightarrow> position_ok t r \<Longrightarrow> position_ok t (f r)" for r
      using assms(2,3) by (simp add: position_ok_def list_all_iff)
  qed
qed

lemma attach_percent_ok:
  assumes "reading_ok t db" "attach_derived_percent env uid uuid percent expected db = Inr (b, db')"
  shows "reading_ok t db'"
  using assms
  by (auto simp: attach_derived_percent_def and_then_Inr Let_def
      intro!: observe_ok positions_update_ok split: if_splits option.splits)

lemma locate_clocks [simp]:
  "pkey (locate loc percent r) = pkey r" "event_time (locate loc percent r) = event_time r"
  "p_updated_at (locate loc percent r) = p_updated_at r"
  by (simp_all add: locate_def)

lemma attach_location_ok:
  assumes "reading_ok t db"
    and "attach_derived_kobo_location env uid uuid loc percent expected db = Inr (b, db')"
  shows "reading_ok t db'"
proof -
  from assms(2) obtain book where book: "resolve_canonical_book_uuid (pe_lib env) uuid = Some book"
    by (auto simp: attach_derived_kobo_location_def and_then_Inr)
  show ?thesis
  proof (cases "fetch_optional (unlocated uid book expected) (positions db)")
    case None
    with assms book show ?thesis by (simp add: attach_derived_kobo_location_def)
  next
    case (Some r)
    with assms book show ?thesis
      by (cases "p_percent (locate loc percent r)")
        (auto simp: attach_derived_kobo_location_def Let_def intro!: observe_ok positions_update_ok split: if_splits)
  qed
qed

lemma statistics_ok:
  assumes "reading_ok t db" "set_kobo_statistics env uid uuid stats db = Inr (b, db')"
  shows "reading_ok t db'"
  using assms
  by (auto simp: set_kobo_statistics_def and_then_Inr Let_def
      intro!: positions_update_ok split: if_splits)

lemma write_status_ok [simp]:
  "status_ok (write_status st t r)" "stkey (write_status st t r) = stkey r" "status_ok (new_status uid book st t)"
  "stkey (new_status uid book st t) = (uid, book)"
  by (auto simp: status_ok_def write_status_def new_status_def stkey_def split: option.splits)

lemma upsert_status_ok:
  assumes "reading_ok t db" "upsert_status uid book st n lands db = (row, db')"
  shows "reading_ok t db'"
proof (cases "fetch_optional (status_key uid book) (statuses db)")
  case None
  then have "db' = db\<lparr> statuses := statuses db @ [new_status uid book st n] \<rparr>"
    using assms(2) by (auto simp: upsert_status_def Let_def)
  with None assms(1) show ?thesis
    by (auto simp: key_eqs fetch_key_None reading_ok_def)
next
  case (Some r)
  then consider "db' = db"
    | "db' = db\<lparr> statuses := update_where (status_key uid book) (write_status st n) (statuses db) \<rparr>"
    using assms(2) by (auto simp: upsert_status_def split: if_splits)
  then show ?thesis
    by cases (use assms(1) in \<open>auto simp: distinct_update_where reading_ok_def intro!: list_all_update_where\<close>)
qed

lemma unhide_if_started_ok [simp]:
  "reading_ok t (unhide_if_started env uid prior now db) = reading_ok t db"
  by (simp add: unhide_if_started_def)

lemma set_status_ok:
  assumes "reading_ok t db"
  shows "set_read_status env uid u db = Inr (row, db') \<Longrightarrow> reading_ok t db'"
    and "set_read_status_at env uid u event_at db = Inr (row, db') \<Longrightarrow> reading_ok t db'"
proof -
  have "reading_ok t (snd (upsert_status uid book st n lands db))" for book st n lands
    using upsert_status_ok [OF assms] by (metis prod.collapse)
  then show "set_read_status env uid u db = Inr (row, db') \<Longrightarrow> reading_ok t db'"
    and "set_read_status_at env uid u event_at db = Inr (row, db') \<Longrightarrow> reading_ok t db'"
    unfolding set_read_status_def set_read_status_at_def Let_def and_then_Inr
    by (auto simp: case_prod_beta split: if_splits)
qed

lemma start_unread_ok:
  assumes "reading_ok t db" "start_unread_at env uid book n db = Inr db'"
  shows "reading_ok t db'"
  using assms set_status_ok(2) [OF assms(1)]
  by (auto simp: start_unread_at_def map_sum_def split: if_splits sum.splits)

lemma insert_or_ignore_ok: "ids_unique rows \<Longrightarrow> ids_unique (insert_or_ignore e rows)"
  by (auto simp: ids_unique_def insert_or_ignore_def list_ex_iff)

lemma record_session_ok: "reading_ok t db \<Longrightarrow> reading_ok t (snd (record_session env uid r db))"
  by (auto simp: record_session_def insert_reading_session_def reading_ok_def insert_or_ignore_ok
      split: option.split progress_format.split)

lemma rate_ok:
  assumes "reading_ok t db" "set_playback_rate env uid uuid rate db = Inr (row, db')"
  shows "reading_ok t db'"
proof -
  from assms(2) obtain book where "rkey row = (uid, book)"
    "db' = (if fetch_optional (\<lambda>r. rkey r = (uid, book)) (rates db) = None then db\<lparr> rates := rates db @ [row] \<rparr>
       else db\<lparr> rates := update_where (\<lambda>r. rkey r = (uid, book)) (\<lambda>_. row) (rates db) \<rparr>)"
    by (auto simp: set_playback_rate_def and_then_Inr Let_def rkey_def)
  with assms(1) show ?thesis
    by (auto simp: reading_ok_def fetch_key_None distinct_update_where)
qed

subsection \<open>Every write, in any order\<close>

datatype progress_event =
    Upsert int progress_update "ustr option" "rat option"
  | AttachPercent int ustr int int
  | AttachLocation int ustr ustr "int option" int
  | Statistics int ustr kobo_statistics
  | SetStatus int status_update
  | SetStatusAt int status_update int
  | StartUnread int ustr int
  | RecordSession int session_report
  | SetRate int ustr rat

text \<open>A refused write leaves the tables as they are.\<close>

definition settle :: "reading_db \<Rightarrow> 'e + 'x \<times> reading_db \<Rightarrow> reading_db" where
  "settle db r = (case r of Inl _ \<Rightarrow> db | Inr (_, db') \<Rightarrow> db')"

fun progress_apply :: "progress_env \<Rightarrow> progress_event \<Rightarrow> reading_db \<Rightarrow> reading_db" where
  "progress_apply env (Upsert uid u x p) db = settle db (upsert_koreader_progress env uid u x p db)"
| "progress_apply env (AttachPercent uid uuid p e) db = settle db (attach_derived_percent env uid uuid p e db)"
| "progress_apply env (AttachLocation uid uuid l p e) db =
     settle db (attach_derived_kobo_location env uid uuid l p e db)"
| "progress_apply env (Statistics uid uuid s) db = settle db (set_kobo_statistics env uid uuid s db)"
| "progress_apply env (SetStatus uid u) db = settle db (set_read_status env uid u db)"
| "progress_apply env (SetStatusAt uid u e) db = settle db (set_read_status_at env uid u e db)"
| "progress_apply env (StartUnread uid book t) db =
     (case start_unread_at env uid book t db of Inl _ \<Rightarrow> db | Inr db' \<Rightarrow> db')"
| "progress_apply env (RecordSession uid r) db = snd (record_session env uid r db)"
| "progress_apply env (SetRate uid uuid rate) db = settle db (set_playback_rate env uid uuid rate db)"

definition empty_reading :: reading_db where
  "empty_reading =
     \<lparr> positions = [], marks = [], slots = [], statuses = [], hides = [], kobo_synced = [], kobo_owner = [],
       reading_sessions = [], listening_sessions = [], rates = [] \<rparr>"

text \<open>The database with its clock, which does not run backwards; books may come and go.\<close>

inductive progress_init :: "int \<times> reading_db \<Rightarrow> bool" where
  "progress_init (t, empty_reading)"

inductive progress_step :: "int \<times> reading_db \<Rightarrow> int \<times> reading_db \<Rightarrow> bool" where
  "t \<le> pe_now env \<Longrightarrow> progress_step (t, db) (pe_now env, progress_apply env ev db)"

lemma progress_apply_ok:
  assumes "reading_ok (pe_now env) db"
  shows "reading_ok (pe_now env) (progress_apply env ev db)"
  using assms
  by (cases ev)
    (auto simp: settle_def record_session_ok split: sum.splits
      dest: upsert_ok attach_percent_ok attach_location_ok statistics_ok set_status_ok start_unread_ok rate_ok)

interpretation progress_system: invariant_system progress_init progress_step "\<lambda>(t, db). reading_ok t db"
proof
  show "progress_init s \<Longrightarrow> (\<lambda>(t, db). reading_ok t db) s" for s
    by (auto simp: progress_init.simps reading_ok_def empty_reading_def ids_unique_def)
  show "(\<lambda>(t, db). reading_ok t db) s \<Longrightarrow> progress_step s s' \<Longrightarrow> (\<lambda>(t, db). reading_ok t db) s'" for s s'
    by (auto simp: progress_step.simps intro: progress_apply_ok reading_ok_later)
qed

subsection \<open>A validated update is stored\<close>

lemma validate_fields:
  assumes "validate_update u = Inr ()"
  shows "pu_percent u = Some p \<Longrightarrow> 0 \<le> p \<and> p \<le> 100"
    and "pu_format u = Epub \<Longrightarrow> pu_audio_seconds u = None \<and> (pu_epub_cfi u \<noteq> None \<or> pu_percent u \<noteq> None)"
    and "pu_format u = Epub \<Longrightarrow> pu_epub_cfi u = Some c \<Longrightarrow> \<not> blank c"
    and "pu_format u = Audio \<Longrightarrow> pu_audio_seconds u \<noteq> None \<and> pu_epub_cfi u = None \<and> pu_percent u = None \<and>
      pu_kobo_location u = None"
  using assms
  by (auto simp: validate_update_def and_then_Inr test_opt_def split: progress_format.splits option.splits)

lemma blank_to_null_simps [simp]:
  "blank_to_null None = None" "\<not> blank c \<Longrightarrow> blank_to_null (Some c) = Some c"
  by (simp_all add: blank_to_null_def)

lemma validated_check:
  assumes "validate_update u = Inr ()"
  shows "check_position (offered_row t uid book u x p)"
proof (cases "pu_format u")
  case Epub
  then show ?thesis
    using validate_fields [OF assms]
    by (cases "pu_epub_cfi u")
      (auto simp: check_position_def offered_row_def split: option.split)
next
  case Audio
  then show ?thesis
    using validate_fields [OF assms] by (auto simp: check_position_def offered_row_def)
qed

lemma overwrite_check:
  assumes "check_position off" "check_position r" "p_format off = p_format r"
  shows "check_position (overwrite off r)"
  using assms by (auto simp: check_position_def overwrite_def split: progress_format.splits)

text \<open>The position a validated update leaves, and the row read back.\<close>

lemma execute_upsert_Inr:
  assumes "reading_ok t db" "validate_update u = Inr ()"
  shows "\<exists>db' r. execute_upsert lib (offered_row n uid book u x p) db = Inr db' \<and>
      fetch_optional (position_key uid book (pu_format u)) (positions db') = Some r \<and>
      db' = db\<lparr> positions := positions db' \<rparr> \<and>
      r = (case fetch_optional (position_key uid book (pu_format u)) (positions db) of
             None \<Rightarrow> offered_row n uid book u x p
           | Some old \<Rightarrow> if wins lib (offered_row n uid book u x p) old
                        then overwrite (offered_row n uid book u x p) old else old)"
proof -
  let ?o = "offered_row n uid book u x p"
  let ?key = "position_key uid book (pu_format u)"
  have key: "position_key (p_user_id ?o) (p_book_uuid ?o) (p_format ?o) = ?key"
    by (simp add: offered_row_def)
  have ok: "check_position ?o" by (rule validated_check [OF assms(2)])
  show ?thesis
  proof (cases "fetch_optional ?key (positions db)")
    case None
    have "?key ?o" by (simp add: key_eqs)
    with None ok show ?thesis by (simp add: execute_upsert_def Let_def key fetch_append)
  next
    case (Some old)
    note old = positions_ok [OF assms(1) Some]
    have "check_position (overwrite ?o old)"
      by (rule overwrite_check [OF ok old(3)]) (use old(2) in \<open>simp add: pkey_def offered_row_def\<close>)
    moreover have "fetch_optional ?key (update_where ?key (overwrite ?o) (positions db)) = Some (overwrite ?o old)"
      using fetch_update [of ?key "overwrite ?o" ?key "positions db"] Some old(2) by (simp add: key_eqs)
    ultimately show ?thesis using Some ok by (simp add: execute_upsert_def Let_def key)
  qed
qed

lemma positions_after_write [simp]:
  "positions (upsert_mark uid book f n t db) = positions db"
  "positions (add_gain uid book f n t db) = positions db"
  "positions (observe_percent uid book f q t db) = positions db"
  "positions (mark_started env uid rec db) = positions db"
  "positions (after_write env uid rec db) = positions db"
  by (auto simp: upsert_mark_def add_gain_def Let_def observe_percent_def mark_started_def
      unhide_series_of_book_def after_write_def split: option.split prod.split)

text \<open>The row a write leaves: the stored one where the write is refused, else the offered place.\<close>

definition survivor ::
  "library_db \<Rightarrow> progress_update \<Rightarrow> position_row \<Rightarrow> position_row option \<Rightarrow> position_row" where
  "survivor lib u offered existing =
     (case existing of
        None \<Rightarrow> offered
      | Some old \<Rightarrow>
          if pu_format u = Audio \<and> is_audio_teardown_zero_write u (p_audio_seconds old) (p_book_file_id old) \<or>
             \<not> wins lib offered old
          then old else overwrite offered old)"

lemma upsert_written:
  assumes "\<not> (pu_format u = Audio \<and> is_audio_teardown_zero_write u
      (Option.bind (fetch_optional (position_key uid book (pu_format u)) (positions db)) p_audio_seconds)
      (Option.bind (fetch_optional (position_key uid book (pu_format u)) (positions db)) p_book_file_id))"
    and "resolve_canonical_book_uuid (pe_lib env) (pu_book_uuid u) = Some book"
    and "execute_upsert (pe_lib env) (offered_row (pe_now env) uid book u x p) db = Inr db1"
    and "fetch_optional (position_key uid book (pu_format u)) (positions db1) = Some r"
  shows "upsert_koreader_progress env uid u x p db = Inr (to_record r, after_write env uid (to_record r) db1)"
  unfolding upsert_koreader_progress_def after_write_def Let_def if_not_P [OF assms(1)] assms(2)
  using assms(3,4) by (simp add: read_progress_row_def if_not_P [OF assms(1)] split: option.split)

lemma upsert_answer:
  assumes "reading_ok t db" "validate_update u = Inr ()"
    and "resolve_canonical_book_uuid (pe_lib env) (pu_book_uuid u) = Some book"
  shows "\<exists>db'. upsert_koreader_progress env uid u x p db =
      Inr (to_record (survivor (pe_lib env) u (offered_row (pe_now env) uid book u x p)
             (fetch_optional (position_key uid book (pu_format u)) (positions db))), db') \<and>
    fetch_optional (position_key uid book (pu_format u)) (positions db') =
      Some (survivor (pe_lib env) u (offered_row (pe_now env) uid book u x p)
             (fetch_optional (position_key uid book (pu_format u)) (positions db)))"
proof -
  let ?key = "position_key uid book (pu_format u)"
  let ?old = "fetch_optional ?key (positions db)"
  from execute_upsert_Inr [OF assms(1,2), of "pe_lib env" "pe_now env" uid book x p] obtain db1 r where
    w: "execute_upsert (pe_lib env) (offered_row (pe_now env) uid book u x p) db = Inr db1"
      "fetch_optional ?key (positions db1) = Some r"
      "r = (case ?old of None \<Rightarrow> offered_row (pe_now env) uid book u x p
           | Some old \<Rightarrow> if wins (pe_lib env) (offered_row (pe_now env) uid book u x p) old
                        then overwrite (offered_row (pe_now env) uid book u x p) old else old)"
    by blast
  show ?thesis
  proof (cases "pu_format u = Audio \<and> is_audio_teardown_zero_write u (Option.bind ?old p_audio_seconds)
      (Option.bind ?old p_book_file_id)")
    case True
    then obtain old where old: "?old = Some old"
      by (cases ?old) (auto simp: is_audio_teardown_zero_write_def split: option.splits)
    with True assms(3) show ?thesis
      by (simp add: upsert_koreader_progress_def Let_def read_progress_row_def survivor_def)
  next
    case False
    then have "survivor (pe_lib env) u (offered_row (pe_now env) uid book u x p) ?old = r"
      by (cases ?old) (auto simp: survivor_def w(3))
    moreover have "upsert_koreader_progress env uid u x p db = Inr (to_record r, after_write env uid (to_record r) db1)"
      by (rule upsert_written [OF False assms(3) w(1,2)])
    ultimately show ?thesis using w(2) by simp
  qed
qed

lemma upsert_Inr:
  assumes "reading_ok t db" "validate_update u = Inr ()"
    and "resolve_canonical_book_uuid (pe_lib env) (pu_book_uuid u) = Some book"
  shows "\<exists>r db'. upsert_koreader_progress env uid u x p db = Inr (r, db')"
  using upsert_answer [OF assms] by blast

subsection \<open>Devices converge\<close>

text \<open>What a position says, and when: the register the last of the newest writes sets.\<close>

type_synonym place = "(ustr option \<times> rat option \<times> int option \<times> ustr option \<times> int option) \<times> int"

definition place_of :: "position_row \<Rightarrow> place" where
  "place_of r =
     ((p_epub_cfi r, p_audio_seconds r, p_percent r, p_kobo_location r, p_book_file_id r), event_time r)"

definition merge_place :: "('a \<times> int) option \<Rightarrow> 'a \<times> int \<Rightarrow> ('a \<times> int) option" where
  "merge_place old new = (case old of None \<Rightarrow> Some new | Some o' \<Rightarrow> if snd new \<ge> snd o' then Some new else Some o')"

definition offered_place :: "progress_env \<Rightarrow> progress_update \<Rightarrow> place" where
  "offered_place env u =
     ((blank_to_null (pu_epub_cfi u), pu_audio_seconds u, pu_percent u, blank_to_null (pu_kobo_location u),
       pu_book_file_id u),
      clamp_now (pe_now env) (pu_client_updated_at u))"

definition place_at :: "int \<Rightarrow> ustr \<Rightarrow> progress_format \<Rightarrow> reading_db \<Rightarrow> place option" where
  "place_at uid book f db = map_option place_of (fetch_optional (position_key uid book f) (positions db))"

text \<open>
  A delivery of a position: a valid update of the book in the format. An audio one is at least a
  second in, so that it is not taken for a player's teardown zero, and names its file where the book
  has several audio files.
\<close>

definition good_delivery :: "ustr \<Rightarrow> progress_format \<Rightarrow> progress_env \<times> progress_update \<Rightarrow> bool" where
  "good_delivery book f d \<longleftrightarrow>
     (case d of (env, u) \<Rightarrow>
        validate_update u = Inr () \<and> pu_format u = f \<and>
        resolve_canonical_book_uuid (pe_lib env) (pu_book_uuid u) = Some book \<and>
        (f = Audio \<longrightarrow>
           test_opt (\<lambda>s. AUDIO_TEARDOWN_ZERO_CUTOFF_SECONDS \<le> s) (pu_audio_seconds u) \<and>
           (pu_book_file_id u \<noteq> None \<or> audio_files (pe_lib env) book \<le> 1)))"

lemma good_delivery_plain:
  assumes "good_delivery book f (env, u)"
  shows "\<not> (pu_format u = Audio \<and> is_audio_teardown_zero_write u pos file)"
    and "wins (pe_lib env) (offered_row (pe_now env) uid book u x p) old \<longleftrightarrow>
      event_time old \<le> clamp_now (pe_now env) (pu_client_updated_at u)"
proof -
  show "\<not> (pu_format u = Audio \<and> is_audio_teardown_zero_write u pos file)"
    using assms
    by (auto simp: good_delivery_def is_audio_teardown_zero_write_def test_opt_def Let_def
        split: option.splits)
  have "\<not> (pu_format u = Audio \<and> pu_book_file_id u = None \<and> 1 < audio_files (pe_lib env) book)"
    using assms by (auto simp: good_delivery_def)
  then show "wins (pe_lib env) (offered_row (pe_now env) uid book u x p) old \<longleftrightarrow>
      event_time old \<le> clamp_now (pe_now env) (pu_client_updated_at u)"
    unfolding wins_def offered_simps by (auto simp: offered_row_def)
qed

lemma upsert_place:
  assumes "reading_ok t db" "good_delivery book f (env, u)"
    and "upsert_koreader_progress env uid u x p db = Inr (r, db')"
  shows "place_at uid book f db' = merge_place (place_at uid book f db) (offered_place env u)"
proof -
  let ?o = "offered_row (pe_now env) uid book u x p"
  have u: "validate_update u = Inr ()" "pu_format u = f"
    "resolve_canonical_book_uuid (pe_lib env) (pu_book_uuid u) = Some book"
    using assms(2) by (auto simp: good_delivery_def)
  from execute_upsert_Inr [OF assms(1) u(1), of "pe_lib env" "pe_now env" uid book x p] obtain db1 r1 where
    w: "execute_upsert (pe_lib env) ?o db = Inr db1"
      "fetch_optional (position_key uid book f) (positions db1) = Some r1"
      "r1 = (case fetch_optional (position_key uid book f) (positions db) of
             None \<Rightarrow> ?o
           | Some old \<Rightarrow> if wins (pe_lib env) ?o old then overwrite ?o old else old)"
    by (auto simp: u(2))
  have "positions db' = positions db1"
    using assms(3) upsert_written [OF good_delivery_plain(1) [OF assms(2)] u(3) w(1)] w(2) u(2) by auto
  then have "place_at uid book f db' = Some (place_of r1)" by (simp add: place_at_def w(2))
  moreover have "place_of ?o = offered_place env u" "\<And>old. place_of (overwrite ?o old) = offered_place env u"
    by (simp_all add: place_of_def offered_place_def event_time_def overwrite_def offered_row_def)
  moreover have "wins (pe_lib env) ?o old = (snd (offered_place env u) \<ge> snd (place_of old))" for old
    using good_delivery_plain(2) [OF assms(2)] by (simp add: place_of_def offered_place_def)
  ultimately show ?thesis
    by (cases "fetch_optional (position_key uid book f) (positions db)")
      (auto simp: w(3) place_at_def merge_place_def)
qed

text \<open>Deliveries: each update with the clock and library it meets.\<close>

definition deliver :: "int \<Rightarrow> (progress_env \<times> progress_update) list \<Rightarrow> reading_db \<Rightarrow> reading_db" where
  "deliver uid ds db = foldl (\<lambda>db (env, u). settle db (upsert_progress env uid u db)) db ds"

lemma deliver_places:
  assumes "reading_ok t db" "sorted (t # map (\<lambda>d. pe_now (fst d)) ds)"
    and "\<forall>d \<in> set ds. good_delivery book f d"
  shows "place_at uid book f (deliver uid ds db) =
    foldl merge_place (place_at uid book f db) (map (\<lambda>(env, u). offered_place env u) ds)"
  using assms
proof (induction ds arbitrary: t db)
  case (Cons d ds)
  obtain env u where d: "d = (env, u)" by (cases d)
  have good: "good_delivery book f (env, u)" using Cons.prems(3) by (simp add: d)
  then have u: "validate_update u = Inr ()"
    "resolve_canonical_book_uuid (pe_lib env) (pu_book_uuid u) = Some book"
    by (auto simp: good_delivery_def)
  have ok: "reading_ok (pe_now env) db"
    using Cons.prems(1,2) by (auto simp: d intro: reading_ok_later)
  from upsert_Inr [OF ok u, of uid None None] obtain r db' where
    up: "upsert_koreader_progress env uid u None None db = Inr (r, db')" by blast
  have "reading_ok (pe_now env) db'" by (rule upsert_ok [OF ok up])
  moreover have "sorted (pe_now env # map (\<lambda>d. pe_now (fst d)) ds)" using Cons.prems(2) by (simp add: d)
  ultimately have "place_at uid book f (deliver uid ds db') =
      foldl merge_place (place_at uid book f db') (map (\<lambda>(env, u). offered_place env u) ds)"
    using Cons.IH Cons.prems(3) by simp
  with upsert_place [OF ok good up] up show ?case
    by (simp add: deliver_def d upsert_progress_def settle_def)
qed (simp add: deliver_def)

lemma merge_newest:
  assumes "new \<in> set ps" "\<And>p. p \<in> set ps \<Longrightarrow> p = new \<or> snd p < snd new"
    and "old = None \<or> snd (the old) \<le> snd new"
  shows "foldl merge_place old ps = Some new"
  using assms
proof (induction ps arbitrary: old)
  case (Cons p ps)
  have p: "p = new \<or> snd p < snd new" using Cons.prems(2) by simp
  have later: "q = new \<or> snd q < snd new" if "q \<in> set ps" for q using Cons.prems(2) that by simp
  show ?case
  proof (cases "new \<in> set ps")
    case True
    have "snd (the (merge_place old p)) \<le> snd new"
      using p Cons.prems(3) by (cases old) (auto simp: merge_place_def)
    with Cons.IH [OF True later] show ?thesis by simp
  next
    case False
    with Cons.prems(1) have "p = new" by simp
    moreover have "foldl merge_place (Some new) ps = Some new"
      using later False
    proof (induction ps)
      case (Cons q ps)
      then have "\<not> snd new \<le> snd q" by (metis list.set_intros(1) not_le)
      with Cons show ?case by (simp add: merge_place_def)
    qed simp
    moreover have "merge_place old new = Some new"
      using Cons.prems(3) by (cases old) (simp_all add: merge_place_def)
    ultimately show ?thesis by simp
  qed
qed simp

subsection \<open>Ground covered in a sitting\<close>

definition covered :: "int \<Rightarrow> ustr \<Rightarrow> progress_format \<Rightarrow> reading_db \<Rightarrow> int" where
  "covered uid book f db =
     sum_list (map sl_gained (filter (\<lambda>r. sl_user_id r = uid \<and> sl_book_uuid r = book \<and> sl_format r = f) (slots db)))"

lemma sum_update_one:
  fixes h :: "'r \<Rightarrow> int"
  assumes "distinct (map k rows)" "r \<in> set rows" "k r = x"
    and "\<And>r. k r = x \<Longrightarrow> Q r \<and> Q (f r) \<and> h (f r) = h r + g"
  shows "sum_list (map h (filter Q (update_where (\<lambda>r. k r = x) f rows))) = sum_list (map h (filter Q rows)) + g"
  using assms(1-3)
proof (induction rows)
  case (Cons y ys)
  show ?case
  proof (cases "k y = x")
    case True
    with Cons.prems(1) have "\<forall>z \<in> set ys. k z \<noteq> x" by (force simp: image_iff)
    then have "update_where (\<lambda>r. k r = x) f ys = ys" by (simp add: update_where_def map_idI)
    with True assms(4) [OF True] show ?thesis by (simp add: update_where_def)
  next
    case False
    with Cons show ?thesis by (auto simp: update_where_def)
  qed
qed simp

lemma covered_add_gain:
  assumes "distinct (map skey (slots db))"
  shows "covered uid book f (add_gain uid book f g t db) = covered uid book f db + g"
proof (cases "fetch_optional (slot_key uid book f (t div SLOT_SECS)) (slots db)")
  case None
  then show ?thesis by (simp add: covered_def add_gain_def Let_def)
next
  case (Some r)
  from fetch_optional_Some [OF this] have r: "r \<in> set (slots db)" "skey r = (uid, book, f, t div SLOT_SECS)"
    by (simp_all add: key_eqs)
  show ?thesis
    using Some sum_update_one [OF assms r, of "\<lambda>r. sl_user_id r = uid \<and> sl_book_uuid r = book \<and> sl_format r = f"
        "\<lambda>r. r\<lparr> sl_gained := sl_gained r + g, sl_updated_at := t \<rparr>" sl_gained g]
    by (simp add: covered_def add_gain_def Let_def key_eqs skey_def)
qed

lemma covered_upsert_mark [simp]: "covered uid book f (upsert_mark uid' book' f' n t db) = covered uid book f db"
  "slots (upsert_mark uid' book' f' n t db) = slots db"
  by (simp_all add: covered_def upsert_mark_def)

lemma marks_add_gain [simp]: "marks (add_gain uid book f g t db) = marks db"
  by (simp add: add_gain_def Let_def)

lemma observe_in_sitting:
  fixes percent :: int
  assumes ok: "reading_ok t db" and m: "fetch_optional (mark_key uid book f) (marks db) = Some m"
    and s: "m_sitting_at m = Some s" "at' - s \<le> IDLE_GAP_SECS"
  defines "p \<equiv> max 0 (min 100 percent)"
  defines "db' \<equiv> observe_percent uid book f percent at' db"
  shows "covered uid book f db' = covered uid book f db + (max (m_sitting_max m) p - m_sitting_max m) \<and>
    (\<exists>m'. fetch_optional (mark_key uid book f) (marks db') = Some m' \<and>
      m_sitting_max m' = max (m_sitting_max m) p \<and> m_sitting_at m' = Some (max s at'))"
proof -
  have d: "distinct (map skey (slots db))" using ok by (simp add: reading_ok_def)
  let ?n = "max (m_sitting_max m) p" and ?g = "max (p - m_sitting_max m) 0"
  have gain: "sitting_gain (m_sitting_max m) (m_sitting_at m) p at' = (?n, ?g)"
    using s by (simp add: sitting_gain_def)
  have db': "db' = (if ?g \<le> 0 then upsert_mark uid book f ?n at' db
      else add_gain uid book f ?g at' (upsert_mark uid book f ?n at' db))"
    using m gain by (simp add: db'_def observe_percent_def p_def Let_def)
  have "fetch_optional (mark_key uid book f) (marks (upsert_mark uid book f ?n at' db)) =
      Some (m\<lparr> m_sitting_max := ?n, m_sitting_at := Some (max s at'), m_updated_at := at' \<rparr>)"
    using m s(1) fetch_optional_Some [OF m]
    by (simp add: upsert_mark_def, subst fetch_update) (auto simp: mark_key_def)
  then show ?thesis using db' d by (auto simp: covered_add_gain)
qed

text \<open>Observations none of which comes after an idle gap.\<close>

fun one_sitting :: "int \<Rightarrow> (int \<times> int) list \<Rightarrow> bool" where
  "one_sitting s [] \<longleftrightarrow> True"
| "one_sitting s ((t, _) # os) \<longleftrightarrow> t - s \<le> IDLE_GAP_SECS \<and> one_sitting (max s t) os"

definition observe_all :: "int \<Rightarrow> ustr \<Rightarrow> progress_format \<Rightarrow> (int \<times> int) list \<Rightarrow> reading_db \<Rightarrow> reading_db" where
  "observe_all uid book f os db = foldl (\<lambda>db (t, p). observe_percent uid book f p t db) db os"

lemma observe_all_in_sitting:
  assumes "reading_ok t db" "fetch_optional (mark_key uid book f) (marks db) = Some m"
    and "m_sitting_at m = Some s" "one_sitting s os"
  shows "covered uid book f (observe_all uid book f os db) =
    covered uid book f db + (foldl (\<lambda>a (_, p). max a (max 0 (min 100 p))) (m_sitting_max m) os - m_sitting_max m)"
  using assms
proof (induction os arbitrary: db m s)
  case (Cons o' os)
  obtain at' p where o': "o' = (at', p)" by (cases o')
  let ?db = "observe_percent uid book f p at' db"
  from observe_in_sitting [OF Cons.prems(1-3), of at' p] Cons.prems(4) obtain m' where
    "covered uid book f ?db = covered uid book f db + (max (m_sitting_max m) (max 0 (min 100 p)) - m_sitting_max m)"
    "fetch_optional (mark_key uid book f) (marks ?db) = Some m'"
    "m_sitting_max m' = max (m_sitting_max m) (max 0 (min 100 p))" "m_sitting_at m' = Some (max s at')"
    by (auto simp: o')
  moreover from Cons.IH [OF observe_ok [OF Cons.prems(1)] this(2,4)] Cons.prems(4) have
    "covered uid book f (observe_all uid book f os ?db) = covered uid book f ?db +
      (foldl (\<lambda>a (_, p). max a (max 0 (min 100 p))) (m_sitting_max m') os - m_sitting_max m')"
    by (simp add: o')
  ultimately show ?case by (simp add: o' observe_all_def)
qed (simp add: observe_all_def)

subsection \<open>Statuses and positions\<close>

lemma statuses_observe [simp]: "statuses (observe_percent uid book f q t db) = statuses db"
  by (auto simp: upsert_mark_def add_gain_def Let_def observe_percent_def split: option.split prod.split)

lemma execute_upsert_statuses: "execute_upsert lib off db = Inr db' \<Longrightarrow> statuses db' = statuses db"
  by (auto simp: execute_upsert_def Let_def split: if_splits option.splits)

lemma statuses_after_write [simp]:
  "statuses (after_write env uid rec db) = statuses (mark_started env uid rec db)"
  by (simp add: after_write_def split: option.split)

lemma read_row_book:
  "read_progress_row uid book f db = Inr r \<Longrightarrow> pg_book_uuid r = book"
  by (auto simp: read_progress_row_def map_sum_def to_record_def ok_or_def position_key_def
      dest!: fetch_optional_Some split: sum.splits option.splits)

lemma upsert_statuses:
  assumes "upsert_koreader_progress env uid u x p db = Inr (r, db')"
    and "resolve_canonical_book_uuid (pe_lib env) (pu_book_uuid u) = Some book"
  shows "db' = db \<or>
    statuses db' =
      (if fetch_optional (status_key uid book) (statuses db) \<noteq> None then statuses db
       else statuses db @ [\<lparr> rs_user_id = uid, rs_book_uuid = book, rs_status = Reading,
              rs_updated_at = pg_client_updated_at r, rs_finished_at = None, rs_auto_started = True \<rparr>])"
  using assms(1)
proof (cases rule: upsert_cases)
  case (written book' db1)
  then have "book' = book" using assms(2) by simp
  with written show ?thesis
    by (simp add: mark_started_def unhide_series_of_book_def read_row_book execute_upsert_statuses)
qed simp

text \<open>C6: Devices converge on the newest position of a format. The deliveries, in any order and with
  repetitions, are valid updates of the book; an audio one is at least a second in (an earlier one may
  be taken for a player's teardown zero) and names its file where the book has several audio files (one
  that does not may be refused). A stamp ahead of the server's clock, or none, counts as the moment of
  arrival. If one delivered position is stamped later than every other and no earlier than the stored
  one, the book is left at that position.\<close>

theorem newest_position_wins:
  assumes "reachable progress_init progress_step (t, db)" "sorted (t # map (\<lambda>d. pe_now (fst d)) ds)"
    and "\<forall>d \<in> set ds. good_delivery book f d" "(env, u) \<in> set ds"
    and "\<forall>(env', u') \<in> set ds. offered_place env' u' = offered_place env u \<or>
        clamp_now (pe_now env') (pu_client_updated_at u') < clamp_now (pe_now env) (pu_client_updated_at u)"
    and "place_at uid book f db = None \<or>
        snd (the (place_at uid book f db)) \<le> clamp_now (pe_now env) (pu_client_updated_at u)"
  shows "place_at uid book f (deliver uid ds db) =
    Some ((blank_to_null (pu_epub_cfi u), pu_audio_seconds u, pu_percent u, blank_to_null (pu_kobo_location u),
           pu_book_file_id u),
          clamp_now (pe_now env) (pu_client_updated_at u))"
proof -
  have ok: "reading_ok t db" using progress_system.reachable_inv [OF assms(1)] by simp
  have stamp: "snd (offered_place env' u') = clamp_now (pe_now env') (pu_client_updated_at u')" for env' u'
    by (simp add: offered_place_def)
  have "foldl merge_place (place_at uid book f db) (map (\<lambda>(env, u). offered_place env u) ds) = Some (offered_place env u)"
  proof (rule merge_newest)
    show "offered_place env u \<in> set (map (\<lambda>(env, u). offered_place env u) ds)" using assms(4) by force
    show "p = offered_place env u \<or> snd p < snd (offered_place env u)"
      if "p \<in> set (map (\<lambda>(env, u). offered_place env u) ds)" for p
      using that assms(5) stamp by fastforce
    show "place_at uid book f db = None \<or> snd (the (place_at uid book f db)) \<le> snd (offered_place env u)"
      using assms(6) by (simp add: stamp)
  qed
  with deliver_places [OF ok assms(2,3)] show ?thesis by (simp add: offered_place_def)
qed


text \<open>A library of one book, and its updates by percent.\<close>

definition demo_env :: "int \<Rightarrow> progress_env" where
  "demo_env t =
     \<lparr> pe_lib = \<lparr> lib_books = [\<lparr> bk_id = 1, bk_uuid = str ''b'' \<rparr>], lib_merged = [(str ''m'', 1)], lib_files = [] \<rparr>,
       pe_series_of = (\<lambda>_. []), pe_now = t \<rparr>"

definition demo_update :: "string \<Rightarrow> int \<Rightarrow> int \<Rightarrow> progress_update" where
  "demo_update uuid percent c =
     \<lparr> pu_book_uuid = str uuid, pu_format = Epub, pu_epub_cfi = None, pu_audio_seconds = None,
       pu_percent = Some percent, pu_kobo_location = None, pu_book_file_id = None,
       pu_client_updated_at = Some c \<rparr>"

definition demo_db :: reading_db where
  "demo_db = progress_apply (demo_env 50) (Upsert 1 (demo_update ''b'' 40 30) None None) empty_reading"

lemma demo_db_reachable: "reachable progress_init progress_step (50, demo_db)"
proof -
  have "progress_step (0, empty_reading)
      (pe_now (demo_env 50), progress_apply (demo_env 50) (Upsert 1 (demo_update ''b'' 40 30) None None) empty_reading)"
    by (rule progress_step.intros) (simp add: demo_env_def)
  then have "progress_step (0, empty_reading) (50, demo_db)" by (simp add: demo_db_def demo_env_def)
  moreover have "reachable progress_init progress_step (0, empty_reading)"
    by (intro reach_init progress_init.intros)
  ultimately show ?thesis by (rule reach_step [rotated])
qed

text \<open>A phone's newer position arrives before a tablet's older one, and again after it.\<close>

definition demo_deliveries :: "(progress_env \<times> progress_update) list" where
  "demo_deliveries =
     [(demo_env 50, demo_update ''b'' 40 30), (demo_env 60, demo_update ''m'' 20 10),
      (demo_env 70, demo_update ''b'' 40 30)]"

text \<open>Two players of an audiobook; the second's clock is ahead.\<close>

definition demo_listen :: "rat \<Rightarrow> int \<Rightarrow> progress_update" where
  "demo_listen pos c = demo_update ''b'' 0 c
     \<lparr> pu_format := Audio, pu_percent := None, pu_audio_seconds := Some pos \<rparr>"

definition demo_listens :: "(progress_env \<times> progress_update) list" where
  "demo_listens =
     [(demo_env 50, demo_listen 700 99), (demo_env 60, demo_listen 2 55), (demo_env 70, demo_listen 650 40)]"

theorem newest_position_wins_witness:
  "place_at 1 (str ''b'') Epub (deliver 1 demo_deliveries empty_reading) =
     Some ((None, None, Some 40, None, None), 30) \<and>
   place_at 1 (str ''b'') Audio (deliver 1 demo_listens empty_reading) =
     Some ((None, Some 2, None, None, None), 55)"
proof -
  have init: "reachable progress_init progress_step (0, empty_reading)"
    by (intro reach_init progress_init.intros)
  have sorted: "sorted (0 # map (\<lambda>d. pe_now (fst d)) demo_deliveries)"
    "sorted (0 # map (\<lambda>d. pe_now (fst d)) demo_listens)" by code_simp+
  have "list_all (good_delivery (str ''b'') Epub) demo_deliveries"
    "list_all (good_delivery (str ''b'') Audio) demo_listens" by code_simp+
  then have good: "\<forall>d \<in> set demo_deliveries. good_delivery (str ''b'') Epub d"
    "\<forall>d \<in> set demo_listens. good_delivery (str ''b'') Audio d" by (simp_all add: list_all_iff)
  have mem: "(demo_env 50, demo_update ''b'' 40 30) \<in> set demo_deliveries"
    "(demo_env 60, demo_listen 2 55) \<in> set demo_listens"
    by (simp_all add: demo_deliveries_def demo_listens_def)
  have latest: "\<forall>(env, u) \<in> set demo_deliveries.
      offered_place env u = offered_place (demo_env 50) (demo_update ''b'' 40 30) \<or>
      clamp_now (pe_now env) (pu_client_updated_at u) <
        clamp_now (pe_now (demo_env 50)) (pu_client_updated_at (demo_update ''b'' 40 30))"
    "\<forall>(env, u) \<in> set demo_listens.
      offered_place env u = offered_place (demo_env 60) (demo_listen 2 55) \<or>
      clamp_now (pe_now env) (pu_client_updated_at u) <
        clamp_now (pe_now (demo_env 60)) (pu_client_updated_at (demo_listen 2 55))"
    by (auto simp: demo_deliveries_def demo_listens_def demo_listen_def demo_update_def demo_env_def
        offered_place_def clamp_now_def)
  have none: "place_at 1 (str ''b'') f empty_reading = None" for f
    by (simp add: place_at_def empty_reading_def fetch_optional_def)
  have "clamp_now (pe_now (demo_env 50)) (pu_client_updated_at (demo_update ''b'' 40 30)) = 30"
    "clamp_now (pe_now (demo_env 60)) (pu_client_updated_at (demo_listen 2 55)) = 55" by code_simp+
  with newest_position_wins [OF init sorted(1) good(1) mem(1) latest(1), of 1]
    newest_position_wins [OF init sorted(2) good(2) mem(2) latest(2), of 1] none
  show ?thesis by (simp add: demo_update_def demo_listen_def)
qed

text \<open>C27: However the position, status and session writes interleave, there is one position per reader,
  book and format and it satisfies the table's CHECK, no position is dated in the future, a book is
  dated finished exactly while its status is finished, and no client id is stored twice.\<close>

theorem reading_tables_keep_their_shape:
  assumes "reachable progress_init progress_step (t, db)"
  shows "distinct (map (\<lambda>r. (p_user_id r, p_book_uuid r, p_format r)) (positions db)) \<and>
    (\<forall>r \<in> set (positions db). check_position r \<and> event_time r \<le> t) \<and>
    (\<forall>r \<in> set (statuses db). (rs_finished_at r \<noteq> None) = (rs_status r = Finished)) \<and>
    (\<forall>r \<in> set (slots db). 0 < sl_gained r) \<and>
    distinct (map (\<lambda>e. (se_user_id e, se_client_id e))
      (filter (\<lambda>e. se_client_id e \<noteq> None) (reading_sessions db)))"
proof -
  have "pkey = (\<lambda>r. (p_user_id r, p_book_uuid r, p_format r))" by (simp add: fun_eq_iff pkey_def)
  with progress_system.reachable_inv [OF assms] show ?thesis
    by (auto simp: reading_ok_def position_ok_def status_ok_def ids_unique_def list_all_iff)
qed

theorem reading_tables_keep_their_shape_witness:
  "positions demo_db \<noteq> [] \<and> list_all (\<lambda>r. check_position r \<and> event_time r \<le> 50) (positions demo_db)"
proof
  show "positions demo_db \<noteq> []" by code_simp
  show "list_all (\<lambda>r. check_position r \<and> event_time r \<le> 50) (positions demo_db)"
    using reading_tables_keep_their_shape [OF demo_db_reachable] unfolding list_all_iff by blast
qed

text \<open>C29: A position update that passes validation, for a book the library knows, is never refused by
  the table. The write returns the position that survives it, which is what a read finds afterwards:
  the update's where the book had none; the stored one, untouched, where the update is an audio
  player's teardown zero, is older, or is a fileless audio position over one in a file of several;
  and otherwise the update's in place of the stored one, whose mirrored statistics stay.\<close>

theorem validated_updates_are_answered:
  assumes "reachable progress_init progress_step (t, db)" "validate_update u = Inr ()"
    and "resolve_canonical_book_uuid (pe_lib env) (pu_book_uuid u) = Some book"
  shows "\<exists>r db'. upsert_koreader_progress env uid u x p db = Inr (r, db') \<and>
    read_progress_row uid book (pu_format u) db' = Inr r \<and>
    (let offered = offered_row (pe_now env) uid book u x p in
     r = to_record
       (case fetch_optional (position_key uid book (pu_format u)) (positions db) of
          None \<Rightarrow> offered
        | Some old \<Rightarrow>
            if pu_format u = Audio \<and> is_audio_teardown_zero_write u (p_audio_seconds old) (p_book_file_id old) \<or>
               event_time offered < event_time old \<or>
               pu_format u = Audio \<and> pu_book_file_id u = None \<and> p_book_file_id old \<noteq> None \<and>
                 1 < audio_files (pe_lib env) book
            then old
            else offered\<lparr> p_spent_minutes := p_spent_minutes old,
                          p_remaining_minutes := p_remaining_minutes old,
                          p_statistics_at := p_statistics_at old \<rparr>))"
proof -
  let ?key = "position_key uid book (pu_format u)"
  let ?o = "offered_row (pe_now env) uid book u x p"
  have ok: "reading_ok t db" using progress_system.reachable_inv [OF assms(1)] by simp
  have "p_user_id old = uid \<and> p_book_uuid old = book \<and> p_format old = pu_format u"
    if "fetch_optional ?key (positions db) = Some old" for old
    using positions_ok(2) [OF ok that] by (simp add: pkey_def)
  then have old: "overwrite ?o old = ?o\<lparr> p_spent_minutes := p_spent_minutes old,
      p_remaining_minutes := p_remaining_minutes old, p_statistics_at := p_statistics_at old \<rparr>"
    if "fetch_optional ?key (positions db) = Some old" for old
    using that by (simp add: overwrite_def offered_row_def)
  have wins: "wins (pe_lib env) ?o old \<longleftrightarrow> \<not> event_time ?o < event_time old \<and>
      \<not> (pu_format u = Audio \<and> pu_book_file_id u = None \<and> p_book_file_id old \<noteq> None \<and>
         1 < audio_files (pe_lib env) book)" for old
    unfolding wins_def by (simp add: not_less) (simp add: offered_row_def)
  from upsert_answer [OF ok assms(2,3), of uid x p] obtain db' where
    up: "upsert_koreader_progress env uid u x p db =
      Inr (to_record (survivor (pe_lib env) u ?o (fetch_optional ?key (positions db))), db')"
    "fetch_optional ?key (positions db') = Some (survivor (pe_lib env) u ?o (fetch_optional ?key (positions db)))"
    by blast
  then have "read_progress_row uid book (pu_format u) db' =
      Inr (to_record (survivor (pe_lib env) u ?o (fetch_optional ?key (positions db))))"
    by (simp add: read_progress_row_def)
  with up(1) old show ?thesis
    by (cases "fetch_optional ?key (positions db)") (auto simp: survivor_def wins Let_def)
qed

text \<open>An older percent arrives at a book left at forty percent: the answer is the stored place.\<close>

theorem validated_updates_are_answered_witness:
  "map_sum id (\<lambda>(r, db'). (pg_percent r, pg_client_updated_at r))
     (upsert_koreader_progress (demo_env 60) 1 (demo_update ''m'' 20 10) None None demo_db) = Inr (Some 40, 30)"
proof -
  let ?old = "offered_row 50 1 (str ''b'') (demo_update ''b'' 40 30) None None"
  have "validate_update (demo_update ''m'' 20 10) = Inr ()"
    "resolve_canonical_book_uuid (pe_lib (demo_env 60)) (pu_book_uuid (demo_update ''m'' 20 10)) = Some (str ''b'')"
    by code_simp+
  note answer = validated_updates_are_answered [OF demo_db_reachable this, of 1 None None]
  have old: "fetch_optional (position_key 1 (str ''b'') (pu_format (demo_update ''m'' 20 10))) (positions demo_db) = Some ?old"
    by code_simp
  have "event_time (offered_row (pe_now (demo_env 60)) 1 (str ''b'') (demo_update ''m'' 20 10) None None) < event_time ?old"
    "pg_percent (to_record ?old) = Some 40" "pg_client_updated_at (to_record ?old) = 30" by code_simp+
  with answer old show ?thesis by (auto simp: Let_def)
qed

text \<open>C28: Within one sitting the ledger counts the ground covered and not the path: moving back and
  forth, the percent gained is the furthest point reached beyond where the sitting stood.\<close>

theorem ground_is_counted_once_a_sitting:
  assumes "reachable progress_init progress_step (t, db)"
    and "fetch_optional (mark_key uid book f) (marks db) = Some m" "m_sitting_at m = Some s"
    and "one_sitting s os"
  shows "covered uid book f (observe_all uid book f os db) - covered uid book f db =
    foldl (\<lambda>a (_, p). max a (max 0 (min 100 p))) (m_sitting_max m) os - m_sitting_max m"
  using progress_system.reachable_inv [OF assms(1)] observe_all_in_sitting [OF _ assms(2-4)] by simp

theorem ground_is_counted_once_a_sitting_witness:
  "covered 1 (str ''b'') Epub (observe_all 1 (str ''b'') Epub [(100, 40), (200, 30), (300, 45)] demo_db) -
     covered 1 (str ''b'') Epub demo_db = 5"
proof -
  let ?m = "\<lparr> m_user_id = 1, m_book_uuid = str ''b'', m_format = Epub, m_sitting_max = 40,
      m_sitting_at = Some 30, m_updated_at = 30 \<rparr>"
  have "fetch_optional (mark_key 1 (str ''b'') Epub) (marks demo_db) = Some ?m" by code_simp
  moreover have "m_sitting_at ?m = Some 30" by simp
  moreover have "one_sitting 30 [(100, 40), (200, 30), (300, 45)]" by code_simp
  ultimately show ?thesis
    using ground_is_counted_once_a_sitting [OF demo_db_reachable] by fastforce
qed

text \<open>A status the reader chose outranks a position: a position write starts a book that has no
  status, dated by the position, and leaves any other status alone; a dated choice replaces a status
  a position started whatever their dates, and an older choice only if it is not newer.\<close>

theorem chosen_status_outranks_positions:
  assumes "resolve_canonical_book_uuid (pe_lib env) (pu_book_uuid u) = Some book"
    and "upsert_koreader_progress env uid u x p db = Inr (r, db')" "positions db' \<noteq> positions db"
    and "resolve_canonical_book_uuid (pe_lib env) (su_book_uuid w) = Some book"
  shows "(case fetch_optional (status_key uid book) (statuses db) of
      Some st \<Rightarrow> fetch_optional (status_key uid book) (statuses db') = Some st \<and>
        (\<exists>row db''. set_read_status_at env uid w event_at db' = Inr (row, db'') \<and>
           row = (if min event_at (pe_now env) \<ge> rs_updated_at st \<or> rs_auto_started st
                  then write_status (su_status w) (min event_at (pe_now env)) st else st))
    | None \<Rightarrow> (\<exists>row db'' st. fetch_optional (status_key uid book) (statuses db') = Some st \<and>
        rs_status st = Reading \<and> rs_updated_at st = pg_client_updated_at r \<and>
        set_read_status_at env uid w event_at db' = Inr (row, db'') \<and> rs_status row = su_status w))"
proof -
  let ?key = "status_key uid book"
  let ?new = "\<lparr> rs_user_id = uid, rs_book_uuid = book, rs_status = Reading,
      rs_updated_at = pg_client_updated_at r, rs_finished_at = None, rs_auto_started = True \<rparr>"
  have stored: "statuses db' = (if fetch_optional ?key (statuses db) \<noteq> None then statuses db
      else statuses db @ [?new])"
    using upsert_statuses [OF assms(2,1)] assms(3) by auto
  have choice: "\<exists>db''. set_read_status_at env uid w event_at db' = Inr
      (if min event_at (pe_now env) \<ge> rs_updated_at st \<or> rs_auto_started st
       then write_status (su_status w) (min event_at (pe_now env)) st else st, db'')"
    if "fetch_optional ?key (statuses db') = Some st" for st
    using that assms(4) by (auto simp: set_read_status_at_def upsert_status_def Let_def)
  show ?thesis
  proof (cases "fetch_optional ?key (statuses db)")
    case None
    then have "fetch_optional ?key (statuses db') = Some ?new"
      by (simp add: stored fetch_append) (simp add: status_key_def)
    with choice [OF this] None show ?thesis by (auto simp: write_status_def)
  next
    case (Some st)
    then have "fetch_optional ?key (statuses db') = Some st" by (simp add: stored)
    with choice [OF this] Some show ?thesis by auto
  qed
qed

theorem chosen_status_outranks_positions_witness:
  "\<exists>r db' row db''. upsert_koreader_progress (demo_env 50) 1 (demo_update ''b'' 40 30) None None empty_reading = Inr (r, db') \<and>
     set_read_status_at (demo_env 50) 1 \<lparr> su_book_uuid = str ''b'', su_status = Finished \<rparr> 20 db' = Inr (row, db'') \<and>
     rs_status row = Finished"
proof -
  have res: "resolve_canonical_book_uuid (pe_lib (demo_env 50)) (str ''b'') = Some (str ''b'')" by code_simp
  have "case upsert_koreader_progress (demo_env 50) 1 (demo_update ''b'' 40 30) None None empty_reading of
      Inr (_, db') \<Rightarrow> positions db' \<noteq> positions empty_reading | Inl _ \<Rightarrow> False" by code_simp
  then obtain r db' where up: "upsert_koreader_progress (demo_env 50) 1 (demo_update ''b'' 40 30) None None empty_reading = Inr (r, db')"
    "positions db' \<noteq> positions empty_reading" by (auto split: sum.splits)
  have "fetch_optional (status_key 1 (str ''b'')) (statuses empty_reading) = None" by code_simp
  with chosen_status_outranks_positions [OF _ up, of "str ''b''" "\<lparr> su_book_uuid = str ''b'', su_status = Finished \<rparr>" 20] res
  show ?thesis using up(1) by (auto simp: demo_update_def)
qed

subsection \<open>Session reports sent again\<close>

definition record_batch :: "progress_env \<Rightarrow> int \<Rightarrow> session_report list \<Rightarrow> reading_db \<Rightarrow> reading_db" where
  "record_batch env uid rs db = foldl (\<lambda>db r. snd (record_session env uid r db)) db rs"

text \<open>The table of a report's format, and the rows under the report's id.\<close>

definition has_session :: "int \<Rightarrow> session_report \<Rightarrow> reading_db \<Rightarrow> bool" where
  "has_session uid r db \<longleftrightarrow>
     list_ex (\<lambda>e. se_user_id e = uid \<and> se_client_id e = sr_client_id r)
       (case sr_format r of Epub \<Rightarrow> reading_sessions db | Audio \<Rightarrow> listening_sessions db)"

lemma has_session_kept: "has_session uid r db \<Longrightarrow> has_session uid r (snd (record_session env uid' r' db))"
  by (auto simp: has_session_def record_session_def insert_reading_session_def insert_or_ignore_def
      split: progress_format.splits option.split)

lemma has_session_recorded:
  "resolve_canonical_book_uuid (pe_lib env) (sr_book_uuid r) \<noteq> None \<Longrightarrow>
     has_session uid r (snd (record_session env uid r db))"
  by (auto simp: has_session_def record_session_def insert_reading_session_def insert_or_ignore_def session_of_def
      split: progress_format.splits)

lemma recorded_again:
  assumes "has_session uid r db" "sr_client_id r \<noteq> None"
  shows "snd (record_session env uid r db) = db"
  using assms
  by (auto simp: has_session_def record_session_def insert_reading_session_def insert_or_ignore_def session_of_def
      split: progress_format.splits option.split)

lemma has_session_batch:
  "has_session uid r db \<Longrightarrow> has_session uid r (record_batch env uid' rs db)"
  by (induction rs arbitrary: db) (simp_all add: record_batch_def has_session_kept)

lemma batch_has_session:
  assumes "r \<in> set rs" "resolve_canonical_book_uuid (pe_lib env) (sr_book_uuid r) \<noteq> None"
  shows "has_session uid r (record_batch env uid rs db)"
  using assms(1)
proof (induction rs arbitrary: db)
  case (Cons q rs)
  show ?case
  proof (cases "q = r")
    case True
    with has_session_batch [OF has_session_recorded [OF assms(2)]] show ?thesis
      by (simp add: record_batch_def)
  next
    case False
    with Cons show ?thesis by (simp add: record_batch_def)
  qed
qed simp

text \<open>A client that sends a batch of session reports again, whole or in part and in any order, because
  it never saw the answer, adds nothing: reports with an id are stored once.\<close>

theorem resent_sessions_count_once:
  assumes "\<forall>r \<in> set resent. r \<in> set rs \<and> sr_client_id r \<noteq> None"
    and "\<forall>r \<in> set rs. resolve_canonical_book_uuid (pe_lib env) (sr_book_uuid r) \<noteq> None"
  shows "record_batch env uid resent (record_batch env uid rs db) = record_batch env uid rs db"
proof -
  have "has_session uid r (record_batch env uid rs db)" "sr_client_id r \<noteq> None" if "r \<in> set resent" for r
    using assms that by (simp_all add: batch_has_session)
  moreover have "record_batch env uid resent db' = db'"
    if "\<And>r. r \<in> set resent \<Longrightarrow> has_session uid r db' \<and> sr_client_id r \<noteq> None" for db'
    using that by (induction resent) (simp_all add: record_batch_def recorded_again)
  ultimately show ?thesis by blast
qed

definition demo_report :: "string \<Rightarrow> session_report" where
  "demo_report client =
     \<lparr> sr_book_uuid = str ''m'', sr_format = Audio, sr_started_at = 10, sr_ended_at = 70, sr_progress_units = 60,
       sr_device_id = None, sr_client_id = Some (str client), sr_utc_offset_minutes = Some 60, sr_time_zone = None \<rparr>"

theorem resent_sessions_count_once_witness:
  "record_batch (demo_env 90) 1 [demo_report ''y''] (record_batch (demo_env 90) 1 [demo_report ''x'', demo_report ''y''] empty_reading) =
     record_batch (demo_env 90) 1 [demo_report ''x'', demo_report ''y''] empty_reading"
proof (rule resent_sessions_count_once)
  show "\<forall>r \<in> set [demo_report ''y'']. r \<in> set [demo_report ''x'', demo_report ''y''] \<and> sr_client_id r \<noteq> None"
    by (simp add: demo_report_def)
  have "resolve_canonical_book_uuid (pe_lib (demo_env 90)) (str ''m'') = Some (str ''b'')" by code_simp
  then show "\<forall>r \<in> set [demo_report ''x'', demo_report ''y''].
      resolve_canonical_book_uuid (pe_lib (demo_env 90)) (sr_book_uuid r) \<noteq> None"
    by (simp add: demo_report_def)
qed

end
