(* ===== verification/Merge_Tables.thy ===== *)
theory Merge_Tables
  imports Omni_Prelude
begin

text \<open>
  The reader-state half of a book merge (\<open>db/src/merge/transaction.rs\<close>,
  \<open>db/src/merge/relocation.rs\<close>): every table that names a book by its uuid follows the source
  book onto the target, colliding rows are settled first, and undo sends back exactly what moved.

  The code is generic in the table: it reads the schema with \<open>pragma_table_info\<close> and handles
  a row as a JSON object from column to value. So a row here is its rowid and its cells, a table
  is its rows and its \<open>AUTOINCREMENT\<close> sequence, and the database is a function from the table's
  name. A \<open>REAL\<close> cell is opaque (its bits): nothing here computes with one; what the record of a
  merge makes of it is in \<open>Merge_Relocation\<close>. The \<open>book_read_status\<close> and \<open>reviews\<close> tables are
  settled field by field by \<open>merge/curation\<close>; they are the typed tables of theory \<open>Merge_Curation\<close>
  and take no part in \<open>move_progress_and_history\<close> here. The tables of \<open>MERGE_EXEMPT_TABLES\<close>, whose
  rows a merge leaves on the source on purpose, are not modelled.
\<close>

subsection \<open>Rows, tables and their schema\<close>

datatype val = Null | Integer int | Real "64 word" | Text ustr

type_synonym cells = "(string \<times> val) list"

type_synonym rw = "int \<times> cells"

definition cell :: "string \<Rightarrow> rw \<Rightarrow> val" where
  "cell c r = (case map_of (snd r) c of Some v \<Rightarrow> v | None \<Rightarrow> Null)"

definition set_cell :: "string \<Rightarrow> val \<Rightarrow> rw \<Rightarrow> rw" where
  "set_cell c v r = (fst r, map (\<lambda>(k, x). if k = c then (k, v) else (k, x)) (snd r))"

definition without :: "string list \<Rightarrow> cells \<Rightarrow> cells" where
  "without cols cs = filter (\<lambda>(k, _). k \<notin> set cols) cs"

text \<open>SQL's \<open>=\<close> and \<open>\<le>\<close>, neither of which holds of a NULL; across storage classes numbers come first.\<close>

definition sql_eq :: "val \<Rightarrow> val \<Rightarrow> bool" where
  "sql_eq x y \<longleftrightarrow> x = y \<and> x \<noteq> Null"

fun sql_le :: "val \<Rightarrow> val \<Rightarrow> bool" where
  "sql_le (Integer a) (Integer b) \<longleftrightarrow> a \<le> b"
| "sql_le (Integer a) (Text b) \<longleftrightarrow> True"
| "sql_le (Text a) (Text b) \<longleftrightarrow> a = b \<or> ord_class.lexordp a b"
| "sql_le _ _ \<longleftrightarrow> False"

fun int_of_val :: "val \<Rightarrow> int" where
  "int_of_val (Integer i) = i"
| "int_of_val _ = 0"

definition on_book :: "ustr \<Rightarrow> rw \<Rightarrow> bool" where
  "on_book b r \<longleftrightarrow> cell ''book_uuid'' r = Text b"

record tab =
  t_rows :: "rw list"
  t_seq :: int

type_synonym tables = "string \<Rightarrow> tab"

text \<open>
  What the pragmas report of a table: whether its id is \<open>AUTOINCREMENT\<close>, its primary key less
  \<open>book_uuid\<close>, its foreign keys (column, parent, whether \<open>ON DELETE SET NULL\<close>) and its unique
  keys; and the columns declared NOT NULL, which the code does not ask for.
\<close>

record schema =
  s_auto :: bool
  s_key :: "string list"
  s_fks :: "(string \<times> string \<times> bool) list"
  s_unique :: "string list list"
  s_notnull :: "string list"

definition user_fk :: "string \<times> string \<times> bool" where
  "user_fk = (''user_id'', ''users'', False)"

definition auto_table :: "(string \<times> string \<times> bool) list \<Rightarrow> string list list \<Rightarrow> string list \<Rightarrow> schema" where
  "auto_table fks uniq nn =
     \<lparr>s_auto = True, s_key = [], s_fks = fks, s_unique = [''id''] # uniq,
      s_notnull = ''id'' # ''book_uuid'' # nn\<rparr>"

definition keyed_table :: "string list \<Rightarrow> (string \<times> string \<times> bool) list \<Rightarrow> string list \<Rightarrow> schema" where
  "keyed_table key fks pk =
     \<lparr>s_auto = False, s_key = key, s_fks = fks, s_unique = [pk], s_notnull = ''book_uuid'' # key\<rparr>"

text \<open>The schema the migrations leave, for the tables a merge retargets.\<close>

definition schemas :: "(string \<times> schema) list" where
  "schemas =
    [(''reading_progress'', auto_table [user_fk] [[''user_id'', ''book_uuid'', ''format'']] [''user_id'', ''format'']),
     (''reading_progress_marks'', keyed_table [''user_id'', ''format''] [user_fk]
        [''user_id'', ''book_uuid'', ''format'']),
     (''reading_progress_daily'', keyed_table [''user_id'', ''day'', ''format''] [user_fk]
        [''user_id'', ''book_uuid'', ''day'', ''format'']),
     (''reading_progress_slots'', keyed_table [''user_id'', ''format'', ''slot''] [user_fk]
        [''user_id'', ''book_uuid'', ''format'', ''slot'']),
     (''audiobook_playback_preferences'', auto_table [user_fk] [[''user_id'', ''book_uuid'']] [''user_id'']),
     (''bookmarks'', auto_table [user_fk] [[''user_id'', ''client_id'']] [''user_id'']),
     (''reading_sessions'', auto_table [user_fk, (''device_id'', ''devices'', True)]
        [[''user_id'', ''client_id'']] [''user_id'']),
     (''listening_sessions'', auto_table [user_fk, (''device_id'', ''devices'', True)]
        [[''user_id'', ''client_id'']] [''user_id'']),
     (''annotations'', auto_table [user_fk] [[''user_id'', ''client_id'']] [''user_id'']),
     (''annotation_tombstones'', keyed_table [''user_id'', ''client_id''] [user_fk] [''user_id'', ''client_id'']),
     (''kobo_annotations_sync'', keyed_table [''device_id''] [(''device_id'', ''kobo_devices'', False)]
        [''device_id'', ''book_uuid'']),
     (''journal_entries'', auto_table [user_fk] [[''user_id'', ''client_id'']] [''user_id'']),
     (''shelf_books'', keyed_table [''shelf_id'']
        [(''shelf_id'', ''shelves'', False), (''added_by_user_id'', ''users'', True)] [''shelf_id'', ''book_uuid'']),
     (''physical_copies'', auto_table [(''added_by_user_id'', ''users'', True)] [] []),
     (''wishlist_entries'', auto_table [user_fk] [[''user_id'', ''book_uuid'']] [''user_id'']),
     (''cross_format_links'', auto_table [user_fk] [[''user_id'', ''book_uuid'']] [''user_id'']),
     (''book_content_chapters'',
        \<lparr>s_auto = False, s_key = [''id''], s_fks = [], s_unique = [[''id''], [''book_uuid'', ''spine_index'']],
         s_notnull = [''id'', ''book_uuid'', ''spine_index'']\<rparr>),
     (''book_export_digests'', keyed_table [''partial_md5''] [] [''partial_md5'', ''book_uuid'']),
     (''book_requests'', auto_table [user_fk] [] [''user_id''])]"

definition schema_of :: "string \<Rightarrow> schema" where
  "schema_of t = (case map_of schemas t of Some s \<Rightarrow> s | None \<Rightarrow> auto_table [] [] [])"

text \<open>Two rows violate a unique key when its columns agree and none of them is NULL.\<close>

definition same_cols :: "string list \<Rightarrow> rw \<Rightarrow> rw \<Rightarrow> bool" where
  "same_cols cols o1 r \<longleftrightarrow> list_all (\<lambda>c. sql_eq (cell c o1) (cell c r)) cols"

definition clash :: "schema \<Rightarrow> rw \<Rightarrow> rw \<Rightarrow> bool" where
  "clash sch o1 r \<longleftrightarrow> list_ex (\<lambda>u. same_cols u o1 r) (s_unique sch)"

fun unique_ok :: "schema \<Rightarrow> rw list \<Rightarrow> bool" where
  "unique_ok sch [] \<longleftrightarrow> True"
| "unique_ok sch (r # rs) \<longleftrightarrow> list_all (\<lambda>o1. \<not> clash sch o1 r) rs \<and> unique_ok sch rs"

subsection \<open>Errors\<close>

text \<open>Why an undo refuses: the variants of \<open>UndoConflict\<close>'s message.\<close>

datatype conflict_reason =
    RowReplaced string
  | IdentifierSupplied ustr ustr
  | LinkSupplied ustr
  | Recurated string int
  | ClaimedByLaterMerge string int

text \<open>\<open>MergeError\<close>, without the variants that only wrap a failure of a call outside this model.\<close>

datatype merge_error =
    SameBook
  | BookNotFound ustr
  | LogNotFound
  | AlreadyUndone
  | UndoConflict conflict_reason
  | Db

text \<open>An \<open>UPDATE\<close> fails, and its transaction with it, when its result breaks a unique key.\<close>

definition exec_update :: "schema \<Rightarrow> (rw \<Rightarrow> bool) \<Rightarrow> (rw \<Rightarrow> rw) \<Rightarrow> tab \<Rightarrow> merge_error + tab" where
  "exec_update sch P f tb =
     (let rows = update_where P f (t_rows tb)
      in if unique_ok sch rows then Inr (tb\<lparr>t_rows := rows\<rparr>) else Inl Db)"

definition at_table :: "(string \<Rightarrow> tab \<Rightarrow> merge_error + tab) \<Rightarrow> string \<Rightarrow> tables \<Rightarrow> merge_error + tables" where
  "at_table f t d = and_then (f t (d t)) (\<lambda>tb. Inr (d(t := tb)))"

definition on_rows :: "(rw list \<Rightarrow> rw list) \<Rightarrow> tab \<Rightarrow> tab" where
  "on_rows f tb = tb\<lparr>t_rows := f (t_rows tb)\<rparr>"

subsection \<open>The merge's tables (transaction.rs)\<close>

definition RETARGET_TABLES :: "string list" where
  "RETARGET_TABLES =
    [''reading_progress'', ''reading_progress_marks'', ''reading_progress_daily'', ''reading_progress_slots'',
     ''audiobook_playback_preferences'', ''bookmarks'', ''reading_sessions'', ''listening_sessions'',
     ''annotations'', ''annotation_tombstones'', ''kobo_annotations_sync'', ''journal_entries'',
     ''book_read_status'', ''reviews'', ''shelf_books'', ''physical_copies'', ''wishlist_entries'',
     ''cross_format_links'', ''book_content_chapters'', ''book_export_digests'', ''book_requests'']"

datatype keep = KeepMax string | KeepMin string | KeepTarget

record collision =
  c_table :: string
  c_keys :: "string list"
  c_keep :: keep

definition COLLISION_TABLES :: "collision list" where
  "COLLISION_TABLES = map (\<lambda>(t, ks, k). \<lparr>c_table = t, c_keys = ks, c_keep = k\<rparr>)
    [(''reading_progress'', [''user_id'', ''format''], KeepMax ''updated_at''),
     (''reading_progress_marks'', [''user_id'', ''format''], KeepMax ''updated_at''),
     (''audiobook_playback_preferences'', [''user_id''], KeepMax ''updated_at''),
     (''book_read_status'', [''user_id''], KeepMax ''updated_at''),
     (''reviews'', [''user_id''], KeepTarget),
     (''shelf_books'', [''shelf_id''], KeepMin ''position''),
     (''wishlist_entries'', [''user_id''], KeepMin ''added_at''),
     (''cross_format_links'', [''user_id''], KeepTarget),
     (''book_content_chapters'', [''spine_index''], KeepTarget),
     (''book_export_digests'', [''partial_md5''], KeepTarget)]"

definition LEDGER_COUNTER_TABLES :: "(string \<times> string) list" where
  "LEDGER_COUNTER_TABLES = [(''reading_progress_daily'', ''day''), (''reading_progress_slots'', ''slot'')]"

text \<open>\<open>retarget_set\<close>: a moved annotation is stamped, so a device listing by \<open>updated_at\<close> sees it again.\<close>

definition retarget_set :: "string \<Rightarrow> ustr \<Rightarrow> int \<Rightarrow> rw \<Rightarrow> rw" where
  "retarget_set t b now r =
     (let r' = set_cell ''book_uuid'' (Text b) r
      in if t = ''annotations'' then set_cell ''updated_at'' (Integer now) r' else r')"

text \<open>
  \<open>dedupe_collisions\<close>, over any kind of row: the source's losing rows first, then the target rows
  that a surviving source row beat. The rule \<open>wins o r\<close> says the target's row \<open>o\<close> beats the
  source's \<open>r\<close>; under \<open>Keep::Target\<close> (no rule) it always does.
\<close>

definition dedupe_rows ::
  "('r \<Rightarrow> bool) \<Rightarrow> ('r \<Rightarrow> bool) \<Rightarrow> ('r \<Rightarrow> 'r \<Rightarrow> bool) \<Rightarrow> ('r \<Rightarrow> 'r \<Rightarrow> bool) option \<Rightarrow> 'r list \<Rightarrow> 'r list"
where
  "dedupe_rows src tgt same rule rows =
     (let wins = (case rule of Some w \<Rightarrow> w | None \<Rightarrow> \<lambda>_ _. True);
          rest = delete_where (\<lambda>r. src r \<and> list_ex (\<lambda>o1. tgt o1 \<and> same o1 r \<and> wins o1 r) rows) rows
      in case rule of
           None \<Rightarrow> rest
         | Some _ \<Rightarrow> delete_where (\<lambda>r. tgt r \<and> list_ex (\<lambda>o1. src o1 \<and> same o1 r) rest) rest)"

text \<open>No source row left shares the key of a target row left, and no other row is touched.\<close>

lemma dedupe_subset: "set (dedupe_rows src tgt same rule rows) \<subseteq> set rows"
  by (auto simp: dedupe_rows_def delete_where_def Let_def split: option.splits)

lemma dedupe_apart:
  assumes "x \<in> set (dedupe_rows src tgt same rule rows)" "y \<in> set (dedupe_rows src tgt same rule rows)"
    and "src x" "tgt y" and sym: "\<And>x y. same x y = same y x"
  shows "\<not> same y x"
proof (cases rule)
  case None
  with assms show ?thesis by (auto simp: dedupe_rows_def list_ex_iff)
next
  case (Some w)
  with assms(1-4) have "x \<in> set rows" "y \<in> set rows" "\<forall>z \<in> set rows. tgt z \<and> same z x \<longrightarrow> \<not> w z x"
    "\<not> same x y"
    by (auto simp: dedupe_rows_def Let_def list_ex_iff)
  then show ?thesis using sym by blast
qed

lemma dedupe_filter: "\<exists>K. dedupe_rows src tgt same rule rows = filter K rows \<and> (\<forall>r. \<not> src r \<and> \<not> tgt r \<longrightarrow> K r)"
  unfolding dedupe_rows_def delete_where_def Let_def
  by (cases rule) (auto intro!: exI)

lemma dedupe_map:
  assumes "\<And>r. src (f r) = src r" "\<And>r. tgt (f r) = tgt r" "\<And>x y. same (f x) (f y) = same x y"
    and "case rule of Some w \<Rightarrow> (\<forall>x y. w (f x) (f y) = w x y) | None \<Rightarrow> True"
  shows "dedupe_rows src tgt same rule (map f rows) = map f (dedupe_rows src tgt same rule rows)"
  using assms
  by (cases rule)
    (simp_all add: dedupe_rows_def delete_where_def Let_def filter_map list_ex_iff o_def cong: filter_cong)

fun keep_rule :: "keep \<Rightarrow> (rw \<Rightarrow> rw \<Rightarrow> bool) option" where
  "keep_rule (KeepMax c) = Some (\<lambda>o1 r. sql_le (cell c r) (cell c o1))"
| "keep_rule (KeepMin c) = Some (\<lambda>o1 r. sql_le (cell c o1) (cell c r))"
| "keep_rule KeepTarget = None"

definition dedupe_collisions :: "collision \<Rightarrow> ustr \<Rightarrow> ustr \<Rightarrow> rw list \<Rightarrow> rw list" where
  "dedupe_collisions c src tgt rows =
     dedupe_rows (on_book src) (on_book tgt) (same_cols (c_keys c)) (keep_rule (c_keep c)) rows"

definition clear_sitting_clock :: "ustr \<Rightarrow> ustr \<Rightarrow> rw list \<Rightarrow> rw list" where
  "clear_sitting_clock src tgt rows =
     update_where
       (\<lambda>r. (on_book tgt r \<or> on_book src r) \<and>
          list_ex (\<lambda>o1. on_book tgt o1 \<and> same_cols [''user_id'', ''format''] o1 r) rows \<and>
          list_ex (\<lambda>o1. on_book src o1 \<and> same_cols [''user_id'', ''format''] o1 r) rows)
       (set_cell ''sitting_observed_at'' Null) rows"

text \<open>The source's buckets that fold into the target's bucket \<open>r\<close>, or the other way round.\<close>

definition same_bucket :: "string \<Rightarrow> rw \<Rightarrow> rw \<Rightarrow> bool" where
  "same_bucket bucket o1 r = same_cols [''user_id'', bucket, ''format''] o1 r"

definition fold_ledger_counters :: "string \<Rightarrow> ustr \<Rightarrow> ustr \<Rightarrow> rw list \<Rightarrow> rw list" where
  "fold_ledger_counters bucket src tgt rows =
     (let mine = (\<lambda>r. filter (\<lambda>s. on_book src s \<and> same_bucket bucket s r) rows);
          summed = update_where (\<lambda>r. on_book tgt r \<and> mine r \<noteq> [])
            (\<lambda>r. set_cell ''percent_gained''
               (Integer (int_of_val (cell ''percent_gained'' r) +
                  sum_list (map (\<lambda>s. int_of_val (cell ''percent_gained'' s)) (mine r)))) r) rows
      in delete_where (\<lambda>r. on_book src r \<and> list_ex (\<lambda>o1. on_book tgt o1 \<and> same_bucket bucket o1 r) summed) summed)"

definition dedupe_annotations_sync :: "ustr \<Rightarrow> ustr \<Rightarrow> rw list \<Rightarrow> rw list" where
  "dedupe_annotations_sync src tgt rows =
     delete_where (\<lambda>r. on_book src r \<and> list_ex (\<lambda>o1. on_book tgt o1 \<and> same_cols [''device_id''] o1 r) rows) rows"

text \<open>The two typed tables of \<open>Merge_Curation\<close> take no part here.\<close>

definition curated :: "string \<Rightarrow> bool" where
  "curated t \<longleftrightarrow> t = ''book_read_status'' \<or> t = ''reviews''"

definition moved_tables :: "string list" where
  "moved_tables = filter (\<lambda>t. \<not> curated t) RETARGET_TABLES"

definition move_progress_and_history :: "ustr \<Rightarrow> ustr \<Rightarrow> int \<Rightarrow> tables \<Rightarrow> merge_error + tables" where
  "move_progress_and_history src tgt now d =
     (let d1 = d(''reading_progress_marks'' := on_rows (clear_sitting_clock src tgt) (d ''reading_progress_marks''));
          d2 = fold (\<lambda>c d. d(c_table c := on_rows (dedupe_collisions c src tgt) (d (c_table c))))
                 (filter (\<lambda>c. \<not> curated (c_table c)) COLLISION_TABLES) d1;
          d3 = fold (\<lambda>(t, b) d. d(t := on_rows (fold_ledger_counters b src tgt) (d t))) LEDGER_COUNTER_TABLES d2;
          d4 = d3(''kobo_annotations_sync'' := on_rows (dedupe_annotations_sync src tgt) (d3 ''kobo_annotations_sync''))
      in fold_res (at_table (\<lambda>t. exec_update (schema_of t) (on_book src) (retarget_set t tgt now)))
           moved_tables d4)"

end
