(* ===== verification/Merge_Relocation.thy ===== *)
theory Merge_Relocation
  imports Merge_Tables
begin

text \<open>
  The record a merge keeps of the rows it moved or deleted, and its replay on undo
  (\<open>db/src/merge/relocation.rs\<close>). A row is named by its \<open>AUTOINCREMENT\<close> id where the table has
  one, else by its primary key less \<open>book_uuid\<close>. The snapshot's maps from table to list are
  functions (an absent key is the empty list). Rows pass through JSON on the way into the record
  and back, which rounds their \<open>REAL\<close> cells.
\<close>

subsection \<open>What is recorded\<close>

definition UNRELOCATED :: "string list" where
  "UNRELOCATED = [''book_read_status'', ''reviews'', ''book_content_chapters'']"

definition CURRENT_VALUE_TABLES :: "string list" where
  "CURRENT_VALUE_TABLES = [''reading_progress'', ''reading_progress_marks'', ''audiobook_playback_preferences'']"

definition MERGE_WRITTEN :: "string list" where
  "MERGE_WRITTEN = [''book_uuid'', ''sitting_observed_at'']"

definition relocated_tables :: "string list" where
  "relocated_tables = filter (\<lambda>t. t \<notin> set UNRELOCATED) RETARGET_TABLES"

definition records_deletions :: "string \<Rightarrow> bool" where
  "records_deletions t \<longleftrightarrow>
     list_ex (\<lambda>c. c_table c = t) COLLISION_TABLES \<or> list_ex (\<lambda>(l, _). l = t) LEDGER_COUNTER_TABLES \<or>
     t = ''kobo_annotations_sync''"

text \<open>
  What becomes of a \<open>REAL\<close> on its way through JSON: \<open>js_read\<close>, printed by SQLite's \<open>json_object\<close> (to
  fifteen significant digits) and parsed by \<open>serde_json\<close>; \<open>js_log\<close>, printed and parsed again with the
  snapshot that is kept in \<open>merge_log\<close>; \<open>js_bind\<close>, printed by \<open>serde_json\<close> and taken from the bound text
  by SQLite's \<open>json_extract\<close>. NULLs, integers and text come through as they are.
\<close>

record json_text =
  js_read :: "64 word \<Rightarrow> 64 word"
  js_log :: "64 word \<Rightarrow> 64 word"
  js_bind :: "64 word \<Rightarrow> 64 word"

fun through :: "(64 word \<Rightarrow> 64 word) \<Rightarrow> val \<Rightarrow> val" where
  "through f (Real x) = Real (f x)"
| "through f v = v"

definition cells_through :: "(64 word \<Rightarrow> 64 word) \<Rightarrow> cells \<Rightarrow> cells" where
  "cells_through f cs = map (\<lambda>(c, v). (c, through f v)) cs"

definition row_through :: "(64 word \<Rightarrow> 64 word) \<Rightarrow> rw \<Rightarrow> rw" where
  "row_through f r = (fst r, cells_through f (snd r))"

text \<open>A row's recorded identity: its id as a JSON number, or an object of its key columns.\<close>

datatype ident = IdNum val | IdKey cells

record deleted_row =
  dr_id :: ident
  dr_row :: cells

record relocation_snapshot =
  rl_moved :: "string \<Rightarrow> ident list"
  rl_deleted :: "string \<Rightarrow> deleted_row list"
  rl_moved_before :: "string \<Rightarrow> deleted_row list"
  rl_cleared_clocks :: "cells list"

record pre_table =
  pt_source :: "(int \<times> ident) list"
  pt_rows :: "rw list"

definition identity_of :: "schema \<Rightarrow> rw \<Rightarrow> ident" where
  "identity_of sch r =
     (if s_auto sch then IdNum (cell ''id'' r) else IdKey (map (\<lambda>c. (c, cell c r)) (s_key sch)))"

text \<open>The rows of the two books as JSON values.\<close>

definition capture_pre :: "json_text \<Rightarrow> ustr \<Rightarrow> ustr \<Rightarrow> tables \<Rightarrow> string \<Rightarrow> pre_table" where
  "capture_pre js src tgt d t =
     (let json = row_through (js_read js)
      in \<lparr>pt_source = map (\<lambda>r. (fst r, identity_of (schema_of t) (json r))) (filter (on_book src) (t_rows (d t))),
          pt_rows = (if records_deletions t
            then map json (filter (\<lambda>r. on_book src r \<or> on_book tgt r) (t_rows (d t))) else [])\<rparr>)"

definition on_target :: "ustr \<Rightarrow> tables \<Rightarrow> string \<Rightarrow> int list" where
  "on_target tgt d t = map fst (filter (on_book tgt) (t_rows (d t)))"

definition recorded :: "schema \<Rightarrow> rw \<Rightarrow> deleted_row" where
  "recorded sch r = \<lparr>dr_id = identity_of sch r, dr_row = snd r\<rparr>"

definition capture_post :: "ustr \<Rightarrow> tables \<Rightarrow> (string \<Rightarrow> pre_table) \<Rightarrow> relocation_snapshot" where
  "capture_post tgt d pre =
     (let moved_rowids = (\<lambda>t. filter (\<lambda>i. i \<in> set (on_target tgt d t)) (map fst (pt_source (pre t))))
      in \<lparr>rl_moved = (\<lambda>t. if t \<in> set relocated_tables
            then map snd (filter (\<lambda>(i, _). i \<in> set (moved_rowids t)) (pt_source (pre t))) else []),
          rl_deleted = (\<lambda>t. if t \<in> set relocated_tables
            then map (recorded (schema_of t)) (filter (\<lambda>r. fst r \<notin> set (on_target tgt d t)) (pt_rows (pre t))) else []),
          rl_moved_before = (\<lambda>t. if t \<in> set relocated_tables \<and> t \<in> set CURRENT_VALUE_TABLES
            then map (recorded (schema_of t))
              (filter (\<lambda>r. fst r \<in> set (on_target tgt d t) \<and> fst r \<in> set (moved_rowids t)) (pt_rows (pre t))) else []),
          rl_cleared_clocks =
            map snd (filter (\<lambda>r. fst r \<in> set (on_target tgt d ''reading_progress_marks'') \<and>
                cell ''sitting_observed_at'' r \<noteq> Null) (pt_rows (pre ''reading_progress_marks'')))\<rparr>)"

text \<open>The record as an undo finds it in the log.\<close>

fun ident_through :: "(64 word \<Rightarrow> 64 word) \<Rightarrow> ident \<Rightarrow> ident" where
  "ident_through f (IdNum v) = IdNum (through f v)"
| "ident_through f (IdKey key) = IdKey (cells_through f key)"

definition deleted_through :: "(64 word \<Rightarrow> 64 word) \<Rightarrow> deleted_row \<Rightarrow> deleted_row" where
  "deleted_through f r = \<lparr>dr_id = ident_through f (dr_id r), dr_row = cells_through f (dr_row r)\<rparr>"

definition logged :: "json_text \<Rightarrow> relocation_snapshot \<Rightarrow> relocation_snapshot" where
  "logged js snap =
     \<lparr>rl_moved = (\<lambda>t. map (ident_through (js_log js)) (rl_moved snap t)),
      rl_deleted = (\<lambda>t. map (deleted_through (js_log js)) (rl_deleted snap t)),
      rl_moved_before = (\<lambda>t. map (deleted_through (js_log js)) (rl_moved_before snap t)),
      rl_cleared_clocks = map (cells_through (js_log js)) (rl_cleared_clocks snap)\<rparr>"

definition deleted_ids :: "relocation_snapshot \<Rightarrow> (string \<times> ident) list" where
  "deleted_ids snap = concat (map (\<lambda>t. map (\<lambda>r. (t, dr_id r)) (rl_deleted snap t)) relocated_tables)"

subsection \<open>The replay\<close>

fun id_match :: "json_text \<Rightarrow> ident \<Rightarrow> rw \<Rightarrow> bool" where
  "id_match js (IdKey key) r \<longleftrightarrow> list_all (\<lambda>(c, v). sql_eq (cell c r) (through (js_bind js) v)) key"
| "id_match js (IdNum v) r \<longleftrightarrow> sql_eq (cell ''id'' r) (through (js_bind js) v)"

text \<open>The row as it is now, read as JSON, against the record.\<close>

definition changed_since :: "json_text \<Rightarrow> deleted_row \<Rightarrow> ustr \<Rightarrow> rw list \<Rightarrow> bool" where
  "changed_since js before tgt rows =
     (case fetch_optional (\<lambda>r. on_book tgt r \<and> id_match js (dr_id before) r) rows of
        None \<Rightarrow> False
      | Some r \<Rightarrow> without MERGE_WRITTEN (cells_through (js_read js) (snd r)) \<noteq> without MERGE_WRITTEN (dr_row before))"

definition restore_clock :: "json_text \<Rightarrow> cells \<Rightarrow> rw list \<Rightarrow> rw list" where
  "restore_clock js cs rows =
     (let was = (0, cells_through (js_bind js) cs)
      in update_where
           (\<lambda>r. same_cols [''book_uuid'', ''user_id'', ''format''] was r \<and> cell ''sitting_observed_at'' r = Null)
           (set_cell ''sitting_observed_at'' (cell ''sitting_observed_at'' was)) rows)"

definition move_back :: "json_text \<Rightarrow> string \<Rightarrow> ident \<Rightarrow> ustr \<Rightarrow> ustr \<Rightarrow> int \<Rightarrow> tab \<Rightarrow> merge_error + tab" where
  "move_back js t i src tgt now =
     exec_update (schema_of t) (\<lambda>r. on_book tgt r \<and> id_match js i r) (retarget_set t src now)"

definition unfold_ledger_row :: "json_text \<Rightarrow> string \<Rightarrow> deleted_row \<Rightarrow> ustr \<Rightarrow> ustr \<Rightarrow> rw list \<Rightarrow> rw list" where
  "unfold_ledger_row js bucket row src tgt rows =
     (let was = (0, cells_through (js_bind js) (dr_row row))
      in if \<not> on_book src was then rows
         else update_where (\<lambda>r. on_book tgt r \<and> same_bucket bucket was r)
           (\<lambda>r. set_cell ''percent_gained''
              (Integer (max 0 (int_of_val (cell ''percent_gained'' r) - int_of_val (cell ''percent_gained'' was)))) r) rows)"

text \<open>
  \<open>reinsert\<close>: \<open>INSERT OR IGNORE\<close> of the recorded cells, where a foreign key whose parent row is gone
  nulls its column or drops the row. \<open>refs parent v\<close> says whether the parent table holds \<open>v\<close>. An
  \<open>AUTOINCREMENT\<close> row without an id takes the next one of the sequence; a table without one takes
  the rowid after its greatest.
\<close>

definition fk_of :: "schema \<Rightarrow> string \<Rightarrow> (string \<times> bool) option" where
  "fk_of sch c = map_of (s_fks sch) c"

definition fk_value :: "(string \<Rightarrow> val \<Rightarrow> bool) \<Rightarrow> schema \<Rightarrow> string \<times> val \<Rightarrow> string \<times> val" where
  "fk_value refs sch cv =
     (case fk_of sch (fst cv) of
        Some (parent, True) \<Rightarrow> (fst cv, if refs parent (snd cv) then snd cv else Null)
      | _ \<Rightarrow> cv)"

definition fk_keeps :: "(string \<Rightarrow> val \<Rightarrow> bool) \<Rightarrow> schema \<Rightarrow> string \<times> val \<Rightarrow> bool" where
  "fk_keeps refs sch cv =
     (case fk_of sch (fst cv) of
        Some (parent, False) \<Rightarrow> snd cv = Null \<or> refs parent (snd cv)
      | _ \<Rightarrow> True)"

definition next_rowid :: "rw list \<Rightarrow> int" where
  "next_rowid rows = (if rows = [] then 1 else Max (set (map fst rows)) + 1)"

definition insert_row :: "schema \<Rightarrow> cells \<Rightarrow> tab \<Rightarrow> rw \<times> tab" where
  "insert_row sch cs tb =
     (let (r, top) =
        (if s_auto sch
         then (case map_of cs ''id'' of
                 Some (Integer i) \<Rightarrow> ((i, cs), max (t_seq tb) i)
               | _ \<Rightarrow> (let i = max (t_seq tb) (next_rowid (t_rows tb) - 1) + 1
                       in ((i, (''id'', Integer i) # cs), i)))
         else ((next_rowid (t_rows tb), cs), t_seq tb))
      in (r, tb\<lparr>t_rows := t_rows tb @ [r], t_seq := top\<rparr>))"

definition reinsert :: "json_text \<Rightarrow> (string \<Rightarrow> val \<Rightarrow> bool) \<Rightarrow> schema \<Rightarrow> cells \<Rightarrow> tab \<Rightarrow> tab" where
  "reinsert js refs sch cs tb =
     (let cs = cells_through (js_bind js) cs
      in if \<not> list_all (fk_keeps refs sch) cs then tb
         else let (r, tb') = insert_row sch (map (fk_value refs sch) cs) tb
              in if list_ex (\<lambda>o1. clash sch o1 r) (t_rows tb) then tb else tb')"

definition restore_moved_row ::
  "json_text \<Rightarrow> (string \<Rightarrow> val \<Rightarrow> bool) \<Rightarrow> ustr \<Rightarrow> ustr \<Rightarrow> int \<Rightarrow> deleted_row list \<Rightarrow> string \<Rightarrow> ident \<Rightarrow> tab \<Rightarrow> merge_error + tab"
where
  "restore_moved_row js refs src tgt now moved_before t i tb =
     (case find (\<lambda>r. dr_id r = i) moved_before of
        Some before \<Rightarrow>
          (if changed_since js before tgt (t_rows tb)
           then Inr (reinsert js refs (schema_of t) (without [''id''] (dr_row before)) tb)
           else move_back js t i src tgt now tb)
      | None \<Rightarrow> move_back js t i src tgt now tb)"

definition restore_deleted_row ::
  "json_text \<Rightarrow> (string \<Rightarrow> val \<Rightarrow> bool) \<Rightarrow> ustr \<Rightarrow> ustr \<Rightarrow> string \<Rightarrow> deleted_row \<Rightarrow> tab \<Rightarrow> tab"
where
  "restore_deleted_row js refs src tgt t row tb =
     reinsert js refs (schema_of t) (dr_row row)
       (case map_of LEDGER_COUNTER_TABLES t of
          Some bucket \<Rightarrow> on_rows (unfold_ledger_row js bucket row src tgt) tb
        | None \<Rightarrow> tb)"

definition restore_relocation ::
  "json_text \<Rightarrow> (string \<Rightarrow> val \<Rightarrow> bool) \<Rightarrow> ustr \<Rightarrow> ustr \<Rightarrow> int \<Rightarrow> relocation_snapshot \<Rightarrow> (string \<times> ident) list \<Rightarrow>
   tables \<Rightarrow> merge_error + tables"
where
  "restore_relocation js refs src tgt now snap deleted_by_later d =
     (case find (\<lambda>t. list_ex (\<lambda>i. (t, i) \<in> set deleted_by_later) (rl_moved snap t)) relocated_tables of
        Some t \<Rightarrow> Inl (UndoConflict (RowReplaced t))
      | None \<Rightarrow>
          and_then
            (fold_res (at_table (\<lambda>t. fold_res (restore_moved_row js refs src tgt now (rl_moved_before snap t) t)
                (rl_moved snap t))) relocated_tables d)
            (\<lambda>d1.
              let d2 = fold (\<lambda>t d. d(t := fold (restore_deleted_row js refs src tgt t) (rl_deleted snap t) (d t)))
                         relocated_tables d1
              in Inr (d2(''reading_progress_marks'' :=
                   on_rows (fold (restore_clock js) (rl_cleared_clocks snap)) (d2 ''reading_progress_marks'')))))"

end
