(* ===== verification/Merge_Roundtrip.thy ===== *)
theory Merge_Roundtrip
  imports Merge_Relocation "HOL-Library.Multiset"
begin

text \<open>
  What the relocation of a merge and its undo guarantee: settling the collisions leaves no key the
  retarget could violate, and undoing a merge nothing has touched since gives every relocated table
  the rows it had.
\<close>

subsection \<open>Cells\<close>

named_theorems cells_simps

lemma fst_set_cell [cells_simps]: "fst (set_cell k v r) = fst r"
  by (simp add: set_cell_def)

lemma keys_set_cell [cells_simps]: "map fst (snd (set_cell k v r)) = map fst (snd r)"
  by (simp add: set_cell_def case_prod_beta)

lemma map_of_set_cell:
  "map_of (map (\<lambda>(j, x). if j = k then (j, v) else (j, x)) cs) c =
     (if c = k then map_option (\<lambda>_. v) (map_of cs c) else map_of cs c)"
  by (induction cs) (auto split: prod.splits)

lemma cell_set_cell [cells_simps]:
  "cell c (set_cell k v r) = (if c = k \<and> k \<in> fst ` set (snd r) then v else cell c r)"
proof -
  have "k \<in> fst ` set (snd r) \<longleftrightarrow> map_of (snd r) k \<noteq> None" by (simp add: map_of_eq_None_iff)
  then show ?thesis
    unfolding cell_def set_cell_def snd_conv map_of_set_cell by (auto split: option.splits)
qed

lemma cell_present: "cell c r \<noteq> Null \<Longrightarrow> c \<in> fst ` set (snd r)"
  by (metis cell_def map_of_eq_None_iff option.simps(4))

lemma set_cell_twice [cells_simps]: "set_cell k v (set_cell k w r) = set_cell k v r"
  by (simp add: set_cell_def case_prod_beta)

lemma set_cell_same: "distinct (map fst (snd r)) \<Longrightarrow> set_cell k (cell k r) r = r"
  by (auto simp: set_cell_def cell_def prod_eq_iff intro!: map_idI)

lemma set_cell_id: "distinct (map fst (snd r)) \<Longrightarrow> cell k r = v \<Longrightarrow> set_cell k v r = r"
  using set_cell_same by blast

lemma set_cell_back:
  "distinct (map fst (snd r)) \<Longrightarrow> cell k r = v \<Longrightarrow> set_cell k v (set_cell k w r) = r"
  by (simp add: set_cell_twice set_cell_id)

lemma on_book_present: "on_book b r \<Longrightarrow> ''book_uuid'' \<in> fst ` set (snd r)"
  by (rule cell_present) (simp add: on_book_def)

lemma on_book_unique: "on_book a r \<Longrightarrow> on_book b r \<longleftrightarrow> a = b"
  by (auto simp: on_book_def)

subsection \<open>Unique keys\<close>

lemma sql_eq_sym: "sql_eq x y \<longleftrightarrow> sql_eq y x"
  by (auto simp: sql_eq_def)

lemma same_cols_sym: "same_cols u x y \<longleftrightarrow> same_cols u y x"
  by (simp add: same_cols_def sql_eq_sym)

lemma clash_sym: "clash sch x y \<longleftrightarrow> clash sch y x"
  unfolding clash_def by (metis (no_types, lifting) list_ex_iff same_cols_sym)

lemma same_cols_mono: "set u \<subseteq> set w \<Longrightarrow> same_cols w x y \<Longrightarrow> same_cols u x y"
  by (auto simp: same_cols_def list_all_iff)

lemma same_cols_cong:
  "(\<And>c. c \<in> set u \<Longrightarrow> cell c x = cell c x') \<Longrightarrow> (\<And>c. c \<in> set u \<Longrightarrow> cell c y = cell c y') \<Longrightarrow>
     same_cols u x y = same_cols u x' y'"
  by (simp add: same_cols_def list_all_iff)

text \<open>On distinct rows, a unique key is a statement about pairs.\<close>

definition apart :: "schema \<Rightarrow> (rw \<Rightarrow> rw) \<Rightarrow> rw list \<Rightarrow> bool" where
  "apart sch f rows \<longleftrightarrow> (\<forall>x \<in> set rows. \<forall>y \<in> set rows. x \<noteq> y \<longrightarrow> \<not> clash sch (f x) (f y))"

lemma unique_ok_map: "distinct rows \<Longrightarrow> unique_ok sch (map f rows) \<longleftrightarrow> apart sch f rows"
proof (induction rows)
  case (Cons r rows)
  have "list_all (\<lambda>o1. \<not> clash sch o1 (f r)) (map f rows) \<longleftrightarrow> (\<forall>x \<in> set rows. \<not> clash sch (f x) (f r))"
    by (simp add: list_all_iff)
  with Cons show ?case by (auto simp: apart_def clash_sym)
qed (simp add: apart_def)

lemma unique_ok_iff: "distinct rows \<Longrightarrow> unique_ok sch rows \<longleftrightarrow> apart sch (\<lambda>r. r) rows"
  using unique_ok_map [of rows sch "\<lambda>r. r"] by simp

lemma apart_mono: "apart sch f rows \<Longrightarrow> set rows' \<subseteq> set rows \<Longrightarrow> apart sch f rows'"
  unfolding apart_def by blast

subsection \<open>Well-formed tables\<close>

text \<open>The columns a merge or its undo writes besides the book: none is part of a key.\<close>

definition written :: "string set" where
  "written = {''percent_gained'', ''sitting_observed_at'', ''updated_at''}"

definition schema_ok :: "schema \<Rightarrow> bool" where
  "schema_ok sch \<longleftrightarrow>
     (\<forall>u \<in> set (s_unique sch). set u \<inter> written = {}) \<and>
     set (s_key sch) \<inter> insert ''book_uuid'' written = {} \<and> set (s_key sch) \<subseteq> set (s_notnull sch) \<and>
     (if s_auto sch then [''id''] \<in> set (s_unique sch)
      else list_ex (\<lambda>pk. set pk \<subseteq> insert ''book_uuid'' (set (s_key sch))) (s_unique sch))"

definition row_ok :: "schema \<Rightarrow> rw \<Rightarrow> bool" where
  "row_ok sch r \<longleftrightarrow>
     distinct (map fst (snd r)) \<and> (case cell ''book_uuid'' r of Text _ \<Rightarrow> True | _ \<Rightarrow> False) \<and>
     (\<forall>c \<in> set (s_notnull sch). cell c r \<noteq> Null) \<and> (s_auto sch \<longrightarrow> cell ''id'' r = Integer (fst r))"

lemma row_ok_book: "row_ok sch r \<Longrightarrow> \<exists>b. cell ''book_uuid'' r = Text b"
  by (auto simp: row_ok_def split: val.splits)

definition table_ok :: "schema \<Rightarrow> rw list \<Rightarrow> bool" where
  "table_ok sch rows \<longleftrightarrow> distinct (map fst rows) \<and> unique_ok sch rows \<and> (\<forall>r \<in> set rows. row_ok sch r)"

text \<open>Settling keeps the rows \<open>K\<close> and rewrites each with \<open>F\<close>, outside the keys.\<close>

definition keeps :: "(rw \<Rightarrow> rw) \<Rightarrow> rw \<Rightarrow> bool" where
  "keeps F r \<longleftrightarrow> fst (F r) = fst r \<and> map fst (snd (F r)) = map fst (snd r) \<and>
     (\<forall>c. c \<notin> written \<longrightarrow> cell c (F r) = cell c r)"

definition settled :: "schema \<Rightarrow> ustr \<Rightarrow> ustr \<Rightarrow> rw list \<Rightarrow> (rw \<Rightarrow> rw) \<Rightarrow> bool" where
  "settled sch src tgt kept F \<longleftrightarrow>
     table_ok sch kept \<and> (\<forall>r \<in> set kept. keeps F r) \<and>
     (\<forall>x \<in> set kept. \<forall>y \<in> set kept. on_book src x \<and> on_book tgt y \<longrightarrow>
        (\<forall>u \<in> set (s_unique sch). ''book_uuid'' \<in> set u \<longrightarrow> \<not> same_cols (removeAll ''book_uuid'' u) x y))"

lemma table_ok_rows: "table_ok sch rows \<Longrightarrow> distinct rows"
  by (auto simp: table_ok_def distinct_map)

lemma table_ok_apart: "table_ok sch rows \<Longrightarrow> apart sch (\<lambda>r. r) rows"
  using unique_ok_iff table_ok_rows unfolding table_ok_def by blast

lemma table_ok_filter: "table_ok sch rows \<Longrightarrow> table_ok sch (filter K rows)"
proof -
  assume ok: "table_ok sch rows"
  then have "apart sch (\<lambda>r. r) (filter K rows)"
    using apart_mono [OF table_ok_apart] by auto
  with ok show ?thesis
    using unique_ok_iff [of "filter K rows" sch] table_ok_rows [OF ok]
    by (simp add: table_ok_def distinct_map_filter)
qed

lemma retarget_cell:
  "''book_uuid'' \<in> fst ` set (snd r) \<Longrightarrow> c \<notin> written \<Longrightarrow>
     cell c (retarget_set t b now r) = (if c = ''book_uuid'' then Text b else cell c r)"
  by (simp add: retarget_set_def Let_def cells_simps written_def)

lemma retarget_keys:
  "fst (retarget_set t b now r) = fst r" "map fst (snd (retarget_set t b now r)) = map fst (snd r)"
  by (simp_all add: retarget_set_def Let_def cells_simps)

text \<open>
  The table while the merge or its undo is under way: of the kept rows of the source, those in \<open>D\<close>
  are on the target and the others are back.
\<close>

definition mix :: "string \<Rightarrow> ustr \<Rightarrow> ustr \<Rightarrow> int \<Rightarrow> int \<Rightarrow> (rw \<Rightarrow> rw) \<Rightarrow> rw set \<Rightarrow> rw \<Rightarrow> rw" where
  "mix t src tgt now now' F D r =
     (if on_book src r
      then if r \<in> D then retarget_set t tgt now (F r)
           else retarget_set t src now' (retarget_set t tgt now (F r))
      else F r)"

lemma book_not_written [simp]: "''book_uuid'' \<notin> written" "''id'' \<notin> written"
  by (simp_all add: written_def)

lemma keys_cong: "map fst xs = map fst ys \<Longrightarrow> k \<in> fst ` set xs \<longleftrightarrow> k \<in> fst ` set ys"
  by (drule arg_cong [of _ _ set]) simp

lemma keeps_present:
  assumes "keeps F r" "row_ok sch r"
  shows "''book_uuid'' \<in> fst ` set (snd (F r))"
proof -
  have "cell ''book_uuid'' r \<noteq> Null" using row_ok_book [OF assms(2)] by auto
  then have "''book_uuid'' \<in> fst ` set (snd r)" by (rule cell_present)
  moreover have same: "map fst (snd (F r)) = map fst (snd r)" using assms(1) by (simp only: keeps_def)
  ultimately show ?thesis by (simp only: keys_cong [OF same])
qed

lemma mix_cell:
  assumes "keeps F r" "row_ok sch r" "c \<notin> written"
  shows "cell c (mix t src tgt now now' F D r) =
    (if c = ''book_uuid'' \<and> on_book src r then Text (if r \<in> D then tgt else src) else cell c r)"
proof -
  have b: "''book_uuid'' \<in> fst ` set (snd (F r))"
    "''book_uuid'' \<in> fst ` set (snd (retarget_set t tgt now (F r)))"
    using keeps_present [OF assms(1,2)] by (simp_all only: keys_cong [OF retarget_keys(2)])
  with assms show ?thesis
    by (simp add: mix_def keeps_def retarget_cell)
qed

lemma same_cols_split:
  "''book_uuid'' \<in> set u \<Longrightarrow>
     same_cols u x y \<longleftrightarrow> sql_eq (cell ''book_uuid'' x) (cell ''book_uuid'' y) \<and> same_cols (removeAll ''book_uuid'' u) x y"
  by (auto simp: same_cols_def list_all_iff)

text \<open>
  Rows that agree on a key after part of the move, but for the book, are one row: they cannot be on
  one book, as the table's own key holds, nor on the two books, as the collisions are settled.
\<close>

lemma mix_same_cols:
  assumes "settled sch src tgt kept F" "schema_ok sch" "src \<noteq> tgt"
    and "x \<in> set kept" "y \<in> set kept" "u \<in> set (s_unique sch)"
    and same: "same_cols u (mix t src tgt now now' F D x) (mix t src tgt now now' F D y)"
  shows "x = y"
proof (rule ccontr)
  assume "x \<noteq> y"
  let ?m = "mix t src tgt now now' F D"
  from assms have ok: "table_ok sch kept" "keeps F x" "keeps F y" "row_ok sch x" "row_ok sch y"
    and plain: "set u \<inter> written = {}"
    by (auto simp: settled_def table_ok_def schema_ok_def)
  from table_ok_apart [OF ok(1)] assms(4-6) \<open>x \<noteq> y\<close> have sep: "\<not> same_cols u x y"
    by (auto simp: apart_def clash_def list_ex_iff)
  have others: "cell c (?m x) = cell c x" "cell c (?m y) = cell c y"
    if "c \<in> set u" "c \<noteq> ''book_uuid''" for c
  proof -
    have "c \<notin> written" using plain that by blast
    with that show "cell c (?m x) = cell c x" "cell c (?m y) = cell c y"
      by (simp_all add: mix_cell [OF ok(2,4)] mix_cell [OF ok(3,5)])
  qed
  show False
  proof (cases "''book_uuid'' \<in> set u")
    case False
    then have "same_cols u (?m x) (?m y) = same_cols u x y"
      using others by (intro same_cols_cong) auto
    with same sep show False by simp
  next
    case True
    have rest: "same_cols (removeAll ''book_uuid'' u) (?m x) (?m y) = same_cols (removeAll ''book_uuid'' u) x y"
      using others by (intro same_cols_cong) auto
    from same True rest have
      books: "cell ''book_uuid'' (?m x) = cell ''book_uuid'' (?m y)"
      and agree: "same_cols (removeAll ''book_uuid'' u) x y"
      by (simp_all add: same_cols_split [OF True] sql_eq_def)
    from agree sep have "cell ''book_uuid'' x \<noteq> cell ''book_uuid'' y"
      using row_ok_book [OF ok(4)] by (auto simp: same_cols_split [OF True] sql_eq_def)
    with books have "on_book src x \<and> on_book tgt y \<or> on_book src y \<and> on_book tgt x"
      by (simp add: mix_cell [OF ok(2,4)] mix_cell [OF ok(3,5)] on_book_def split: if_splits)
    moreover have "same_cols (removeAll ''book_uuid'' u) y x" using agree by (simp add: same_cols_sym)
    ultimately show False using assms(1,4,5,6) True agree unfolding settled_def by metis
  qed
qed

lemma mix_apart:
  assumes "settled sch src tgt kept F" "schema_ok sch" "src \<noteq> tgt"
  shows "apart sch (mix t src tgt now now' F D) kept"
  using mix_same_cols [OF assms] unfolding apart_def clash_def list_ex_iff by blast

lemma mix_unique:
  assumes "settled sch src tgt kept F" "schema_ok sch" "src \<noteq> tgt"
  shows "unique_ok sch (map (mix t src tgt now now' F D) kept)"
proof -
  from assms(1) have "distinct kept" using table_ok_rows unfolding settled_def by blast
  then show ?thesis using mix_apart [OF assms] by (simp add: unique_ok_map)
qed

subsection \<open>Through JSON and back\<close>

text \<open>A JSON that keeps every number: what is proved of it carries over to rows already rounded.\<close>

definition exact_text :: json_text where
  "exact_text = \<lparr>js_read = (\<lambda>x. x), js_log = (\<lambda>x. x), js_bind = (\<lambda>x. x)\<rparr>"

text \<open>What a real of a recorded row is when it is inserted again.\<close>

definition rounded :: "json_text \<Rightarrow> 64 word \<Rightarrow> 64 word" where
  "rounded js x = js_bind js (js_log js (js_read js x))"

definition stored :: "json_text \<Rightarrow> schema \<Rightarrow> rw \<Rightarrow> deleted_row" where
  "stored js sch r = deleted_through (js_log js) (recorded sch (row_through (js_read js) r))"

lemma through_id [simp]: "through (\<lambda>x. x) v = v"
  by (cases v) simp_all

lemma exact_text_simps [simp]:
  "js_read exact_text = (\<lambda>x. x)" "js_bind exact_text = (\<lambda>x. x)" "cells_through (\<lambda>x. x) cs = cs"
  by (simp_all add: exact_text_def cells_through_def)

lemma through_iff [simp]:
  "through f v = Null \<longleftrightarrow> v = Null" "through f v = Text b \<longleftrightarrow> v = Text b" "through f v = Integer i \<longleftrightarrow> v = Integer i"
  "int_of_val (through f v) = int_of_val v" "through f (through g v) = through (\<lambda>x. f (g x)) v"
  by (cases v; simp)+

lemma cells_through_twice: "cells_through f (cells_through g cs) = cells_through (\<lambda>x. f (g x)) cs"
  by (simp add: cells_through_def case_prod_beta o_def)

lemma cell_through: "cell c (row_through f r) = through f (cell c r)"
proof -
  have "map_of (cells_through f cs) c = map_option (through f) (map_of cs c)" for cs
    by (induction cs) (auto simp: cells_through_def)
  then show ?thesis by (simp add: cell_def row_through_def split: option.split)
qed

lemma through_simps [simp]:
  "fst (row_through f r) = fst r" "map fst (cells_through f cs) = map fst cs"
  "snd (row_through f r) = cells_through f (snd r)" "on_book b (row_through f r) = on_book b r"
proof -
  show "on_book b (row_through f r) = on_book b r" by (simp add: on_book_def cell_through)
qed (simp_all add: row_through_def cells_through_def case_prod_beta o_def)

lemma without_through: "without cols (cells_through f cs) = cells_through f (without cols cs)"
  by (simp add: without_def cells_through_def filter_map o_def case_prod_unfold)

lemma row_ok_through [simp]: "row_ok sch (row_through f r) = row_ok sch r"
  by (auto simp: row_ok_def cell_through split: val.splits)

text \<open>Columns that hold no real: the keys, the references and the sitting clock.\<close>

definition plain_cols :: "schema \<Rightarrow> string list" where
  "plain_cols sch = concat (s_unique sch) @ s_key sch @ map fst (s_fks sch) @ [''sitting_observed_at'']"

definition plain_row :: "schema \<Rightarrow> rw \<Rightarrow> bool" where
  "plain_row sch r \<longleftrightarrow> list_all (\<lambda>c. case cell c r of Real _ \<Rightarrow> False | _ \<Rightarrow> True) (plain_cols sch)"

lemma plain_through: "plain_row sch r \<Longrightarrow> c \<in> set (plain_cols sch) \<Longrightarrow> through f (cell c r) = cell c r"
  by (cases "cell c r") (auto simp: plain_row_def list_all_iff)

lemma plain_cell: "plain_row sch r \<Longrightarrow> c \<in> set (plain_cols sch) \<Longrightarrow> cell c (row_through f r) = cell c r"
  by (simp add: cell_through plain_through)

lemma plain_identity:
  assumes "schema_ok sch" "plain_row sch r"
  shows "identity_of sch (row_through f r) = identity_of sch r"
    and "ident_through f (identity_of sch r) = identity_of sch r"
    and "id_match js (identity_of sch r) y = id_match exact_text (identity_of sch r) y"
proof -
  have "s_auto sch \<Longrightarrow> [''id''] \<in> set (s_unique sch)" using assms(1) by (simp add: schema_ok_def)
  then have cols: "s_auto sch \<Longrightarrow> ''id'' \<in> set (plain_cols sch)" "set (s_key sch) \<subseteq> set (plain_cols sch)"
    by (force simp: plain_cols_def)+
  then have same: "s_auto sch \<Longrightarrow> through g (cell ''id'' r) = cell ''id'' r"
    "c \<in> set (s_key sch) \<Longrightarrow> through g (cell c r) = cell c r" for g c
    using plain_through [OF assms(2)] by blast+
  show "identity_of sch (row_through f r) = identity_of sch r"
    using same by (simp add: identity_of_def cell_through)
  show "ident_through f (identity_of sch r) = identity_of sch r"
    using same by (simp add: identity_of_def cells_through_def)
  show "id_match js (identity_of sch r) y = id_match exact_text (identity_of sch r) y"
    using same by (simp add: identity_of_def list_all_iff)
qed

lemma stored_fields:
  assumes "schema_ok sch" "plain_row sch r"
  shows "dr_id (stored js sch r) = identity_of sch r"
    and "dr_row (stored js sch r) = cells_through (\<lambda>x. js_log js (js_read js x)) (snd r)"
  using plain_identity [OF assms]
  by (simp_all add: stored_def deleted_through_def recorded_def cells_through_twice)

text \<open>The log changes no number that the capture had read.\<close>

definition log_keeps :: "json_text \<Rightarrow> rw \<Rightarrow> bool" where
  "log_keeps js r \<longleftrightarrow>
     list_all (\<lambda>(c, v). case v of Real x \<Rightarrow> js_log js (js_read js x) = js_read js x | _ \<Rightarrow> True) (snd r)"

lemma log_keeps_cells:
  "log_keeps js r \<Longrightarrow> cells_through (\<lambda>x. js_log js (js_read js x)) (snd r) = cells_through (js_read js) (snd r)"
  unfolding log_keeps_def cells_through_def
  by (rule map_cong [OF refl]) (auto simp: list_all_iff split: val.splits elim!: through.elims)

text \<open>The recorded identity of a moved row finds that row on the target, and no other.\<close>

lemma mix_identity:
  assumes st: "settled sch src tgt kept F" and sch: "schema_ok sch" and ne: "src \<noteq> tgt"
    and x: "x \<in> set kept" "on_book src x" "x \<in> D" and y: "y \<in> set kept"
  shows "on_book tgt (mix t src tgt now now' F D y) \<and> id_match exact_text (identity_of sch x) (mix t src tgt now now' F D y)
    \<longleftrightarrow> y = x"
proof
  let ?m = "mix t src tgt now now' F D"
  from st x y have ok: "keeps F x" "keeps F y" "row_ok sch x" "row_ok sch y" "distinct (map fst kept)"
    by (auto simp: settled_def table_ok_def)
  have keys: "c \<in> set (s_key sch) \<Longrightarrow> cell c (?m z) = cell c z" if "keeps F z" "row_ok sch z" for c z
    using sch mix_cell [OF that] by (auto simp: schema_ok_def disjoint_iff)
  show "y = x" if a: "on_book tgt (?m y) \<and> id_match exact_text (identity_of sch x) (?m y)"
  proof (cases "s_auto sch")
    case True
    with a ok have "fst y = fst x"
      using mix_cell [OF ok(2,4)] by (auto simp: identity_of_def sql_eq_def row_ok_def)
    with ok(5) x y show ?thesis by (metis distinct_map inj_onD)
  next
    case False
    with sch obtain pk where pk: "pk \<in> set (s_unique sch)" "set pk \<subseteq> insert ''book_uuid'' (set (s_key sch))"
      by (auto simp: schema_ok_def list_ex_iff)
    have "on_book tgt (?m x)" using x mix_cell [OF ok(1,3)] by (simp add: on_book_def)
    have "sql_eq (cell c (?m x)) (cell c (?m y))" if "c \<in> set pk" for c
    proof (cases "c = ''book_uuid''")
      case True
      with a \<open>on_book tgt (?m x)\<close> show ?thesis by (simp add: sql_eq_def on_book_def)
    next
      case c: False
      with pk(2) that have "c \<in> set (s_key sch)" by blast
      with a False keys [OF ok(1,3) this] show ?thesis
        by (auto simp: identity_of_def list_all_iff sql_eq_def)
    qed
    then have "same_cols pk (?m x) (?m y)" by (simp add: same_cols_def list_all_iff)
    then show ?thesis using mix_same_cols [OF st sch ne y x(1)] pk(1) by (simp add: same_cols_sym)
  qed
  assume "y = x"
  moreover have "on_book tgt (?m x)" using x mix_cell [OF ok(1,3)] by (simp add: on_book_def)
  moreover have "id_match exact_text (identity_of sch x) (?m x)"
    using keys [OF ok(1,3)] ok(3) sch mix_cell [OF ok(1,3), of "''id''"]
    by (auto simp: identity_of_def list_all_iff sql_eq_def row_ok_def schema_ok_def)
  ultimately show "on_book tgt (?m y) \<and> id_match exact_text (identity_of sch x) (?m y)" by simp
qed

subsection \<open>Moving out and back\<close>

lemma fetch_map_unique:
  "x \<in> set xs \<Longrightarrow> (\<And>y. y \<in> set xs \<Longrightarrow> P (f y) \<longleftrightarrow> y = x) \<Longrightarrow> fetch_optional P (map f xs) = Some (f x)"
  unfolding fetch_optional_def by (induction xs) auto

lemma without_set_cell: "k \<in> set cols \<Longrightarrow> without cols (snd (set_cell k v r)) = without cols (snd r)"
proof -
  assume k: "k \<in> set cols"
  have "without cols (map (\<lambda>(j, x). if j = k then (j, v) else (j, x)) cs) = without cols cs" for cs
    unfolding without_def using k by (induction cs) (auto split: if_splits)
  then show ?thesis by (simp add: set_cell_def)
qed

lemma without_retarget:
  "t \<noteq> ''annotations'' \<Longrightarrow>
     without MERGE_WRITTEN (snd (retarget_set t b now r)) = without MERGE_WRITTEN (snd r)"
  by (simp add: retarget_set_def without_set_cell MERGE_WRITTEN_def)

text \<open>The retarget of a settled table never violates a key.\<close>

lemma retarget_settled:
  assumes "settled (schema_of t) src tgt kept F" "schema_ok (schema_of t)" "src \<noteq> tgt"
    and "t_rows tb = map F kept"
  shows "exec_update (schema_of t) (on_book src) (retarget_set t tgt now) tb =
    Inr (tb\<lparr>t_rows := map (mix t src tgt now now' F UNIV) kept\<rparr>)"
proof -
  have "cell ''book_uuid'' (F r) = cell ''book_uuid'' r" if "r \<in> set kept" for r
    using assms(1) that by (simp add: settled_def keeps_def)
  then have "update_where (on_book src) (retarget_set t tgt now) (t_rows tb) = map (mix t src tgt now now' F UNIV) kept"
    using assms(4) by (auto simp: update_where_def mix_def on_book_def)
  then show ?thesis
    using mix_unique [OF assms(1-3)] by (simp add: exec_update_def Let_def)
qed

text \<open>The rows recorded for a table of current values, none of which the merge changed to the eye of \<open>changed_since\<close>.\<close>

definition unchanged :: "json_text \<Rightarrow> string \<Rightarrow> ustr \<Rightarrow> rw list \<Rightarrow> (rw \<Rightarrow> rw) \<Rightarrow> deleted_row list \<Rightarrow> bool" where
  "unchanged js t src kept F before \<longleftrightarrow>
     before = [] \<or>
     (t \<noteq> ''annotations'' \<and>
      (\<forall>b \<in> set before. \<exists>z \<in> set kept. on_book src z \<and> b = stored js (schema_of t) z) \<and>
      (\<forall>z \<in> set kept. without MERGE_WRITTEN (snd (F z)) = without MERGE_WRITTEN (snd z)))"

lemma unchangedD:
  "unchanged js t src kept F before \<Longrightarrow> b \<in> set before \<Longrightarrow>
     t \<noteq> ''annotations'' \<and> (\<exists>z \<in> set kept. on_book src z \<and> b = stored js (schema_of t) z) \<and>
     (\<forall>z \<in> set kept. without MERGE_WRITTEN (snd (F z)) = without MERGE_WRITTEN (snd z))"
  unfolding unchanged_def by (elim disjE) simp_all

text \<open>Two rows of the source have different identities.\<close>

lemma identity_inj:
  assumes st: "settled sch src tgt kept F" "schema_ok sch" "src \<noteq> tgt"
    and "x \<in> set kept" "on_book src x" "z \<in> set kept" "on_book src z" "identity_of sch z = identity_of sch x"
  shows "z = x"
proof -
  let ?m = "mix [] src tgt 0 0 F UNIV"
  have "on_book tgt (?m z) \<and> id_match exact_text (identity_of sch z) (?m z)"
    by (rule mix_identity [OF st assms(6,7) UNIV_I assms(6), THEN iffD2]) (rule refl)
  then have "on_book tgt (?m z) \<and> id_match exact_text (identity_of sch x) (?m z)" unfolding assms(8) .
  then show ?thesis by (rule mix_identity [OF st assms(4,5) UNIV_I assms(6), THEN iffD1])
qed

lemma move_back_mix:
  assumes st: "settled (schema_of t) src tgt kept F" "schema_ok (schema_of t)" "src \<noteq> tgt"
    and rows: "t_rows tb = map (mix t src tgt now now' F D) kept"
    and x: "x \<in> set kept" "on_book src x" "x \<in> D" and plain: "plain_row (schema_of t) x"
  shows "move_back js t (identity_of (schema_of t) x) src tgt now' tb =
    Inr (tb\<lparr>t_rows := map (mix t src tgt now now' F (D - {x})) kept\<rparr>)"
proof -
  let ?m = "mix t src tgt now now' F D" and ?i = "identity_of (schema_of t) x"
  have "(if on_book tgt (?m y) \<and> id_match js ?i (?m y) then retarget_set t src now' (?m y) else ?m y) =
      mix t src tgt now now' F (D - {x}) y" if "y \<in> set kept" for y
    unfolding plain_identity(3) [OF st(2) plain, where js = js] mix_identity [OF st x that] using x by (auto simp: mix_def)
  then have "update_where (\<lambda>r. on_book tgt r \<and> id_match js ?i r) (retarget_set t src now') (t_rows tb)
      = map (mix t src tgt now now' F (D - {x})) kept"
    by (simp add: rows update_where_def)
  then show ?thesis
    using mix_unique [OF st] by (simp add: move_back_def exec_update_def Let_def)
qed

lemma restore_moved_mix:
  assumes st: "settled (schema_of t) src tgt kept F" "schema_ok (schema_of t)" "src \<noteq> tgt"
    and plain: "\<forall>z \<in> set kept. plain_row (schema_of t) z \<and> log_keeps js z"
    and rows: "t_rows tb = map (mix t src tgt now now' F D) kept"
    and x: "x \<in> set kept" "on_book src x" "x \<in> D" and mb: "unchanged js t src kept F before"
  shows "restore_moved_row js refs src tgt now' before t (identity_of (schema_of t) x) tb =
    Inr (tb\<lparr>t_rows := map (mix t src tgt now now' F (D - {x})) kept\<rparr>)"
proof -
  let ?i = "identity_of (schema_of t) x"
  note px = plain [rule_format, OF x(1), THEN conjunct1]
  have "\<not> changed_since js b tgt (t_rows tb)" if "find (\<lambda>r. dr_id r = ?i) before = Some b" for b
  proof -
    from that have b: "b \<in> set before" "dr_id b = ?i" by (auto simp: find_Some_iff)
    from unchangedD [OF mb b(1)] obtain z where z: "z \<in> set kept" "on_book src z" "b = stored js (schema_of t) z"
      and t: "t \<noteq> ''annotations''" and F: "without MERGE_WRITTEN (snd (F x)) = without MERGE_WRITTEN (snd x)"
      using x(1) by blast
    note pz = plain [rule_format, OF z(1)]
    from z b have "identity_of (schema_of t) z = ?i" using stored_fields(1) [OF st(2), of z js] pz by simp
    then have "z = x" by (rule identity_inj [OF st x(1,2) z(1,2)])
    then have row: "dr_row b = cells_through (js_read js) (snd x)"
      using z(3) stored_fields(2) [OF st(2)] pz log_keeps_cells by simp
    have fetched: "fetch_optional (\<lambda>r. on_book tgt r \<and> id_match js ?i r) (t_rows tb) =
        Some (mix t src tgt now now' F D x)"
      unfolding rows plain_identity(3) [OF st(2) px, where js = js]
      using mix_identity [OF st x] by (intro fetch_map_unique x(1)) simp
    moreover have "without MERGE_WRITTEN (snd (mix t src tgt now now' F D x)) = without MERGE_WRITTEN (snd x)"
      using x F by (simp add: mix_def without_retarget [OF t])
    ultimately show ?thesis by (simp add: changed_since_def b(2) row without_through)
  qed
  then show ?thesis
    using move_back_mix [OF st rows x px] by (simp add: restore_moved_row_def split: option.splits)
qed

text \<open>Moving back every recorded row leaves none of the source's rows on the target.\<close>

lemma restore_all_moved:
  assumes st: "settled (schema_of t) src tgt kept F" "schema_ok (schema_of t)" "src \<noteq> tgt"
    and plain: "\<forall>z \<in> set kept. plain_row (schema_of t) z \<and> log_keeps js z"
    and mb: "unchanged js t src kept F before"
  shows "distinct xs \<Longrightarrow> set xs \<subseteq> set kept \<Longrightarrow> \<forall>x \<in> set xs. on_book src x \<and> x \<in> D \<Longrightarrow>
    t_rows tb = map (mix t src tgt now now' F D) kept \<Longrightarrow>
    fold_res (restore_moved_row js refs src tgt now' before t) (map (identity_of (schema_of t)) xs) tb =
      Inr (tb\<lparr>t_rows := map (mix t src tgt now now' F (D - set xs)) kept\<rparr>)"
proof (induction xs arbitrary: D tb)
  case (Cons x xs)
  let ?tb = "tb\<lparr>t_rows := map (mix t src tgt now now' F (D - {x})) kept\<rparr>"
  have "restore_moved_row js refs src tgt now' before t (identity_of (schema_of t) x) tb = Inr ?tb"
    using Cons.prems by (intro restore_moved_mix [OF st plain _ _ _ _ mb]) auto
  moreover have "D - {x} - set xs = D - set (x # xs)" by auto
  ultimately show ?case using Cons.IH [of "D - {x}" ?tb] Cons.prems by auto
qed simp

subsection \<open>Reinserting the deleted rows\<close>

text \<open>Every foreign key of the row still has its parent.\<close>

definition refs_ok :: "(string \<Rightarrow> val \<Rightarrow> bool) \<Rightarrow> schema \<Rightarrow> rw \<Rightarrow> bool" where
  "refs_ok refs sch r \<longleftrightarrow>
     list_all (\<lambda>(c, v). case fk_of sch c of None \<Rightarrow> True | Some (parent, _) \<Rightarrow> v = Null \<or> refs parent v) (snd r)"

lemma refs_ok_cells:
  assumes "refs_ok refs sch r"
  shows "list_all (fk_keeps refs sch) (snd r)" "map (fk_value refs sch) (snd r) = snd r"
proof -
  have one: "fk_keeps refs sch cv \<and> fk_value refs sch cv = cv" if "cv \<in> set (snd r)" for cv
  proof -
    obtain c v where cv: "cv = (c, v)" by (cases cv)
    with assms that have "case fk_of sch c of None \<Rightarrow> True | Some (parent, _) \<Rightarrow> v = Null \<or> refs parent v"
      by (force simp: refs_ok_def list_all_iff)
    then show ?thesis
      by (auto simp: cv fk_keeps_def fk_value_def split: option.splits bool.splits)
  qed
  then show "list_all (fk_keeps refs sch) (snd r)" by (simp add: list_all_iff)
  from one show "map (fk_value refs sch) (snd r) = snd r" by (simp add: map_idI)
qed

lemma refs_ok_through:
  assumes "plain_row sch r" "row_ok sch r" "refs_ok refs sch r"
  shows "refs_ok refs sch (row_through f r)"
proof -
  have "through f v = v" if cv: "(c, v) \<in> set (snd r)" "fk_of sch c = Some p" for c v p
  proof -
    have "c \<in> set (plain_cols sch)" using cv(2) by (force simp: fk_of_def plain_cols_def dest: map_of_SomeD)
    moreover have "cell c r = v" using cv(1) assms(2) by (simp add: cell_def row_ok_def)
    ultimately show ?thesis using plain_through [OF assms(1)] by blast
  qed
  then show ?thesis
    using assms(3) by (fastforce simp: refs_ok_def list_all_iff cells_through_def split: option.splits)
qed

lemma clash_through:
  assumes "plain_row sch x"
  shows "clash sch y (row_through f x) = clash sch y x" and "clash sch (row_through f x) y = clash sch x y"
proof -
  have "same_cols u y (row_through f x) = same_cols u y x" if "u \<in> set (s_unique sch)" for u
    using that by (intro same_cols_cong refl plain_cell [OF assms]) (auto simp: plain_cols_def)
  then show same: "clash sch y (row_through f x) = clash sch y x"
    unfolding clash_def list_ex_iff by (rule bex_cong [OF refl])
  then show "clash sch (row_through f x) y = clash sch x y"
    using clash_sym [of sch "row_through f x" y] clash_sym [of sch x y] by (simp only:)
qed

text \<open>Reinserting the record of a row is inserting the rounded row.\<close>

lemma restore_deleted_stored:
  "restore_deleted_row js refs src tgt t (stored js sch x) =
     restore_deleted_row exact_text refs src tgt t (recorded sch (row_through (rounded js) x))"
proof (rule ext)
  fix tb
  have row: "cells_through (js_bind js) (dr_row (stored js sch x)) = cells_through (rounded js) (snd x)"
    by (simp add: stored_def deleted_through_def recorded_def cells_through_twice rounded_def [abs_def])
  have "reinsert js refs (schema_of t) (dr_row (stored js sch x)) =
      reinsert exact_text refs (schema_of t) (dr_row (recorded sch (row_through (rounded js) x)))"
    by (rule ext) (simp add: reinsert_def row recorded_def)
  moreover have "unfold_ledger_row js b (stored js sch x) =
      unfold_ledger_row exact_text b (recorded sch (row_through (rounded js) x))" for b
    by (intro ext) (simp add: unfold_ledger_row_def row recorded_def)
  ultimately show "restore_deleted_row js refs src tgt t (stored js sch x) tb =
      restore_deleted_row exact_text refs src tgt t (recorded sch (row_through (rounded js) x)) tb"
    by (cases "map_of LEDGER_COUNTER_TABLES t") (simp_all add: restore_deleted_row_def)
qed

lemma cell_snd [simp]: "cell c (i, snd r) = cell c r"
  by (simp add: cell_def)

lemma clash_cells:
  "schema_ok sch \<Longrightarrow> (\<And>c. c \<notin> written \<Longrightarrow> cell c x = cell c x') \<Longrightarrow> (\<And>c. c \<notin> written \<Longrightarrow> cell c y = cell c y') \<Longrightarrow>
     clash sch x y = clash sch x' y'"
proof -
  assume sch: "schema_ok sch" and x: "\<And>c. c \<notin> written \<Longrightarrow> cell c x = cell c x'"
    and y: "\<And>c. c \<notin> written \<Longrightarrow> cell c y = cell c y'"
  have "same_cols u x y = same_cols u x' y'" if "u \<in> set (s_unique sch)" for u
  proof (rule same_cols_cong)
    fix c assume "c \<in> set u"
    with sch that have "c \<notin> written" by (auto simp: schema_ok_def disjoint_iff)
    then show "cell c x = cell c x'" "cell c y = cell c y'" using x y by simp_all
  qed
  then show ?thesis by (simp add: clash_def list_ex_iff)
qed

lemma insert_row_rows: "\<exists>i top. row_ok sch x \<longrightarrow> insert_row sch (snd x) tb = ((i, snd x), tb\<lparr>t_rows := t_rows tb @ [(i, snd x)], t_seq := top\<rparr>)"
proof (cases "row_ok sch x \<and> s_auto sch")
  case True
  then have "map_of (snd x) ''id'' = Some (Integer (fst x))"
    by (auto simp: row_ok_def cell_def split: option.splits)
  with True show ?thesis
    by (intro exI [of _ "fst x"] exI [of _ "max (t_seq tb) (fst x)"]) (simp add: insert_row_def Let_def)
next
  case False
  then show ?thesis
    by (intro exI [of _ "next_rowid (t_rows tb)"] exI [of _ "t_seq tb"]) (auto simp: insert_row_def Let_def)
qed

lemma reinsert_row:
  assumes "schema_ok sch" "row_ok sch x" "refs_ok refs sch x" "\<forall>y \<in> set (t_rows tb). \<not> clash sch y x"
  shows "\<exists>i top. reinsert exact_text refs sch (snd x) tb = tb\<lparr>t_rows := t_rows tb @ [(i, snd x)], t_seq := top\<rparr>"
proof -
  from insert_row_rows [of sch x tb] assms(2) obtain i top where
    ins: "insert_row sch (snd x) tb = ((i, snd x), tb\<lparr>t_rows := t_rows tb @ [(i, snd x)], t_seq := top\<rparr>)"
    by blast
  have "clash sch y (i, snd x) = clash sch y x" for y
    using assms(1) by (intro clash_cells) simp_all
  then have "\<not> list_ex (\<lambda>o1. clash sch o1 (i, snd x)) (t_rows tb)"
    using assms(4) by (simp add: list_ex_iff)
  then show ?thesis
    using refs_ok_cells [OF assms(3)] by (auto simp: reinsert_def ins)
qed

text \<open>
  The rows come back one by one. A ledger first takes what the row had added off the target's
  bucket: \<open>H ys\<close> is a kept row while the rows \<open>ys\<close> are still to come.
\<close>

definition undo_fold :: "string \<Rightarrow> ustr \<Rightarrow> ustr \<Rightarrow> deleted_row \<Rightarrow> rw list \<Rightarrow> rw list" where
  "undo_fold t src tgt row rows =
     (case map_of LEDGER_COUNTER_TABLES t of
        Some bucket \<Rightarrow> unfold_ledger_row exact_text bucket row src tgt rows | None \<Rightarrow> rows)"

lemma restore_deleted_row_undo_fold:
  "restore_deleted_row exact_text refs src tgt t row tb =
     reinsert exact_text refs (schema_of t) (dr_row row) (on_rows (undo_fold t src tgt row) tb)"
  by (simp add: restore_deleted_row_def undo_fold_def on_rows_def split: option.splits)

lemma reinsert_all:
  fixes t
  defines "sch \<equiv> schema_of t"
  assumes sch: "schema_ok sch" and ds: "\<forall>x \<in> set ds. row_ok sch x \<and> refs_ok refs sch x"
    and apart: "apart sch (\<lambda>r. r) (kept @ ds)" "set kept \<inter> set ds = {}"
    and H: "\<And>ys r c. r \<in> set kept \<Longrightarrow> c \<notin> written \<Longrightarrow> cell c (H ys r) = cell c r"
    and step: "\<And>x ys app. set (x # ys) \<subseteq> set ds \<Longrightarrow> \<forall>a \<in> set app. \<exists>d \<in> set ds. snd a = snd d \<Longrightarrow>
      undo_fold t src tgt (recorded sch x) (map (H (x # ys)) kept @ app) = map (H ys) kept @ app"
  shows "distinct (done1 @ ys) \<Longrightarrow> set (done1 @ ys) \<subseteq> set ds \<Longrightarrow> map snd app = map snd done1 \<Longrightarrow>
    t_rows tb = map (H ys) kept @ app \<Longrightarrow>
    \<exists>app'. t_rows (fold (restore_deleted_row exact_text refs src tgt t) (map (recorded sch) ys) tb) = map (H []) kept @ app' \<and>
      map snd app' = map snd (done1 @ ys)"
proof (induction ys arbitrary: done1 app tb)
  case (Cons x ys)
  from Cons.prems(1,2) have x: "x \<in> set ds" "x \<notin> set done1" and sub: "set (x # ys) \<subseteq> set ds" "set done1 \<subseteq> set ds"
    by auto
  have "snd ` set app = snd ` set done1" using arg_cong [OF Cons.prems(3), of set] by simp
  then have app: "\<exists>d \<in> set done1. snd a = snd d" if "a \<in> set app" for a
    using that by (metis imageE imageI)
  let ?tb = "on_rows (undo_fold t src tgt (recorded sch x)) tb"
  have "\<forall>a \<in> set app. \<exists>d \<in> set ds. snd a = snd d" using app sub(2) by blast
  then have rows: "t_rows ?tb = map (H ys) kept @ app"
    using step [OF sub(1)] Cons.prems(4) by (simp add: on_rows_def)
  have "\<not> clash sch y x" if y: "y \<in> set (t_rows ?tb)" for y
  proof -
    from y rows consider (kept) r where "r \<in> set kept" "y = H ys r" | (app) "y \<in> set app" by auto
    then show ?thesis
    proof cases
      case kept
      then have "clash sch y x = clash sch r x" using H by (intro clash_cells [OF sch]) auto
      moreover have "r \<noteq> x" using kept apart(2) x(1) by blast
      ultimately show ?thesis using apart(1) kept x(1) by (simp add: apart_def)
    next
      case app
      then obtain d where d: "d \<in> set done1" "snd y = snd d" using \<open>\<And>a. a \<in> set app \<Longrightarrow> _\<close> by blast
      then have "clash sch y x = clash sch d x" by (intro clash_cells [OF sch]) (simp_all add: cell_def)
      moreover have "d \<noteq> x" "d \<in> set ds" using d(1) x sub(2) by blast+
      ultimately show ?thesis using apart(1) x(1) by (simp add: apart_def)
    qed
  qed
  moreover have "row_ok sch x" "refs_ok refs sch x" using ds x(1) by blast+
  ultimately obtain i top where ins: "reinsert exact_text refs sch (snd x) ?tb = ?tb\<lparr>t_rows := t_rows ?tb @ [(i, snd x)], t_seq := top\<rparr>"
    using reinsert_row [OF sch] by blast
  let ?tb' = "restore_deleted_row exact_text refs src tgt t (recorded sch x) tb"
  have "?tb' = ?tb\<lparr>t_rows := t_rows ?tb @ [(i, snd x)], t_seq := top\<rparr>"
    using ins by (simp add: restore_deleted_row_undo_fold recorded_def sch_def)
  then have "t_rows ?tb' = map (H ys) kept @ (app @ [(i, snd x)])" using rows by simp
  then show ?case
    using Cons.IH [of "done1 @ [x]" "app @ [(i, snd x)]" ?tb'] Cons.prems(1-3) by simp
qed simp

subsection \<open>One table at a time\<close>

text \<open>What the merge does to one table before it is retargeted.\<close>

definition settle_keys :: "string \<Rightarrow> ustr \<Rightarrow> ustr \<Rightarrow> rw list \<Rightarrow> rw list" where
  "settle_keys t src tgt rows =
     (let r1 = (if t = ''reading_progress_marks'' then clear_sitting_clock src tgt rows else rows);
          r2 = (case find (\<lambda>c. c_table c = t) (filter (\<lambda>c. \<not> curated (c_table c)) COLLISION_TABLES) of
                  Some c \<Rightarrow> dedupe_collisions c src tgt r1 | None \<Rightarrow> r1)
      in case map_of LEDGER_COUNTER_TABLES t of Some b \<Rightarrow> fold_ledger_counters b src tgt r2 | None \<Rightarrow> r2)"

definition settle :: "string \<Rightarrow> ustr \<Rightarrow> ustr \<Rightarrow> rw list \<Rightarrow> rw list" where
  "settle t src tgt rows =
     (if t = ''kobo_annotations_sync'' then dedupe_annotations_sync src tgt (settle_keys t src tgt rows)
      else settle_keys t src tgt rows)"

lemma on_rows_on_rows: "on_rows f (on_rows g tb) = on_rows (\<lambda>rows. f (g rows)) tb"
  by (simp add: on_rows_def)

lemma on_rows_id: "on_rows (\<lambda>rows. rows) tb = tb"
  by (simp add: on_rows_def)

lemma move_eq:
  "move_progress_and_history src tgt now d =
     fold_res (at_table (\<lambda>t. exec_update (schema_of t) (on_book src) (retarget_set t tgt now)))
       moved_tables (\<lambda>t. on_rows (settle t src tgt) (d t))"
proof -
  have keys: "fold (\<lambda>(t, b) d. d(t := on_rows (fold_ledger_counters b src tgt) (d t))) LEDGER_COUNTER_TABLES
      (fold (\<lambda>c d. d(c_table c := on_rows (dedupe_collisions c src tgt) (d (c_table c))))
        (filter (\<lambda>c. \<not> curated (c_table c)) COLLISION_TABLES)
        (d(''reading_progress_marks'' := on_rows (clear_sitting_clock src tgt) (d ''reading_progress_marks''))))
      = (\<lambda>t. on_rows (settle_keys t src tgt) (d t))"
    by (rule ext)
      (simp add: settle_keys_def COLLISION_TABLES_def LEDGER_COUNTER_TABLES_def curated_def on_rows_def)
  show ?thesis
    unfolding move_progress_and_history_def Let_def keys
    by (rule arg_cong [where f = "fold_res _ _"]) (auto simp: settle_def on_rows_def)
qed

lemma fold_res_tables:
  "distinct ts \<Longrightarrow> (\<And>t. t \<in> set ts \<Longrightarrow> f t (d t) = Inr (g t)) \<Longrightarrow>
     fold_res (at_table f) ts d = Inr (\<lambda>t. if t \<in> set ts then g t else d t)"
proof (induction ts arbitrary: d)
  case (Cons t ts)
  have "fold_res (at_table f) ts (d(t := g t)) = Inr (\<lambda>u. if u \<in> set ts then g u else (d(t := g t)) u)"
    using Cons.prems by (intro Cons.IH) auto
  moreover have "(\<lambda>u. if u \<in> set ts then g u else (d(t := g t)) u) = (\<lambda>u. if u \<in> set (t # ts) then g u else d u)"
    using Cons.prems(1) by auto
  moreover have "at_table f t d = Inr (d(t := g t))" using Cons.prems by (simp add: at_table_def)
  ultimately show ?case by simp
qed simp

lemma fold_tables:
  "distinct ts \<Longrightarrow> fold (\<lambda>t d. d(t := h t (d t))) ts d = (\<lambda>t. if t \<in> set ts then h t (d t) else d t)"
  by (induction ts arbitrary: d) auto

text \<open>Comparing the tables before and after, the capture sees what was kept and what was not.\<close>

lemma rowid_inj:
  "table_ok sch rows \<Longrightarrow> r \<in> set rows \<Longrightarrow> z \<in> set rows \<Longrightarrow> fst r = fst z \<Longrightarrow> r = z"
  unfolding table_ok_def distinct_map by (blast dest: inj_onD)

lemma mem_map_filter_map: "x \<in> set (map h (filter P (map m ys))) \<longleftrightarrow> (\<exists>z \<in> set ys. P (m z) \<and> h (m z) = x)"
  by (induction ys) auto

lemma mem_map_filter: "x \<in> set (map h (filter P ys)) \<longleftrightarrow> (\<exists>z \<in> set ys. P z \<and> h z = x)"
  by (induction ys) auto

lemma on_target_iff:
  assumes ok: "table_ok (schema_of t) rows" and r: "r \<in> set rows"
    and after: "t_rows (d' t) = map (mix t src tgt now now' F UNIV) (filter K rows)"
    and keep: "\<forall>r \<in> set (filter K rows). keeps F r"
  shows "fst r \<in> set (on_target tgt d' t) \<longleftrightarrow> K r \<and> (on_book src r \<or> on_book tgt r)"
proof -
  let ?m = "mix t src tgt now now' F UNIV"
  have on: "on_book tgt (?m z) \<longleftrightarrow> on_book src z \<or> on_book tgt z" "fst (?m z) = fst z"
    if "z \<in> set (filter K rows)" for z
  proof -
    have k: "keeps F z" using keep that by blast
    moreover have "row_ok (schema_of t) z" using ok that by (auto simp: table_ok_def)
    ultimately show "on_book tgt (?m z) \<longleftrightarrow> on_book src z \<or> on_book tgt z"
      using mix_cell [of F z "schema_of t" "''book_uuid''"] by (auto simp: on_book_def)
    from k show "fst (?m z) = fst z" by (simp add: mix_def retarget_keys keeps_def)
  qed
  have "fst r \<in> set (on_target tgt d' t) \<longleftrightarrow>
      (\<exists>z \<in> set (filter K rows). on_book tgt (?m z) \<and> fst (?m z) = fst r)"
    unfolding on_target_def after by (rule mem_map_filter_map)
  also have "\<dots> \<longleftrightarrow> (\<exists>z \<in> set (filter K rows). (on_book src z \<or> on_book tgt z) \<and> fst z = fst r)"
    using on by (intro bex_cong refl) simp
  also have "\<dots> \<longleftrightarrow> K r \<and> (on_book src r \<or> on_book tgt r)"
    using rowid_inj [OF ok r] r by (metis (no_types, lifting) mem_Collect_eq set_filter)
  finally show ?thesis .
qed

text \<open>The recorded sides of one table, over the set \<open>T\<close> of rowids found on the target.\<close>

lemma moved_iff:
  assumes ok: "table_ok sch rows" and r: "r \<in> set rows"
    and T: "\<forall>r \<in> set rows. fst r \<in> set T \<longleftrightarrow> K r \<and> (on_book src r \<or> on_book tgt r)"
  shows "fst r \<in> set (filter (\<lambda>i. i \<in> set T) (map fst (map (\<lambda>r. (fst r, g r)) (filter (on_book src) rows)))) \<longleftrightarrow>
    K r \<and> on_book src r"
proof -
  have "fst r \<in> set (map fst (map (\<lambda>r. (fst r, g r)) (filter (on_book src) rows))) \<longleftrightarrow> on_book src r"
  proof -
    have "fst r \<in> set (map fst (map (\<lambda>r. (fst r, g r)) (filter (on_book src) rows))) \<longleftrightarrow>
        (\<exists>z \<in> set rows. on_book src z \<and> fst z = fst r)"
      using mem_map_filter [of "fst r" fst "on_book src" rows] by (simp add: o_def)
    also have "\<dots> \<longleftrightarrow> on_book src r" using rowid_inj [OF ok r] r by metis
    finally show ?thesis .
  qed
  with T r show ?thesis by (simp only: set_filter mem_Collect_eq) blast
qed

lemma filter_pairs:
  "map snd (filter (\<lambda>(i, _). Q i) (map (\<lambda>r. (fst r, g r)) rows)) = map g (filter (\<lambda>r. Q (fst r)) rows)"
  by (induction rows) auto

lemma capture_moved:
  assumes ok: "table_ok (schema_of t) (t_rows (d t))" and t: "t \<in> set relocated_tables"
    and plain: "\<forall>r \<in> set (t_rows (d t)). plain_row (schema_of t) r" and sch: "schema_ok (schema_of t)"
    and T: "\<forall>r \<in> set (t_rows (d t)). fst r \<in> set (on_target tgt d' t) \<longleftrightarrow> K r \<and> (on_book src r \<or> on_book tgt r)"
  shows "rl_moved (logged js (capture_post tgt d' (capture_pre js src tgt d))) t =
    map (identity_of (schema_of t)) (filter (on_book src) (filter K (t_rows (d t))))"
proof -
  let ?rows = "t_rows (d t)" and ?id = "\<lambda>r. identity_of (schema_of t) (row_through (js_read js) r)"
  let ?m = "filter (\<lambda>i. i \<in> set (on_target tgt d' t)) (map fst (map (\<lambda>r. (fst r, ?id r)) (filter (on_book src) ?rows)))"
  have "rl_moved (capture_post tgt d' (capture_pre js src tgt d)) t =
      map ?id (filter (\<lambda>r. fst r \<in> set ?m) (filter (on_book src) ?rows))"
    using t by (simp only: capture_post_def capture_pre_def Let_def relocation_snapshot.simps pre_table.simps
        filter_pairs if_True)
  also have "filter (\<lambda>r. fst r \<in> set ?m) (filter (on_book src) ?rows) = filter (on_book src) (filter K ?rows)"
    unfolding filter_filter
  proof (intro filter_cong refl)
    fix r assume "r \<in> set ?rows"
    then have "fst r \<in> set ?m \<longleftrightarrow> K r \<and> on_book src r" by (rule moved_iff [OF ok _ T])
    then show "(on_book src r \<and> fst r \<in> set ?m) = (K r \<and> on_book src r)" by blast
  qed
  finally have "rl_moved (logged js (capture_post tgt d' (capture_pre js src tgt d))) t =
      map (\<lambda>r. ident_through (js_log js) (?id r)) (filter (on_book src) (filter K ?rows))"
    by (simp only: logged_def relocation_snapshot.simps map_map o_def)
  also have "\<dots> = map (identity_of (schema_of t)) (filter (on_book src) (filter K ?rows))"
    using plain plain_identity [OF sch] by (intro map_cong refl) simp
  finally show ?thesis .
qed

text \<open>A deleted or moved row as the log has it.\<close>

lemma logged_rows:
  "map (deleted_through (js_log js)) (map (recorded sch) (filter (\<lambda>r. P (fst r)) (map (row_through (js_read js)) rows))) =
     map (stored js sch) (filter (\<lambda>r. P (fst r)) rows)"
  by (simp add: filter_map o_def stored_def)

lemma capture_deleted:
  assumes t: "t \<in> set relocated_tables"
    and T: "\<forall>r \<in> set (t_rows (d t)). fst r \<in> set (on_target tgt d' t) \<longleftrightarrow> K r \<and> (on_book src r \<or> on_book tgt r)"
    and K: "\<forall>r \<in> set (t_rows (d t)). \<not> on_book src r \<and> \<not> on_book tgt r \<longrightarrow> K r"
  shows "rl_deleted (logged js (capture_post tgt d' (capture_pre js src tgt d))) t =
    (if records_deletions t then map (stored js (schema_of t)) (filter (\<lambda>r. \<not> K r) (t_rows (d t))) else [])"
proof (cases "records_deletions t")
  case True
  let ?rows = "t_rows (d t)"
  have "rl_deleted (logged js (capture_post tgt d' (capture_pre js src tgt d))) t = map (stored js (schema_of t))
      (filter (\<lambda>r. fst r \<notin> set (on_target tgt d' t)) (filter (\<lambda>r. on_book src r \<or> on_book tgt r) ?rows))"
    using t True by (simp only: logged_def capture_post_def capture_pre_def Let_def relocation_snapshot.simps
        pre_table.simps if_True logged_rows [where P = "\<lambda>i. i \<notin> set (on_target tgt d' t)"])
  also have "filter (\<lambda>r. fst r \<notin> set (on_target tgt d' t)) (filter (\<lambda>r. on_book src r \<or> on_book tgt r) ?rows)
      = filter (\<lambda>r. \<not> K r) ?rows"
    unfolding filter_filter using T K by (intro filter_cong refl) metis
  finally show ?thesis using True by simp
next
  case False
  then show ?thesis
    by (simp add: logged_def capture_post_def capture_pre_def Let_def)
qed

lemma capture_before:
  assumes ok: "table_ok (schema_of t) (t_rows (d t))" and t: "t \<in> set relocated_tables"
    and T: "\<forall>r \<in> set (t_rows (d t)). fst r \<in> set (on_target tgt d' t) \<longleftrightarrow> K r \<and> (on_book src r \<or> on_book tgt r)"
  shows "rl_moved_before (logged js (capture_post tgt d' (capture_pre js src tgt d))) t =
    (if t \<in> set CURRENT_VALUE_TABLES \<and> records_deletions t
     then map (stored js (schema_of t)) (filter (on_book src) (filter K (t_rows (d t)))) else [])"
proof (cases "t \<in> set CURRENT_VALUE_TABLES \<and> records_deletions t")
  case True
  let ?rows = "t_rows (d t)" and ?id = "\<lambda>r. identity_of (schema_of t) (row_through (js_read js) r)"
  let ?m = "filter (\<lambda>i. i \<in> set (on_target tgt d' t)) (map fst (map (\<lambda>r. (fst r, ?id r)) (filter (on_book src) ?rows)))"
  have "rl_moved_before (logged js (capture_post tgt d' (capture_pre js src tgt d))) t = map (stored js (schema_of t))
      (filter (\<lambda>r. fst r \<in> set (on_target tgt d' t) \<and> fst r \<in> set ?m)
        (filter (\<lambda>r. on_book src r \<or> on_book tgt r) ?rows))"
    using t True by (simp only: logged_def capture_post_def capture_pre_def Let_def relocation_snapshot.simps
        pre_table.simps if_True simp_thms
        logged_rows [where P = "\<lambda>i. i \<in> set (on_target tgt d' t) \<and> i \<in> set ?m"])
  also have "filter (\<lambda>r. fst r \<in> set (on_target tgt d' t) \<and> fst r \<in> set ?m)
        (filter (\<lambda>r. on_book src r \<or> on_book tgt r) ?rows) = filter (on_book src) (filter K ?rows)"
    unfolding filter_filter
  proof (intro filter_cong refl)
    fix r assume r: "r \<in> set ?rows"
    then have "fst r \<in> set ?m \<longleftrightarrow> K r \<and> on_book src r" by (rule moved_iff [OF ok _ T])
    moreover have "fst r \<in> set (on_target tgt d' t) \<longleftrightarrow> K r \<and> (on_book src r \<or> on_book tgt r)" using T r by blast
    ultimately show "((on_book src r \<or> on_book tgt r) \<and> fst r \<in> set (on_target tgt d' t) \<and> fst r \<in> set ?m) =
        (K r \<and> on_book src r)" by blast
  qed
  finally show ?thesis using True by simp
next
  case False
  then show ?thesis by (auto simp: logged_def capture_post_def capture_pre_def Let_def)
qed

definition stored_clock :: "json_text \<Rightarrow> rw \<Rightarrow> cells" where
  "stored_clock js r = cells_through (\<lambda>x. js_log js (js_read js x)) (snd r)"

lemma capture_clocks:
  assumes d: "d ''reading_progress_marks'' = tb"
    and T: "\<forall>r \<in> set (t_rows tb). fst r \<in> set (on_target tgt d' ''reading_progress_marks'') \<longleftrightarrow>
      K r \<and> (on_book src r \<or> on_book tgt r)"
  shows "rl_cleared_clocks (logged js (capture_post tgt d' (capture_pre js src tgt d))) =
    map (stored_clock js)
      (filter (\<lambda>r. (on_book src r \<or> on_book tgt r) \<and> cell ''sitting_observed_at'' r \<noteq> Null) (filter K (t_rows tb)))"
proof -
  have rd: "records_deletions ''reading_progress_marks''" by code_simp
  have clock: "map (cells_through (js_log js)) (map snd (filter (\<lambda>r. P (fst r) \<and> cell c r \<noteq> Null)
      (map (row_through (js_read js)) rows))) = map (stored_clock js) (filter (\<lambda>r. P (fst r) \<and> cell c r \<noteq> Null) rows)"
    for P c rows
    by (simp add: filter_map o_def stored_clock_def [abs_def] cells_through_twice cell_through)
  have "rl_cleared_clocks (logged js (capture_post tgt d' (capture_pre js src tgt d))) =
      map (stored_clock js) (filter (\<lambda>r. fst r \<in> set (on_target tgt d' ''reading_progress_marks'') \<and>
        cell ''sitting_observed_at'' r \<noteq> Null) (filter (\<lambda>r. on_book src r \<or> on_book tgt r) (t_rows tb)))"
    using rd d by (simp only: logged_def capture_post_def capture_pre_def Let_def relocation_snapshot.simps
        pre_table.simps if_True clock [where P = "\<lambda>i. i \<in> set (on_target tgt d' ''reading_progress_marks'')"])
  also have "\<dots> = map (stored_clock js) (filter (\<lambda>r. (on_book src r \<or> on_book tgt r) \<and> cell ''sitting_observed_at'' r \<noteq> Null)
      (filter K (t_rows tb)))"
    unfolding filter_filter using T by (intro arg_cong [where f = "map (stored_clock js)"] filter_cong refl) metis
  finally show ?thesis .
qed

subsection \<open>Every moved table is settled\<close>

text \<open>The columns on which a source row and a target row of a table collide, when they can.\<close>

definition partner_key :: "string \<Rightarrow> string list option" where
  "partner_key t =
     (case find (\<lambda>c. c_table c = t) (filter (\<lambda>c. \<not> curated (c_table c)) COLLISION_TABLES) of
        Some c \<Rightarrow> Some (c_keys c)
      | None \<Rightarrow> (case map_of LEDGER_COUNTER_TABLES t of
          Some b \<Rightarrow> Some [''user_id'', b, ''format'']
        | None \<Rightarrow> if t = ''kobo_annotations_sync'' then Some [''device_id''] else None))"

lemma relocated_moved: "t \<in> set relocated_tables \<Longrightarrow> t \<in> set moved_tables"
  by (auto simp: relocated_tables_def moved_tables_def curated_def UNRELOCATED_def)

lemma moved_schemas:
  "t \<in> set moved_tables \<Longrightarrow>
     schema_ok (schema_of t) \<and>
     (\<forall>u \<in> set (s_unique (schema_of t)). ''book_uuid'' \<in> set u \<longrightarrow>
        (case partner_key t of Some ks \<Rightarrow> set ks \<subseteq> set (removeAll ''book_uuid'' u) | None \<Rightarrow> False)) \<and>
     (partner_key t \<noteq> None \<longleftrightarrow> records_deletions t)"
proof -
  have "list_all (\<lambda>t. schema_ok (schema_of t) \<and>
     (\<forall>u \<in> set (s_unique (schema_of t)). ''book_uuid'' \<in> set u \<longrightarrow>
        (case partner_key t of Some ks \<Rightarrow> set ks \<subseteq> set (removeAll ''book_uuid'' u) | None \<Rightarrow> False)) \<and>
     (partner_key t \<noteq> None \<longleftrightarrow> records_deletions t)) moved_tables"
    by code_simp
  then show "t \<in> set moved_tables \<Longrightarrow> ?thesis" by (simp add: list_all_iff)
qed

lemma settledI:
  assumes "table_ok (schema_of t) rows" "t \<in> set moved_tables" "\<forall>r \<in> set (filter K rows). keeps F r"
    and apart: "\<And>ks x y. partner_key t = Some ks \<Longrightarrow> x \<in> set (filter K rows) \<Longrightarrow> y \<in> set (filter K rows) \<Longrightarrow>
      on_book src x \<Longrightarrow> on_book tgt y \<Longrightarrow> \<not> same_cols ks y x"
  shows "settled (schema_of t) src tgt (filter K rows) F"
  unfolding settled_def
proof (intro conjI ballI impI)
  show "table_ok (schema_of t) (filter K rows)" using assms(1) by (rule table_ok_filter)
  show "keeps F r" if "r \<in> set (filter K rows)" for r using assms(3) that by blast
  fix x y u assume xy: "x \<in> set (filter K rows)" "y \<in> set (filter K rows)" "on_book src x \<and> on_book tgt y"
    and u: "u \<in> set (s_unique (schema_of t))" "''book_uuid'' \<in> set u"
  from moved_schemas [OF assms(2)] u obtain ks where
    ks: "partner_key t = Some ks" "set ks \<subseteq> set (removeAll ''book_uuid'' u)"
    by (cases "partner_key t") auto
  then have "\<not> same_cols ks y x" using xy apart by blast
  then show "\<not> same_cols (removeAll ''book_uuid'' u) x y"
    using same_cols_mono [OF ks(2)] same_cols_sym by blast
qed

lemma keeps_id [simp]: "keeps (\<lambda>r. r) r"
  by (simp add: keeps_def)

lemma keeps_set_cell: "c \<in> written \<Longrightarrow> keeps (\<lambda>r. if P r then set_cell c (v r) r else r) r"
  by (simp add: keeps_def cells_simps)

definition ready :: "string \<Rightarrow> ustr \<Rightarrow> ustr \<Rightarrow> rw list \<Rightarrow> (rw \<Rightarrow> bool) \<Rightarrow> (rw \<Rightarrow> rw) \<Rightarrow> bool" where
  "ready t src tgt rows K F \<longleftrightarrow>
     settle t src tgt rows = map F (filter K rows) \<and> settled (schema_of t) src tgt (filter K rows) F \<and>
     (\<forall>r \<in> set rows. \<not> on_book src r \<and> \<not> on_book tgt r \<longrightarrow> K r) \<and>
     (\<not> records_deletions t \<longrightarrow> (\<forall>r \<in> set rows. K r))"

text \<open>Whether the merge clears the row's sitting clock.\<close>

definition both_marked :: "ustr \<Rightarrow> ustr \<Rightarrow> rw list \<Rightarrow> rw \<Rightarrow> bool" where
  "both_marked src tgt rows r \<longleftrightarrow> (on_book tgt r \<or> on_book src r) \<and>
     list_ex (\<lambda>o1. on_book tgt o1 \<and> same_cols [''user_id'', ''format''] o1 r) rows \<and>
     list_ex (\<lambda>o1. on_book src o1 \<and> same_cols [''user_id'', ''format''] o1 r) rows"

definition clear_of :: "string \<Rightarrow> ustr \<Rightarrow> ustr \<Rightarrow> rw list \<Rightarrow> rw \<Rightarrow> rw" where
  "clear_of t src tgt rows r =
     (if t = ''reading_progress_marks'' \<and> both_marked src tgt rows r then set_cell ''sitting_observed_at'' Null r else r)"

lemma clear_of_other: "t \<noteq> ''reading_progress_marks'' \<Longrightarrow> clear_of t src tgt rows = (\<lambda>r. r)"
  by (simp add: clear_of_def fun_eq_iff)

lemma cell_clear_of: "c \<noteq> ''sitting_observed_at'' \<Longrightarrow> cell c (clear_of t src tgt rows r) = cell c r"
  by (simp add: clear_of_def cells_simps)

lemma keeps_clear_of [simp]: "keeps (clear_of t src tgt rows) r"
  by (simp add: keeps_def clear_of_def cells_simps written_def)

lemma collision_facts:
  "c \<in> set COLLISION_TABLES \<Longrightarrow>
     map_of LEDGER_COUNTER_TABLES (c_table c) = None \<and> c_table c \<noteq> ''kobo_annotations_sync'' \<and>
     ''sitting_observed_at'' \<notin> set (c_keys c) \<and>
     (case c_keep c of KeepMax k \<Rightarrow> k \<noteq> ''sitting_observed_at'' | KeepMin k \<Rightarrow> k \<noteq> ''sitting_observed_at''
      | KeepTarget \<Rightarrow> True)"
proof -
  have "list_all (\<lambda>c. map_of LEDGER_COUNTER_TABLES (c_table c) = None \<and> c_table c \<noteq> ''kobo_annotations_sync'' \<and>
     ''sitting_observed_at'' \<notin> set (c_keys c) \<and>
     (case c_keep c of KeepMax k \<Rightarrow> k \<noteq> ''sitting_observed_at'' | KeepMin k \<Rightarrow> k \<noteq> ''sitting_observed_at''
      | KeepTarget \<Rightarrow> True)) COLLISION_TABLES"
    by code_simp
  then show "c \<in> set COLLISION_TABLES \<Longrightarrow> ?thesis" by (simp add: list_all_iff)
qed

lemma dedupe_collisions_map:
  assumes c: "c \<in> set COLLISION_TABLES"
    and F: "\<And>k r. k \<noteq> ''sitting_observed_at'' \<Longrightarrow> cell k (F r) = cell k r"
  shows "dedupe_collisions c src tgt (map F rows) = map F (dedupe_collisions c src tgt rows)"
  unfolding dedupe_collisions_def
proof (rule dedupe_map)
  show "on_book src (F r) = on_book src r" "on_book tgt (F r) = on_book tgt r" for r
    by (simp_all add: on_book_def F)
  have k: "k \<noteq> ''sitting_observed_at''" if "k \<in> set (c_keys c)" for k
    using collision_facts [OF c] that by auto
  show "same_cols (c_keys c) (F x) (F y) = same_cols (c_keys c) x y" for x y
    by (rule same_cols_cong) (simp_all add: F k)
  show "case keep_rule (c_keep c) of None \<Rightarrow> True | Some w \<Rightarrow> \<forall>x y. w (F x) (F y) = w x y"
    using collision_facts [OF c] by (cases "c_keep c") (simp_all add: F)
qed

lemma partner_collision:
  "find (\<lambda>c. c_table c = t) (filter (\<lambda>c. \<not> curated (c_table c)) COLLISION_TABLES) = Some c \<Longrightarrow>
     c \<in> set COLLISION_TABLES \<and> c_table c = t"
  by (drule fetch_optional_Some [unfolded fetch_optional_def]) simp

lemma ready_collision:
  assumes t: "t \<in> set moved_tables" and ok: "table_ok (schema_of t) rows"
    and c: "find (\<lambda>c. c_table c = t) (filter (\<lambda>c. \<not> curated (c_table c)) COLLISION_TABLES) = Some c"
  shows "\<exists>K. ready t src tgt rows K (clear_of t src tgt rows)"
proof -
  let ?F = "clear_of t src tgt rows"
  note cm = partner_collision [OF c, THEN conjunct1]
  have ct: "c_table c = t" using partner_collision [OF c] by simp
  from dedupe_filter [of "on_book src" "on_book tgt" "same_cols (c_keys c)" "keep_rule (c_keep c)" rows]
  obtain K where K: "dedupe_collisions c src tgt rows = filter K rows"
    "\<forall>r. \<not> on_book src r \<and> \<not> on_book tgt r \<longrightarrow> K r"
    unfolding dedupe_collisions_def by blast
  have "(if t = ''reading_progress_marks'' then clear_sitting_clock src tgt rows else rows) = map ?F rows"
    by (cases "t = ''reading_progress_marks''")
      (simp_all add: clear_of_other, simp add: clear_sitting_clock_def update_where_def clear_of_def both_marked_def)
  then have "settle t src tgt rows = dedupe_collisions c src tgt (map ?F rows)"
    using collision_facts [OF cm] ct by (simp add: settle_def settle_keys_def c Let_def)
  also have "\<dots> = map ?F (filter K rows)"
    using dedupe_collisions_map [OF cm, of ?F] cell_clear_of K(1) by simp
  finally have eq: "settle t src tgt rows = map ?F (filter K rows)" .
  have pk: "partner_key t = Some (c_keys c)" by (simp add: partner_key_def c)
  have "settled (schema_of t) src tgt (filter K rows) ?F"
  proof (rule settledI [OF ok t])
    show "\<forall>r \<in> set (filter K rows). keeps ?F r" by simp
    fix ks x y assume "partner_key t = Some ks" "x \<in> set (filter K rows)" "y \<in> set (filter K rows)"
      "on_book src x" "on_book tgt y"
    then show "\<not> same_cols ks y x"
      using dedupe_apart [of x "on_book src" "on_book tgt" "same_cols (c_keys c)" "keep_rule (c_keep c)" rows y]
        pk same_cols_sym unfolding K(1) [symmetric] dedupe_collisions_def by simp
  qed
  moreover have "records_deletions t" using moved_schemas [OF t] pk by simp
  ultimately show ?thesis using eq K(2) unfolding ready_def by blast
qed

lemma ready_plain:
  assumes t: "t \<in> set moved_tables" and ok: "table_ok (schema_of t) rows" and none: "partner_key t = None"
  shows "ready t src tgt rows (\<lambda>_. True) (clear_of t src tgt rows)"
proof -
  have find: "find (\<lambda>c. c_table c = t) (filter (\<lambda>c. \<not> curated (c_table c)) COLLISION_TABLES) = None"
    and led: "map_of LEDGER_COUNTER_TABLES t = None" and kobo: "t \<noteq> ''kobo_annotations_sync''"
    using none by (auto simp: partner_key_def split: option.splits if_splits)
  have "t \<noteq> ''reading_progress_marks''"
  proof
    assume "t = ''reading_progress_marks''"
    moreover have "partner_key ''reading_progress_marks'' \<noteq> None" by code_simp
    ultimately show False using none by simp
  qed
  then have "settle t src tgt rows = rows" "clear_of t src tgt rows = (\<lambda>r. r)"
    using find led kobo by (simp_all add: settle_def settle_keys_def clear_of_other)
  moreover have "settled (schema_of t) src tgt (filter (\<lambda>_. True) rows) (\<lambda>r. r)"
    by (rule settledI [OF ok t]) (simp_all add: none)
  ultimately show ?thesis by (simp add: ready_def)
qed

lemma ready_kobo:
  assumes ok: "table_ok (schema_of ''kobo_annotations_sync'') rows" and ne: "src \<noteq> tgt"
  shows "\<exists>K. ready ''kobo_annotations_sync'' src tgt rows K (clear_of ''kobo_annotations_sync'' src tgt rows)"
proof -
  let ?t = "''kobo_annotations_sync''"
  let ?K = "\<lambda>r. \<not> (on_book src r \<and> list_ex (\<lambda>o1. on_book tgt o1 \<and> same_cols [''device_id''] o1 r) rows)"
  have t: "?t \<in> set moved_tables" by code_simp
  have pk: "partner_key ?t = Some [''device_id'']" by code_simp
  have "find (\<lambda>c. c_table c = ?t) (filter (\<lambda>c. \<not> curated (c_table c)) COLLISION_TABLES) = None"
    "map_of LEDGER_COUNTER_TABLES ?t = None"
    by code_simp+
  then have "settle ?t src tgt rows = filter ?K rows"
    by (simp add: settle_def settle_keys_def dedupe_annotations_sync_def delete_where_def)
  moreover have "settled (schema_of ?t) src tgt (filter ?K rows) (\<lambda>r. r)"
  proof (rule settledI [OF ok t])
    fix ks x y assume "partner_key ?t = Some ks" "x \<in> set (filter ?K rows)" "y \<in> set (filter ?K rows)"
      "on_book src x" "on_book tgt y"
    then show "\<not> same_cols ks y x" using pk by (auto simp: list_ex_iff simp del: split_paired_Ex)
  qed simp
  moreover have "records_deletions ?t" by code_simp
  moreover have "clear_of ?t src tgt rows = (\<lambda>r. r)" by (simp add: clear_of_other)
  ultimately show ?thesis by (intro exI [of _ ?K]) (simp add: ready_def)
qed

text \<open>The ledger: a source bucket with a partner is added to it and goes; a bucket without one stays.\<close>

definition gained :: "rw \<Rightarrow> int" where
  "gained r = int_of_val (cell ''percent_gained'' r)"

definition partner_of :: "string \<Rightarrow> ustr \<Rightarrow> rw list \<Rightarrow> rw \<Rightarrow> bool" where
  "partner_of b tgt rows r \<longleftrightarrow> list_ex (\<lambda>o1. on_book tgt o1 \<and> same_bucket b o1 r) rows"

definition with_gains :: "string \<Rightarrow> ustr \<Rightarrow> rw list \<Rightarrow> rw \<Rightarrow> rw" where
  "with_gains b tgt ys r =
     (if on_book tgt r
      then set_cell ''percent_gained'' (Integer (gained r + sum_list (map gained (filter (\<lambda>s. same_bucket b s r) ys)))) r
      else r)"

lemma keeps_with_gains [simp]: "keeps (with_gains b tgt ys) r"
  by (simp add: keeps_def with_gains_def cells_simps written_def)

lemma same_bucket_cells:
  assumes "b \<notin> written" and "\<And>c. c \<notin> written \<Longrightarrow> cell c x = cell c x'" "\<And>c. c \<notin> written \<Longrightarrow> cell c y = cell c y'"
  shows "same_bucket b x y = same_bucket b x' y'"
  unfolding same_bucket_def
proof (rule same_cols_cong)
  fix c assume "c \<in> set [''user_id'', b, ''format'']"
  then have "c \<notin> written" using assms(1) by (auto simp: written_def)
  then show "cell c x = cell c x'" "cell c y = cell c y'" using assms by blast+
qed

lemma ledger_rows:
  "cell ''percent_gained'' r = Integer p \<Longrightarrow> distinct (map fst (snd r)) \<Longrightarrow>
     set_cell ''percent_gained'' (Integer (gained r)) r = r"
  by (simp add: gained_def set_cell_id)

lemma fold_ledger_eq:
  assumes b: "b \<notin> written" and ne: "src \<noteq> tgt"
    and rows: "\<forall>r \<in> set rows. distinct (map fst (snd r)) \<and> (\<exists>p. cell ''percent_gained'' r = Integer p)"
  defines "K \<equiv> \<lambda>r. \<not> (on_book src r \<and> partner_of b tgt rows r)"
  shows "fold_ledger_counters b src tgt rows = map (with_gains b tgt (filter (\<lambda>r. \<not> K r) rows)) (filter K rows)"
proof -
  let ?F = "with_gains b tgt (filter (\<lambda>r. \<not> K r) rows)"
  have F: "(if on_book tgt r \<and> filter (\<lambda>s. on_book src s \<and> same_bucket b s r) rows \<noteq> []
      then set_cell ''percent_gained'' (Integer (int_of_val (cell ''percent_gained'' r) +
        sum_list (map (\<lambda>s. int_of_val (cell ''percent_gained'' s))
          (filter (\<lambda>s. on_book src s \<and> same_bucket b s r) rows)))) r
      else r) = ?F r" if r: "r \<in> set rows" for r
  proof (cases "on_book tgt r")
    case True
    have "filter (\<lambda>s. on_book src s \<and> same_bucket b s r) rows = filter (\<lambda>s. same_bucket b s r) (filter (\<lambda>r. \<not> K r) rows)"
      unfolding filter_filter
    proof (intro filter_cong refl)
      fix s
      have "same_bucket b s r \<Longrightarrow> same_bucket b r s" by (simp add: same_bucket_def same_cols_sym)
      then show "(on_book src s \<and> same_bucket b s r) = (\<not> K s \<and> same_bucket b s r)"
        using True r unfolding K_def partner_of_def list_ex_iff by blast
    qed
    moreover have "set_cell ''percent_gained'' (Integer (gained r)) r = r" using rows r ledger_rows by blast
    ultimately show ?thesis
      using True by (auto simp: with_gains_def gained_def [abs_def] simp del: filter_filter)
  next
    case False
    then show ?thesis by (simp add: with_gains_def)
  qed
  have part: "list_ex (\<lambda>o1. on_book tgt o1 \<and> same_bucket b o1 (?F r)) (map ?F rows) = partner_of b tgt rows r" for r
  proof -
    have "on_book tgt (?F o1) = on_book tgt o1" "same_bucket b (?F o1) (?F r) = same_bucket b o1 r" for o1
      using keeps_with_gains [of b tgt _ o1] keeps_with_gains [of b tgt _ r]
      by (auto simp: on_book_def keeps_def intro!: same_bucket_cells [OF b])
    then show ?thesis by (simp add: partner_of_def list_ex_iff)
  qed
  have src: "on_book src (?F r) = on_book src r" for r
    using keeps_with_gains [of b tgt _ r] by (simp add: on_book_def keeps_def)
  have "update_where (\<lambda>r. on_book tgt r \<and> filter (\<lambda>s. on_book src s \<and> same_bucket b s r) rows \<noteq> [])
      (\<lambda>r. set_cell ''percent_gained'' (Integer (int_of_val (cell ''percent_gained'' r) +
        sum_list (map (\<lambda>s. int_of_val (cell ''percent_gained'' s))
          (filter (\<lambda>s. on_book src s \<and> same_bucket b s r) rows)))) r) rows = map ?F rows"
    unfolding update_where_def by (rule map_cong [OF refl F])
  then show ?thesis
    unfolding fold_ledger_counters_def Let_def delete_where_def by (simp only: filter_map o_def part src) (simp add: K_def)
qed

definition ledger_ok :: "string \<Rightarrow> rw list \<Rightarrow> bool" where
  "ledger_ok t rows \<longleftrightarrow>
     (map_of LEDGER_COUNTER_TABLES t \<noteq> None \<longrightarrow>
        (\<forall>r \<in> set rows. case cell ''percent_gained'' r of Integer p \<Rightarrow> 0 \<le> p | _ \<Rightarrow> False))"

lemma ledger_okD:
  "ledger_ok t rows \<Longrightarrow> map_of LEDGER_COUNTER_TABLES t = Some b \<Longrightarrow> r \<in> set rows \<Longrightarrow>
     \<exists>p \<ge> 0. cell ''percent_gained'' r = Integer p"
  unfolding ledger_ok_def by (drule mp, simp, drule (1) bspec) (cases "cell ''percent_gained'' r", simp_all)

lemma ledger_facts:
  "map_of LEDGER_COUNTER_TABLES t = Some b \<Longrightarrow>
     t \<in> set relocated_tables \<and> b \<notin> written \<and> t \<noteq> ''reading_progress_marks'' \<and> t \<noteq> ''kobo_annotations_sync'' \<and>
     t \<noteq> ''annotations'' \<and> t \<notin> set CURRENT_VALUE_TABLES \<and>
     find (\<lambda>c. c_table c = t) (filter (\<lambda>c. \<not> curated (c_table c)) COLLISION_TABLES) = None"
proof -
  have "list_all (\<lambda>(t, b). t \<in> set relocated_tables \<and> b \<notin> written \<and> t \<noteq> ''reading_progress_marks'' \<and>
     t \<noteq> ''kobo_annotations_sync'' \<and> t \<noteq> ''annotations'' \<and> t \<notin> set CURRENT_VALUE_TABLES \<and>
     find (\<lambda>c. c_table c = t) (filter (\<lambda>c. \<not> curated (c_table c)) COLLISION_TABLES) = None) LEDGER_COUNTER_TABLES"
    by code_simp
  moreover assume "map_of LEDGER_COUNTER_TABLES t = Some b"
  then have "(t, b) \<in> set LEDGER_COUNTER_TABLES" by (rule map_of_SomeD)
  ultimately show ?thesis by (force simp: list_all_iff)
qed

lemma ready_ledger:
  assumes b: "map_of LEDGER_COUNTER_TABLES t = Some b" and ok: "table_ok (schema_of t) rows" "ledger_ok t rows"
    and ne: "src \<noteq> tgt"
  defines "K \<equiv> \<lambda>r. \<not> (on_book src r \<and> partner_of b tgt rows r)"
  shows "ready t src tgt rows K (with_gains b tgt (filter (\<lambda>r. \<not> K r) rows))"
proof -
  note f = ledger_facts [OF b]
  then have t: "t \<in> set moved_tables" by (simp add: relocated_moved)
  have pk: "partner_key t = Some [''user_id'', b, ''format'']" using f b by (simp add: partner_key_def)
  have "settle t src tgt rows = fold_ledger_counters b src tgt rows"
    using f b by (simp add: settle_def settle_keys_def)
  also have "\<dots> = map (with_gains b tgt (filter (\<lambda>r. \<not> K r) rows)) (filter K rows)"
    unfolding K_def using f ok b by (intro fold_ledger_eq ne ballI conjI)
      (auto simp: table_ok_def row_ok_def dest: ledger_okD)
  finally have "settle t src tgt rows = map (with_gains b tgt (filter (\<lambda>r. \<not> K r) rows)) (filter K rows)" .
  moreover have "settled (schema_of t) src tgt (filter K rows) (with_gains b tgt (filter (\<lambda>r. \<not> K r) rows))"
  proof (rule settledI [OF ok(1) t])
    show "\<forall>r \<in> set (filter K rows). keeps (with_gains b tgt (filter (\<lambda>r. \<not> K r) rows)) r" by simp
    fix ks x y assume a: "partner_key t = Some ks" "x \<in> set (filter K rows)" "y \<in> set (filter K rows)"
      "on_book src x" "on_book tgt y"
    then have "\<not> partner_of b tgt rows x" "y \<in> set rows" by (simp_all add: K_def)
    with a pk show "\<not> same_cols ks y x" by (auto simp: partner_of_def list_ex_iff same_bucket_def)
  qed
  moreover have "records_deletions t" using moved_schemas [OF t] pk by simp
  ultimately show ?thesis by (simp add: ready_def K_def)
qed

text \<open>Taking the rows' gains off again, one by one.\<close>

lemma undo_fold_ledger:
  assumes b: "map_of LEDGER_COUNTER_TABLES t = Some b" and ne: "src \<noteq> tgt"
    and kept: "\<forall>r \<in> set kept. \<exists>p \<ge> 0. cell ''percent_gained'' r = Integer p"
    and xs: "\<forall>r \<in> set (x # ys). on_book src r \<and> 0 \<le> gained r"
    and app: "\<forall>a \<in> set app. \<not> on_book tgt a"
  shows "undo_fold t src tgt (recorded sch x) (map (with_gains b tgt (x # ys)) kept @ app) =
    map (with_gains b tgt ys) kept @ app"
proof -
  note bw = ledger_facts [OF b, THEN conjunct2, THEN conjunct1]
  let ?P = "\<lambda>r. on_book tgt r \<and> same_bucket b (0, snd x) r"
  let ?f = "\<lambda>r. set_cell ''percent_gained'' (Integer (max 0 (gained r - gained x))) r"
  have one: "(if ?P (with_gains b tgt (x # ys) r) then ?f (with_gains b tgt (x # ys) r)
      else with_gains b tgt (x # ys) r) = with_gains b tgt ys r" if r: "r \<in> set kept" for r
  proof -
    let ?g = "with_gains b tgt (x # ys) r"
    from kept r obtain p where p: "0 \<le> p" "cell ''percent_gained'' r = Integer p" by blast
    then have has: "''percent_gained'' \<in> fst ` set (snd r)" using cell_present by force
    have on: "on_book tgt ?g = on_book tgt r" "same_bucket b (0, snd x) ?g = same_bucket b x r"
      using keeps_with_gains [of b tgt "x # ys" r]
      by (auto simp: on_book_def keeps_def intro!: same_bucket_cells [OF bw])
    have sum: "0 \<le> sum_list (map gained (filter (\<lambda>s. same_bucket b s r) ys))"
      using xs by (intro sum_list_nonneg) auto
    show ?thesis
    proof (cases "on_book tgt r \<and> same_bucket b x r")
      case True
      then have "gained ?g = p + gained x + sum_list (map gained (filter (\<lambda>s. same_bucket b s r) ys))"
        using has p by (simp add: with_gains_def gained_def cells_simps)
      then have "max 0 (gained ?g - gained x) = gained r + sum_list (map gained (filter (\<lambda>s. same_bucket b s r) ys))"
        using sum p by (simp add: gained_def)
      then show ?thesis using True on by (simp add: with_gains_def set_cell_twice)
    next
      case False
      then show ?thesis unfolding on by (auto simp: with_gains_def)
    qed
  qed
  have rest: "map (\<lambda>r. if ?P r then ?f r else r) app = app" using app by (intro map_idI) auto
  have "on_book src (0, snd x)" using xs by (simp add: on_book_def)
  then have "undo_fold t src tgt (recorded sch x) rows = map (\<lambda>r. if ?P r then ?f r else r) rows" for rows
    by (simp add: undo_fold_def b unfold_ledger_row_def recorded_def update_where_def gained_def)
  then show ?thesis using one rest by simp
qed

subsection \<open>Undoing a merge\<close>

text \<open>What a row says, less the stamp the move itself puts on an annotation.\<close>

definition content :: "string \<Rightarrow> rw \<Rightarrow> cells" where
  "content t r = (if t = ''annotations'' then without [''updated_at''] (snd r) else snd r)"

lemma set_cell_commute: "j \<noteq> k \<Longrightarrow> set_cell j v (set_cell k w r) = set_cell k w (set_cell j v r)"
  by (auto simp: set_cell_def)

lemma mix_back:
  assumes t: "t \<noteq> ''annotations''" and r: "row_ok sch r" "keeps F r"
  shows "mix t src tgt now now' F {} r = F r"
proof -
  have "distinct (map fst (snd (F r)))" using r by (simp add: row_ok_def keeps_def)
  moreover have "on_book src r \<Longrightarrow> cell ''book_uuid'' (F r) = Text src" using r(2) by (simp add: keeps_def on_book_def)
  ultimately show ?thesis using t by (simp add: mix_def retarget_set_def set_cell_back)
qed

lemma mix_back_content:
  assumes r: "row_ok sch r"
  shows "content t (mix t src tgt now now' (\<lambda>r. r) {} r) = content t r"
proof (cases "t = ''annotations'' \<and> on_book src r")
  case True
  then have t: "t = ''annotations''" and src: "on_book src r" by auto
  let ?u = "set_cell ''updated_at''" and ?b = "set_cell ''book_uuid''"
  have "mix t src tgt now now' (\<lambda>r. r) {} r =
      ?u (Integer now') (?b (Text src) (?u (Integer now) (?b (Text tgt) r)))"
    using src by (simp add: mix_def t retarget_set_def Let_def)
  also have "\<dots> = ?u (Integer now') (?b (Text src) (?b (Text tgt) r))"
    using set_cell_commute [of "''book_uuid''" "''updated_at''"] by (simp add: set_cell_twice)
  also have "?b (Text src) (?b (Text tgt) r) = r"
    using r src by (intro set_cell_back) (simp_all add: row_ok_def on_book_def)
  finally show ?thesis by (simp add: content_def t without_set_cell)
next
  case False
  then show ?thesis
    using mix_back [OF _ r, of t "\<lambda>r. r"] by (auto simp: mix_def content_def)
qed

text \<open>Giving the surviving marks their clock again, one recorded row after another.\<close>

lemma restore_clock_kept:
  assumes apart: "apart sch (\<lambda>r. r) kept" "[''user_id'', ''book_uuid'', ''format''] \<in> set (s_unique sch)"
    and ok: "\<forall>r \<in> set kept. row_ok sch r" "{''user_id'', ''format''} \<subseteq> set (s_notnull sch)"
    and app: "\<And>a z. a \<in> set app \<Longrightarrow> z \<in> set kept \<Longrightarrow> \<not> same_cols [''book_uuid'', ''user_id'', ''format''] z a"
  defines "G \<equiv> \<lambda>C r. if r \<in> C then set_cell ''sitting_observed_at'' Null r else r"
  shows "set zs \<subseteq> set kept \<Longrightarrow> \<forall>z \<in> set zs. cell ''sitting_observed_at'' z \<noteq> Null \<Longrightarrow>
    fold (restore_clock exact_text) (map snd zs) (map (G C) kept @ app) = map (G (C - set zs)) kept @ app"
proof (induction zs arbitrary: C)
  case (Cons z zs)
  let ?key = "[''book_uuid'', ''user_id'', ''format'']"
  have z: "z \<in> set kept" "cell ''sitting_observed_at'' z \<noteq> Null" using Cons.prems by auto
  have key: "same_cols ?key (0, snd z) (G C r) \<longleftrightarrow> r = z" if r: "r \<in> set kept" for r
  proof
    have cells: "same_cols ?key (0, snd z) (G C r) = same_cols ?key z r"
      by (rule same_cols_cong) (auto simp: G_def cells_simps)
    have "same_cols [''user_id'', ''book_uuid'', ''format''] z r" if "same_cols ?key z r"
      using that by (simp add: same_cols_def)
    then have "clash sch z r" if "same_cols ?key z r"
      using that apart(2) unfolding clash_def list_ex_iff by metis
    moreover have "z \<noteq> r \<Longrightarrow> \<not> clash sch z r" using apart(1) r z(1) by (simp add: apart_def)
    ultimately show "r = z" if "same_cols ?key (0, snd z) (G C r)" using that unfolding cells by metis
    have "cell ''user_id'' z \<noteq> Null" "cell ''format'' z \<noteq> Null" "cell ''book_uuid'' z \<noteq> Null"
      using ok(1) [rule_format, OF z(1)] ok(2) row_ok_book [OF ok(1) [rule_format, OF z(1)]] by (auto simp: row_ok_def)
    then have "same_cols ?key z z" by (simp add: same_cols_def sql_eq_def)
    then show "r = z \<Longrightarrow> same_cols ?key (0, snd z) (G C r)" unfolding cells by simp
  qed
  have undone: "(if same_cols ?key (0, snd z) (G C r) \<and> cell ''sitting_observed_at'' (G C r) = Null
      then set_cell ''sitting_observed_at'' (cell ''sitting_observed_at'' (0, snd z)) (G C r) else G C r) = G (C - {z}) r"
    if r: "r \<in> set kept" for r
  proof (cases "r = z \<and> z \<in> C")
    case True
    moreover have "''sitting_observed_at'' \<in> fst ` set (snd z)" using z(2) by (rule cell_present)
    moreover have "distinct (map fst (snd z))" using ok(1) z(1) by (simp add: row_ok_def)
    ultimately show ?thesis
      unfolding key [OF r] by (simp add: G_def cells_simps set_cell_same)
  next
    case False
    then show ?thesis unfolding key [OF r] using z(2) by (auto simp: G_def)
  qed
  have rest: "map (\<lambda>r. if same_cols ?key (0, snd z) r \<and> cell ''sitting_observed_at'' r = Null
      then set_cell ''sitting_observed_at'' (cell ''sitting_observed_at'' (0, snd z)) r else r) app = app"
  proof (rule map_idI)
    fix a assume "a \<in> set app"
    moreover have "same_cols ?key (0, snd z) a = same_cols ?key z a" by (rule same_cols_cong) simp_all
    ultimately show "(if same_cols ?key (0, snd z) a \<and> cell ''sitting_observed_at'' a = Null
      then set_cell ''sitting_observed_at'' (cell ''sitting_observed_at'' (0, snd z)) a else a) = a"
      using app z(1) by simp
  qed
  have "restore_clock exact_text (snd z) (map (G C) kept @ app) = map (G (C - {z})) kept @ app"
    using undone rest by (simp add: restore_clock_def update_where_def Let_def)
  moreover have "C - {z} - set zs = C - set (z # zs)" by auto
  ultimately show ?case using Cons.IH [of "C - {z}"] Cons.prems by simp
qed simp

lemma restore_clock_stored:
  assumes "plain_row sch z" "[''user_id'', ''book_uuid'', ''format''] \<in> set (s_unique sch)"
  shows "restore_clock js (stored_clock js z) = restore_clock exact_text (snd z)"
proof -
  have cols: "{''book_uuid'', ''user_id'', ''format'', ''sitting_observed_at''} \<subseteq> set (plain_cols sch)"
    using assms(2) by (fastforce simp: plain_cols_def)
  have was: "cells_through (js_bind js) (stored_clock js z) = snd (row_through (rounded js) z)"
    by (simp add: stored_clock_def cells_through_twice rounded_def [abs_def])
  have cell: "cell c (0, snd (row_through (rounded js) z)) = cell c (0, snd z)" if "c \<in> set (plain_cols sch)" for c
    using plain_cell [OF assms(1) that] by (simp only: cell_snd)
  have same: "same_cols [''book_uuid'', ''user_id'', ''format''] (0, snd (row_through (rounded js) z)) r =
      same_cols [''book_uuid'', ''user_id'', ''format''] (0, snd z) r" for r
    using cols by (intro same_cols_cong refl cell) auto
  have clock: "cell ''sitting_observed_at'' (0, snd (row_through (rounded js) z)) = cell ''sitting_observed_at'' (0, snd z)"
    using cols by (intro cell) simp
  show ?thesis
    unfolding restore_clock_def Let_def was exact_text_simps same clock by (rule refl)
qed

text \<open>
  One table through the merge and its undo: the rows \<open>K\<close> are kept, the others are gone, and come
  back with their reals rounded.
\<close>

lemma kept_gone_apart:
  fixes f
  assumes ok: "table_ok sch rows" and plain: "\<forall>r \<in> set rows. plain_row sch r"
  defines "back \<equiv> \<lambda>K. map (row_through f) (filter (\<lambda>r. \<not> K r) rows)"
  shows "apart sch (\<lambda>r. r) (filter K rows @ back K)" and "set (filter K rows) \<inter> set (back K) = {}" and "distinct (back K)"
proof -
  have same: "x = y" if "x \<in> set rows" "y \<in> set rows" "x = row_through f y" for x y
    using that rowid_inj [OF ok that(1,2)] by simp
  show disj: "set (filter K rows) \<inter> set (back K) = {}"
    unfolding back_def using same by fastforce
  have "distinct (map fst (back K))"
    using ok by (simp add: back_def o_def table_ok_def distinct_map_filter)
  then show "distinct (back K)" by (simp add: distinct_map)
  show "apart sch (\<lambda>r. r) (filter K rows @ back K)"
    unfolding apart_def
  proof (intro ballI impI)
    fix x y assume xy: "x \<in> set (filter K rows @ back K)" "y \<in> set (filter K rows @ back K)" "x \<noteq> y"
    have was: "\<exists>z \<in> set rows. (z = v \<or> row_through f z = v) \<and> (K z \<longleftrightarrow> v \<in> set (filter K rows)) \<and>
        (\<forall>w. clash sch w v = clash sch w z) \<and> (\<forall>w. clash sch v w = clash sch z w)"
      if v: "v \<in> set (filter K rows @ back K)" for v
    proof (cases "v \<in> set (filter K rows)")
      case False
      with v obtain z where z: "z \<in> set rows" "\<not> K z" "v = row_through f z" by (auto simp: back_def)
      with False clash_through [of sch z] plain show ?thesis by blast
    qed auto
    from was [OF xy(1)] was [OF xy(2)] obtain x' y' where w: "x' \<in> set rows" "y' \<in> set rows"
      "x' = x \<or> row_through f x' = x" "y' = y \<or> row_through f y' = y"
      "K x' \<longleftrightarrow> x \<in> set (filter K rows)" "K y' \<longleftrightarrow> y \<in> set (filter K rows)"
      and clash: "clash sch x y = clash sch x' y'" by metis
    have "x' \<noteq> y'"
    proof
      assume "x' = y'"
      with w xy(3) have "fst x = fst y" "x \<in> set (filter K rows) \<longleftrightarrow> y \<in> set (filter K rows)" by auto
      with xy \<open>distinct (map fst (back K))\<close> rowid_inj [OF ok, of x y] show False
        by (auto simp: distinct_map dest: inj_onD)
    qed
    with table_ok_apart [OF ok] w(1,2) show "\<not> clash sch x y" unfolding clash by (simp add: apart_def)
  qed
qed

lemma kept_gone_mset:
  "mset (map h (filter K rows)) + mset (map h (map V (filter (\<lambda>r. \<not> K r) rows))) =
     mset (map h (map (\<lambda>r. if K r then r else V r) rows))"
  by (induction rows) auto

lemma reinserted:
  fixes K t rows js
  defines "kept \<equiv> filter K rows" and "gone \<equiv> filter (\<lambda>r. \<not> K r) rows" and "V \<equiv> row_through (rounded js)"
  assumes t: "t \<in> set relocated_tables" and ok: "table_ok (schema_of t) rows"
    and refs: "\<forall>r \<in> set rows. refs_ok refs (schema_of t) r" and plain: "\<forall>r \<in> set rows. plain_row (schema_of t) r"
    and H: "\<And>ys r c. r \<in> set kept \<Longrightarrow> c \<notin> written \<Longrightarrow> cell c (H ys r) = cell c r"
    and step: "\<And>x ys app. set (x # ys) \<subseteq> set (map V gone) \<Longrightarrow> \<forall>a \<in> set app. \<exists>d \<in> set (map V gone). snd a = snd d \<Longrightarrow>
      undo_fold t src tgt (recorded (schema_of t) x) (map (H (x # ys)) kept @ app) = map (H ys) kept @ app"
    and tb: "t_rows tb = map (H (map V gone)) kept"
  obtains app where
    "t_rows (fold (restore_deleted_row js refs src tgt t) (map (stored js (schema_of t)) gone) tb) = map (H []) kept @ app"
    "map snd app = map snd (map V gone)"
proof -
  have "schema_ok (schema_of t)" using moved_schemas relocated_moved [OF t] by simp
  moreover have "\<forall>x \<in> set (map V gone). row_ok (schema_of t) x \<and> refs_ok refs (schema_of t) x"
    using ok refs plain by (auto simp: table_ok_def gone_def V_def intro!: refs_ok_through)
  moreover note apart = kept_gone_apart [OF ok plain, where K = K and f = "rounded js", folded V_def gone_def kept_def]
  moreover have "fold (restore_deleted_row js refs src tgt t) (map (stored js (schema_of t)) gone) =
      fold (restore_deleted_row exact_text refs src tgt t) (map (recorded (schema_of t)) (map V gone))"
    by (simp add: fold_map o_def restore_deleted_stored V_def)
  ultimately have "\<exists>app'. t_rows (fold (restore_deleted_row js refs src tgt t) (map (stored js (schema_of t)) gone) tb) =
      map (H []) kept @ app' \<and> map snd app' = map snd ([] @ map V gone)"
    using reinsert_all [of t "map V gone" refs kept H src tgt "[]" "map V gone" "[]" tb] H step tb
    by simp
  then show ?thesis using that by auto
qed

text \<open>A table outside the ledger: what is kept carries at most a cleared clock, and all that is gone is back.\<close>

lemma table_restored:
  fixes js
  defines "V \<equiv> row_through (rounded js)"
  assumes t: "t \<in> set relocated_tables" and led: "map_of LEDGER_COUNTER_TABLES t = None"
    and ok: "table_ok (schema_of t) rows" and refs: "\<forall>r \<in> set rows. refs_ok refs (schema_of t) r"
    and plain: "\<forall>r \<in> set rows. plain_row (schema_of t) r" and keep: "\<forall>r \<in> set (filter K rows). keeps F r"
    and tb: "t_rows tb = map (mix t src tgt now now' F {}) (filter K rows)"
  obtains app where "t_rows (fold (restore_deleted_row js refs src tgt t)
      (map (stored js (schema_of t)) (filter (\<lambda>r. \<not> K r) rows)) tb) = map (mix t src tgt now now' F {}) (filter K rows) @ app"
    "map snd app = map snd (map V (filter (\<lambda>r. \<not> K r) rows))"
  unfolding V_def
proof (rule reinserted [OF t ok refs plain _ _ tb])
  show "cell c (mix t src tgt now now' F {} r) = cell c r" if "r \<in> set (filter K rows)" "c \<notin> written" for r c
  proof -
    have "keeps F r" using keep that(1) by blast
    moreover have "row_ok (schema_of t) r" using ok that(1) by (auto simp: table_ok_def)
    ultimately have "keeps F r" "row_ok (schema_of t) r" .
    from mix_cell [OF this that(2)] show ?thesis by (auto simp: on_book_def)
  qed
  show "undo_fold t src tgt (recorded (schema_of t) x) rs = rs" for x rs
    by (simp add: undo_fold_def led)
qed (use that in \<open>blast intro: that [unfolded V_def]\<close>)

text \<open>A ledger: every bucket has what it had, and the folded buckets are back.\<close>

lemma ledger_cols:
  "map_of LEDGER_COUNTER_TABLES t = Some b \<Longrightarrow> {''user_id'', b, ''format''} \<subseteq> set (plain_cols (schema_of t))"
proof -
  have "list_all (\<lambda>(t, b). {''user_id'', b, ''format''} \<subseteq> set (plain_cols (schema_of t))) LEDGER_COUNTER_TABLES"
    by code_simp
  moreover assume "map_of LEDGER_COUNTER_TABLES t = Some b"
  then have "(t, b) \<in> set LEDGER_COUNTER_TABLES" by (rule map_of_SomeD)
  ultimately show ?thesis by (force simp: list_all_iff)
qed

lemma gained_through [simp]: "gained (row_through f r) = gained r"
  by (simp add: gained_def cell_through)

lemma with_gains_through:
  assumes b: "map_of LEDGER_COUNTER_TABLES t = Some b" and plain: "\<forall>r \<in> set ys. plain_row (schema_of t) r"
  shows "with_gains b tgt (map (row_through f) ys) = with_gains b tgt ys"
proof -
  have "same_bucket b (row_through f s) r = same_bucket b s r" if "s \<in> set ys" for s r
    unfolding same_bucket_def using ledger_cols [OF b] plain that
    by (intro same_cols_cong refl plain_cell [of "schema_of t"]) auto
  then have "filter (\<lambda>s. same_bucket b s r) (map (row_through f) ys) =
      map (row_through f) (filter (\<lambda>s. same_bucket b s r) ys)" for r
    unfolding filter_map o_def by (intro arg_cong [where f = "map _"] filter_cong refl)
  then show ?thesis by (intro ext) (simp add: with_gains_def o_def)
qed

lemma ledger_restored:
  fixes rows js
  assumes b: "map_of LEDGER_COUNTER_TABLES t = Some b" and ne: "src \<noteq> tgt"
    and ok: "table_ok (schema_of t) rows" "ledger_ok t rows" and refs: "\<forall>r \<in> set rows. refs_ok refs (schema_of t) r"
    and plain: "\<forall>r \<in> set rows. plain_row (schema_of t) r"
  defines "K \<equiv> \<lambda>r. \<not> (on_book src r \<and> partner_of b tgt rows r)" and "V \<equiv> row_through (rounded js)"
  assumes tb: "t_rows tb = map (mix t src tgt now now' (with_gains b tgt (filter (\<lambda>r. \<not> K r) rows)) {}) (filter K rows)"
  shows "mset (map snd (t_rows (fold (restore_deleted_row js refs src tgt t)
      (map (stored js (schema_of t)) (filter (\<lambda>r. \<not> K r) rows)) tb))) =
    mset (map snd (map (\<lambda>r. if K r then r else V r) rows))"
proof -
  let ?gone = "filter (\<lambda>r. \<not> K r) rows" and ?kept = "filter K rows"
  from ledger_facts [OF b] have t: "t \<in> set relocated_tables" "t \<noteq> ''annotations''" by auto
  have gains: "\<forall>r \<in> set rows. \<exists>p \<ge> 0. cell ''percent_gained'' r = Integer p"
    using ledger_okD [OF ok(2) b] by blast
  have gone: "on_book src r \<and> \<not> on_book tgt r \<and> 0 \<le> gained r" if "r \<in> set (map V ?gone)" for r
  proof -
    obtain z where z: "z \<in> set rows" "on_book src z" "r = V z" using \<open>r \<in> _\<close> by (auto simp: K_def)
    moreover from gains z(1) obtain p where "0 \<le> p" "cell ''percent_gained'' z = Integer p" by blast
    ultimately show ?thesis using on_book_unique [OF z(2)] ne by (simp add: V_def gained_def cell_through)
  qed
  have "mix t src tgt now now' (with_gains b tgt ?gone) {} r = with_gains b tgt ?gone r" if "r \<in> set ?kept" for r
    using ok(1) that by (intro mix_back [OF t(2)]) (auto simp: table_ok_def)
  moreover have "with_gains b tgt (map V ?gone) = with_gains b tgt ?gone"
    unfolding V_def using plain by (intro with_gains_through [OF b]) simp
  ultimately have rows: "t_rows tb = map (with_gains b tgt (map V ?gone)) ?kept" using tb by simp
  obtain app where app: "t_rows (fold (restore_deleted_row js refs src tgt t)
      (map (stored js (schema_of t)) ?gone) tb) = map (with_gains b tgt []) ?kept @ app" "map snd app = map snd (map V ?gone)"
    unfolding V_def
  proof (rule reinserted [where H = "with_gains b tgt" and K = K and rows = rows and tb = tb and js = js,
        OF t(1) ok(1) refs plain _ _ rows [unfolded V_def]])
    show "cell c (with_gains b tgt ys r) = cell c r" if "c \<notin> written" for ys r c
      using keeps_with_gains [of b tgt ys r] that by (simp add: keeps_def)
    show "undo_fold t src tgt (recorded (schema_of t) x) (map (with_gains b tgt (x # ys)) ?kept @ ap) =
        map (with_gains b tgt ys) ?kept @ ap"
      if "set (x # ys) \<subseteq> set (map (row_through (rounded js)) ?gone)"
        "\<forall>a \<in> set ap. \<exists>d \<in> set (map (row_through (rounded js)) ?gone). snd a = snd d" for x ys ap
    proof (rule undo_fold_ledger [OF b ne])
      show "\<forall>r \<in> set ?kept. \<exists>p \<ge> 0. cell ''percent_gained'' r = Integer p" using gains by simp
      show "\<forall>r \<in> set (x # ys). on_book src r \<and> 0 \<le> gained r" using that(1) gone unfolding V_def by blast
      have "on_book tgt a = on_book tgt d" if "snd a = snd d" for a d :: rw
        using that by (simp add: on_book_def cell_def)
      then show "\<forall>a \<in> set ap. \<not> on_book tgt a" using that(2) gone unfolding V_def by metis
    qed
  qed (use that in blast)
  have "with_gains b tgt [] r = r" if r: "r \<in> set rows" for r
  proof -
    from gains r obtain p where "cell ''percent_gained'' r = Integer p" by blast
    moreover have "distinct (map fst (snd r))" using ok(1) r by (simp add: table_ok_def row_ok_def)
    ultimately show ?thesis using ledger_rows by (simp add: with_gains_def)
  qed
  then have "map (with_gains b tgt []) ?kept = ?kept" by (intro map_idI) auto
  with app show ?thesis using kept_gone_mset [of snd K rows V] by simp
qed

subsection \<open>The whole database\<close>

definition db_ok :: "(string \<Rightarrow> val \<Rightarrow> bool) \<Rightarrow> tables \<Rightarrow> bool" where
  "db_ok refs d \<longleftrightarrow>
     (\<forall>t \<in> set moved_tables. table_ok (schema_of t) (t_rows (d t)) \<and> ledger_ok t (t_rows (d t)) \<and>
        (\<forall>r \<in> set (t_rows (d t)). refs_ok refs (schema_of t) r))"

text \<open>How each table is settled: by its ledger's sums, or with at most a cleared clock.\<close>

definition settles_as :: "string \<Rightarrow> ustr \<Rightarrow> ustr \<Rightarrow> rw list \<Rightarrow> (rw \<Rightarrow> bool) \<Rightarrow> (rw \<Rightarrow> rw) \<Rightarrow> bool" where
  "settles_as t src tgt rows K F \<longleftrightarrow>
     ready t src tgt rows K F \<and>
     (case map_of LEDGER_COUNTER_TABLES t of
        None \<Rightarrow> F = clear_of t src tgt rows
      | Some b \<Rightarrow> K = (\<lambda>r. \<not> (on_book src r \<and> partner_of b tgt rows r)) \<and>
          F = with_gains b tgt (filter (\<lambda>r. \<not> K r) rows))"

lemma settles_as_ex:
  assumes t: "t \<in> set moved_tables" and ok: "table_ok (schema_of t) rows" "ledger_ok t rows" and ne: "src \<noteq> tgt"
  shows "\<exists>K F. settles_as t src tgt rows K F"
proof (cases "map_of LEDGER_COUNTER_TABLES t")
  case (Some b)
  from ready_ledger [OF Some ok ne] show ?thesis unfolding settles_as_def Some by auto
next
  case None
  have "\<exists>K. ready t src tgt rows K (clear_of t src tgt rows)"
  proof (cases "find (\<lambda>c. c_table c = t) (filter (\<lambda>c. \<not> curated (c_table c)) COLLISION_TABLES)")
    case (Some c)
    from ready_collision [OF t ok(1) Some] show ?thesis .
  next
    case find: None
    show ?thesis
    proof (cases "t = ''kobo_annotations_sync''")
      case True
      from ready_kobo [OF ok(1) [unfolded True] ne] show ?thesis unfolding True .
    next
      case False
      then have "partner_key t = None" using None find by (simp add: partner_key_def)
      from ready_plain [OF t ok(1) this] show ?thesis by blast
    qed
  qed
  then show ?thesis unfolding settles_as_def None by auto
qed

lemma settles_asD:
  assumes "settles_as t src tgt rows K F"
  shows "settle t src tgt rows = map F (filter K rows)" "settled (schema_of t) src tgt (filter K rows) F"
    and "\<forall>r \<in> set rows. \<not> on_book src r \<and> \<not> on_book tgt r \<longrightarrow> K r"
    and "\<not> records_deletions t \<longrightarrow> (\<forall>r \<in> set rows. K r)"
    and "\<forall>r \<in> set (filter K rows). keeps F r"
  using assms by (simp_all add: settles_as_def ready_def settled_def)

lemma distinct_moved: "distinct moved_tables" "distinct relocated_tables"
  by code_simp+

text \<open>The blanket retarget violates no key, in any table.\<close>

lemma move_succeeds:
  assumes ok: "db_ok refs d" and ne: "src \<noteq> tgt"
    and K: "\<And>t. t \<in> set moved_tables \<Longrightarrow> settles_as t src tgt (t_rows (d t)) (K t) (F t)"
  shows "move_progress_and_history src tgt now d =
    Inr (\<lambda>t. if t \<in> set moved_tables
      then (d t)\<lparr>t_rows := map (mix t src tgt now now' (F t) UNIV) (filter (K t) (t_rows (d t)))\<rparr>
      else on_rows (settle t src tgt) (d t))"
  unfolding move_eq
proof (rule fold_res_tables [OF distinct_moved(1)])
  fix t assume t: "t \<in> set moved_tables"
  note s = settles_asD [OF K [OF t]]
  have "t_rows (on_rows (settle t src tgt) (d t)) = map (F t) (filter (K t) (t_rows (d t)))"
    using s(1) by (simp add: on_rows_def)
  from retarget_settled [OF s(2) _ ne this] moved_schemas [OF t]
  show "exec_update (schema_of t) (on_book src) (retarget_set t tgt now) (on_rows (settle t src tgt) (d t)) =
      Inr ((d t)\<lparr>t_rows := map (mix t src tgt now now' (F t) UNIV) (filter (K t) (t_rows (d t)))\<rparr>)"
    by (simp add: on_rows_def)
qed

text \<open>Sending the moved rows of one table back.\<close>

lemma moved_back:
  assumes t: "t \<in> set relocated_tables" and ne: "src \<noteq> tgt" and ok: "table_ok (schema_of t) rows"
    and K: "settles_as t src tgt rows K F"
    and tb: "t_rows tb = map (mix t src tgt now now' F UNIV) (filter K rows)"
    and plain: "\<forall>r \<in> set rows. plain_row (schema_of t) r \<and> log_keeps js r"
    and before: "before = (if t \<in> set CURRENT_VALUE_TABLES \<and> records_deletions t
      then map (stored js (schema_of t)) (filter (on_book src) (filter K rows)) else [])"
  shows "fold_res (restore_moved_row js refs src tgt now' before t)
      (map (identity_of (schema_of t)) (filter (on_book src) (filter K rows))) tb =
    Inr (tb\<lparr>t_rows := map (mix t src tgt now now' F {}) (filter K rows)\<rparr>)"
proof -
  let ?kept = "filter K rows"
  note s = settles_asD [OF K]
  have sch: "schema_ok (schema_of t)" using moved_schemas relocated_moved [OF t] by blast
  have "unchanged js t src ?kept F before"
  proof (cases "t \<in> set CURRENT_VALUE_TABLES")
    case True
    then have "t \<noteq> ''annotations''" "map_of LEDGER_COUNTER_TABLES t = None"
      by (auto simp: CURRENT_VALUE_TABLES_def LEDGER_COUNTER_TABLES_def)
    moreover from this have "F = clear_of t src tgt rows" using K by (simp add: settles_as_def)
    then have "without MERGE_WRITTEN (snd (F z)) = without MERGE_WRITTEN (snd z)" for z
      by (simp add: clear_of_def without_set_cell MERGE_WRITTEN_def)
    ultimately show ?thesis unfolding unchanged_def before by auto
  next
    case False
    then show ?thesis by (simp add: unchanged_def before)
  qed
  moreover have "distinct (filter (on_book src) ?kept)" using table_ok_rows [OF ok] by simp
  ultimately have "fold_res (restore_moved_row js refs src tgt now' before t)
      (map (identity_of (schema_of t)) (filter (on_book src) ?kept)) tb =
      Inr (tb\<lparr>t_rows := map (mix t src tgt now now' F (UNIV - set (filter (on_book src) ?kept))) ?kept\<rparr>)"
    using tb plain by (intro restore_all_moved [OF s(2) sch ne]) auto
  also have "map (mix t src tgt now now' F (UNIV - set (filter (on_book src) ?kept))) ?kept =
      map (mix t src tgt now now' F {}) ?kept"
    by (rule map_cong [OF refl]) (simp add: mix_def)
  finally show ?thesis .
qed

end
