(* ===== verification/Merge_Undo.thy ===== *)
theory Merge_Undo
  imports Merge_Roundtrip
begin

text \<open>
  The promises of the relocation: a merge never violates a unique key, and undoing it gives
  every relocated table the rows it had: those the merge moved as they were, but for the stamp on
  an annotation, and those it deleted with their reals as JSON had them.
\<close>

subsection \<open>The table of marks\<close>

lemma marks_facts:
  "''reading_progress_marks'' \<in> set relocated_tables"
  "map_of LEDGER_COUNTER_TABLES ''reading_progress_marks'' = None"
  "[''user_id'', ''book_uuid'', ''format''] \<in> set (s_unique (schema_of ''reading_progress_marks''))"
  "{''user_id'', ''format''} \<subseteq> set (s_notnull (schema_of ''reading_progress_marks''))"
  "schema_ok (schema_of ''reading_progress_marks'')"
  by code_simp+

text \<open>The clocks the merge cleared are set again, and nothing else changes.\<close>

lemma marks_restored:
  fixes rows
  defines "t \<equiv> ''reading_progress_marks''"
  assumes ok: "table_ok (schema_of t) rows" and plain: "\<forall>r \<in> set rows. plain_row (schema_of t) r"
  assumes app: "map snd app = map snd (map (row_through f) (filter (\<lambda>r. \<not> K r) rows))"
  shows "fold (restore_clock js)
      (map (stored_clock js) (filter (\<lambda>r. (on_book src r \<or> on_book tgt r) \<and> cell ''sitting_observed_at'' r \<noteq> Null) (filter K rows)))
      (map (clear_of t src tgt rows) (filter K rows) @ app) = filter K rows @ app"
proof -
  let ?kept = "filter K rows" and ?gone = "map (row_through f) (filter (\<lambda>r. \<not> K r) rows)"
  let ?zs = "filter (\<lambda>r. (on_book src r \<or> on_book tgt r) \<and> cell ''sitting_observed_at'' r \<noteq> Null) ?kept"
  let ?G = "\<lambda>C r. if r \<in> C then set_cell ''sitting_observed_at'' Null r else r"
  let ?C = "{r \<in> set ?kept. both_marked src tgt rows r}"
  let ?key = "[''book_uuid'', ''user_id'', ''format'']"
  note m = marks_facts [folded t_def]
  have apart: "apart (schema_of t) (\<lambda>r. r) (?kept @ ?gone)" and disj: "set ?kept \<inter> set ?gone = {}"
    using kept_gone_apart(1,2) [OF ok plain, where K = K and f = f] by blast+
  have kept_ok: "row_ok (schema_of t) r" if "r \<in> set ?kept" for r
    using ok that by (simp add: table_ok_def)
  have no: "\<not> same_cols ?key z a" if a: "a \<in> set app" and z: "z \<in> set ?kept" for a z
  proof
    assume same: "same_cols ?key z a"
    have "snd ` set app = snd ` set ?gone" using arg_cong [OF app, of set] by (simp only: set_map)
    moreover have "snd a \<in> snd ` set app" using a by (rule imageI)
    ultimately have "snd a \<in> snd ` set ?gone" by (simp only:)
    then obtain g where g: "g \<in> set ?gone" "snd a = snd g" by (rule imageE) (rule that)
    have "same_cols [''user_id'', ''book_uuid'', ''format''] z g"
      using same g(2) by (simp add: same_cols_def cell_def)
    then have "clash (schema_of t) z g" using m(3) unfolding clash_def list_ex_iff by blast
    moreover have "z \<noteq> g" using z g(1) disj by blast
    ultimately show False using apart z g(1) by (simp add: apart_def)
  qed
  have "map (clear_of t src tgt rows) ?kept = map (?G ?C) ?kept"
    by (rule map_cong [OF refl]) (simp add: clear_of_def t_def)
  moreover have "fold (restore_clock js) (map (stored_clock js) ?zs) = fold (restore_clock exact_text) (map snd ?zs)"
  proof -
    have each: "restore_clock js (stored_clock js z) = restore_clock exact_text (snd z)" if "z \<in> set ?zs" for z
      using restore_clock_stored [of "schema_of t" z js] plain m(3) that by simp
    show ?thesis unfolding fold_map o_def by (rule ext) (rule fold_cong [OF refl refl each])
  qed
  moreover have restored: "fold (restore_clock exact_text) (map snd ?zs) (map (?G ?C) ?kept @ app) = map (?G (?C - set ?zs)) ?kept @ app"
  proof (rule restore_clock_kept [OF _ m(3) _ m(4) no])
    show "apart (schema_of t) (\<lambda>r. r) ?kept" by (rule apart_mono [OF apart]) simp
    show "\<forall>r \<in> set ?kept. row_ok (schema_of t) r" using kept_ok by blast
    show "set ?zs \<subseteq> set ?kept" by (rule filter_is_subset)
    show "\<forall>z \<in> set ?zs. cell ''sitting_observed_at'' z \<noteq> Null" by simp
  qed
  moreover have "map (?G (?C - set ?zs)) ?kept = ?kept"
  proof (rule map_idI)
    fix r assume r: "r \<in> set ?kept"
    show "?G (?C - set ?zs) r = r"
    proof (cases "r \<in> ?C - set ?zs")
      case True
      then have "both_marked src tgt rows r" "r \<notin> set ?zs" by blast+
      then have "cell ''sitting_observed_at'' r = Null" using r unfolding both_marked_def by (simp only: set_filter mem_Collect_eq) blast
      with kept_ok [OF r] show ?thesis by (simp add: row_ok_def set_cell_id)
    next
      case False
      then show ?thesis by (simp only: if_False)
    qed
  qed
  ultimately show ?thesis by (simp only:)
qed

subsection \<open>The round trip\<close>

lemma mset_content: "map snd xs = map snd ys \<Longrightarrow> mset (map (content t) xs) = mset (map (content t) ys)"
proof -
  assume eq: "map snd xs = map snd ys"
  have snds: "map (content t) zs = map (\<lambda>cs. content t (0, cs)) (map snd zs)" for zs
    by (simp add: content_def)
  show ?thesis unfolding snds [of xs] snds [of ys] eq by (rule refl)
qed

text \<open>One table, from the moment its moved rows are back.\<close>

lemma table_content:
  assumes t: "t \<in> set relocated_tables" and ne: "src \<noteq> tgt"
    and ok: "table_ok (schema_of t) rows" "ledger_ok t rows" and refs: "\<forall>r \<in> set rows. refs_ok refs (schema_of t) r"
    and plain: "\<forall>r \<in> set rows. plain_row (schema_of t) r" and K: "settles_as t src tgt rows K F"
    and tb: "t_rows tb = map (mix t src tgt now now' F {}) (filter K rows)"
    and clocks: "clocks = map (stored_clock js) (filter (\<lambda>r. (on_book src r \<or> on_book tgt r) \<and>
      cell ''sitting_observed_at'' r \<noteq> Null) (filter K rows))"
  defines "tb' \<equiv> fold (restore_deleted_row js refs src tgt t) (map (stored js (schema_of t)) (filter (\<lambda>r. \<not> K r) rows)) tb"
    and "back \<equiv> map (\<lambda>r. if K r then r else row_through (rounded js) r) rows"
  shows "mset (map (content t) (if t = ''reading_progress_marks'' then fold (restore_clock js) clocks (t_rows tb') else t_rows tb'))
    = mset (map (content t) back)"
proof (cases "map_of LEDGER_COUNTER_TABLES t")
  case (Some b)
  then have other: "t \<noteq> ''reading_progress_marks''" "t \<noteq> ''annotations''" using ledger_facts by blast+
  from K Some have KF: "K = (\<lambda>r. \<not> (on_book src r \<and> partner_of b tgt rows r))"
    "F = with_gains b tgt (filter (\<lambda>r. \<not> K r) rows)"
    by (auto simp: settles_as_def)
  have "mset (map snd (t_rows tb')) = mset (map snd back)"
    using ledger_restored [OF Some ne ok refs plain] tb unfolding tb'_def back_def KF by blast
  then show ?thesis using other by (simp add: content_def [abs_def])
next
  case None
  then have F: "F = clear_of t src tgt rows" using K by (simp add: settles_as_def)
  have keep: "\<forall>r \<in> set (filter K rows). keeps F r" using settles_asD [OF K] by blast
  from table_restored [OF t None ok(1) refs plain keep tb] obtain app where
    app: "t_rows tb' = map (mix t src tgt now now' F {}) (filter K rows) @ app"
    "map snd app = map snd (map (row_through (rounded js)) (filter (\<lambda>r. \<not> K r) rows))"
    unfolding tb'_def by blast
  have whole: "mset (map (content t) (filter K rows @ app)) = mset (map (content t) back)"
    using mset_content [OF app(2), of t] kept_gone_mset [of "content t" K rows "row_through (rounded js)"]
    unfolding back_def by (simp only: map_append mset_append)
  show ?thesis
  proof (cases "t = ''reading_progress_marks''")
    case True
    then have t': "t \<noteq> ''annotations''" by simp
    have "mix t src tgt now now' F {} r = F r" if "r \<in> set (filter K rows)" for r
    proof (rule mix_back [OF t'])
      show "row_ok (schema_of t) r" using ok(1) that by (simp add: table_ok_def)
      show "keeps F r" using keep that by blast
    qed
    then have mixed: "map (mix t src tgt now now' F {}) (filter K rows) = map F (filter K rows)"
      by (rule map_cong [OF refl])
    have "fold (restore_clock js) clocks (t_rows tb') = filter K rows @ app"
      using marks_restored [OF ok(1) [unfolded True] plain [unfolded True] app(2), of js src tgt]
      unfolding app(1) clocks F True mixed [unfolded F True] .
    with True whole show ?thesis by simp
  next
    case False
    then have F: "F = (\<lambda>r. r)" using F by (simp add: clear_of_other)
    have "content t (mix t src tgt now now' F {} r) = content t r" if "r \<in> set (filter K rows)" for r
      unfolding F by (rule mix_back_content [of "schema_of t"]) (use ok(1) that in \<open>simp add: table_ok_def\<close>)
    then have same: "map (content t) (map (mix t src tgt now now' F {}) (filter K rows)) = map (content t) (filter K rows)"
      unfolding map_map o_def by (rule map_cong [OF refl])
    show ?thesis using whole by (simp only: False if_False app(1) map_append same)
  qed
qed

text \<open>
  The merge and its undo, table by table. A row that is still there after the merge, on whichever
  book, comes back as it was; one that the merge deleted comes back from the record.
\<close>

definition after_undo :: "json_text \<Rightarrow> rw list \<Rightarrow> rw \<Rightarrow> rw" where
  "after_undo js merged r = (if fst r \<in> fst ` set merged then r else row_through (rounded js) r)"

lemma undo_restores:
  assumes ok: "db_ok refs d" and ne: "src \<noteq> tgt"
    and plain: "\<forall>t \<in> set relocated_tables. \<forall>r \<in> set (t_rows (d t)). plain_row (schema_of t) r \<and> log_keeps js r"
  shows "\<exists>d' d''. move_progress_and_history src tgt now d = Inr d' \<and>
    restore_relocation js refs src tgt now' (logged js (capture_post tgt d' (capture_pre js src tgt d))) [] d' = Inr d'' \<and>
    (\<forall>t \<in> set relocated_tables. mset (map (content t) (t_rows (d'' t))) =
       mset (map (content t) (map (after_undo js (t_rows (d' t))) (t_rows (d t)))))"
proof -
  have rows: "table_ok (schema_of t) (t_rows (d t))" "ledger_ok t (t_rows (d t))"
    "\<forall>r \<in> set (t_rows (d t)). refs_ok refs (schema_of t) r" if "t \<in> set moved_tables" for t
    using ok that by (simp_all add: db_ok_def)
  have "\<forall>t \<in> set moved_tables. \<exists>K F. settles_as t src tgt (t_rows (d t)) K F"
    using settles_as_ex rows(1,2) ne by blast
  then obtain K where "\<forall>t \<in> set moved_tables. \<exists>F. settles_as t src tgt (t_rows (d t)) (K t) F"
    using bchoice [where Q = "\<lambda>t K. \<exists>F. settles_as t src tgt (t_rows (d t)) K F"] by blast
  then obtain F where KF: "\<forall>t \<in> set moved_tables. settles_as t src tgt (t_rows (d t)) (K t) (F t)"
    using bchoice [where Q = "\<lambda>t F. settles_as t src tgt (t_rows (d t)) (K t) F"] by blast
  then have K: "settles_as t src tgt (t_rows (d t)) (K t) (F t)" if "t \<in> set moved_tables" for t
    using that by blast
  define d' where "d' = (\<lambda>t. if t \<in> set moved_tables
      then (d t)\<lparr>t_rows := map (mix t src tgt now now' (F t) UNIV) (filter (K t) (t_rows (d t)))\<rparr>
      else on_rows (settle t src tgt) (d t))"
  have moved: "move_progress_and_history src tgt now d = Inr d'"
    unfolding d'_def by (rule move_succeeds [OF ok ne K])
  define snap where "snap = logged js (capture_post tgt d' (capture_pre js src tgt d))"
  let ?kept = "\<lambda>t. filter (K t) (t_rows (d t))" and ?gone = "\<lambda>t. filter (\<lambda>r. \<not> K t r) (t_rows (d t))"
  let ?mix = "\<lambda>t. mix t src tgt now now' (F t)"
  have after: "t_rows (d' t) = map (?mix t UNIV) (?kept t)" if "t \<in> set relocated_tables" for t
    using relocated_moved [OF that] by (simp add: d'_def)
  have T: "\<forall>r \<in> set (t_rows (d t)). fst r \<in> set (on_target tgt d' t) \<longleftrightarrow> K t r \<and> (on_book src r \<or> on_book tgt r)"
    if t: "t \<in> set relocated_tables" for t
  proof
    fix r assume r: "r \<in> set (t_rows (d t))"
    note m = relocated_moved [OF t]
    show "fst r \<in> set (on_target tgt d' t) \<longleftrightarrow> K t r \<and> (on_book src r \<or> on_book tgt r)"
      by (rule on_target_iff [of t "t_rows (d t)" r d' src tgt now now' "F t" "K t", OF rows(1) [OF m] r after [OF t] settles_asD(5) [OF K [OF m]]])
  qed
  have dels: "rl_deleted snap t = map (stored js (schema_of t)) (?gone t)" if t: "t \<in> set relocated_tables" for t
    using capture_deleted [where t = t and d = d and d' = d' and K = "K t" and src = src and tgt = tgt and js = js, OF t T [OF t] settles_asD(3) [OF K [OF relocated_moved [OF t]]]]
      settles_asD(4) [OF K [OF relocated_moved [OF t]]] by (simp add: snap_def filter_empty_conv)
  have plain_rows: "\<forall>r \<in> set (t_rows (d t)). plain_row (schema_of t) r" if "t \<in> set relocated_tables" for t
    using plain that by blast
  have sch: "schema_ok (schema_of t)" if "t \<in> set relocated_tables" for t
    using moved_schemas relocated_moved [OF that] by blast
  let ?d1 = "\<lambda>t. if t \<in> set relocated_tables then (d' t)\<lparr>t_rows := map (?mix t {}) (?kept t)\<rparr> else d' t"
  have d1: "fold_res (at_table (\<lambda>t. fold_res (restore_moved_row js refs src tgt now' (rl_moved_before snap t) t)
      (rl_moved snap t))) relocated_tables d' = Inr ?d1"
  proof (rule fold_res_tables [OF distinct_moved(2)])
    fix t assume t: "t \<in> set relocated_tables"
    note m = relocated_moved [OF t]
    have "rl_moved_before snap t = (if t \<in> set CURRENT_VALUE_TABLES \<and> records_deletions t
      then map (stored js (schema_of t)) (filter (on_book src) (?kept t)) else [])"
      unfolding snap_def by (rule capture_before [where t = t and d = d and d' = d' and K = "K t" and src = src and tgt = tgt, OF rows(1) [OF m] t T [OF t]])
    from moved_back [where K = "K t" and F = "F t" and now = now and now' = now', OF t ne rows(1) [OF m] K [OF m] after [OF t] bspec [OF plain t] this]
    show "fold_res (restore_moved_row js refs src tgt now' (rl_moved_before snap t) t) (rl_moved snap t) (d' t) =
        Inr ((d' t)\<lparr>t_rows := map (?mix t {}) (?kept t)\<rparr>)"
      unfolding snap_def capture_moved [where t = t and d = d and d' = d' and K = "K t" and src = src and tgt = tgt, OF rows(1) [OF m] t plain_rows [OF t] sch [OF t] T [OF t]] .
  qed
  let ?h = "\<lambda>t. fold (restore_deleted_row js refs src tgt t) (rl_deleted snap t)"
  let ?d2 = "\<lambda>t. if t \<in> set relocated_tables then ?h t (?d1 t) else ?d1 t"
  let ?d3 = "?d2(''reading_progress_marks'' :=
      on_rows (fold (restore_clock js) (rl_cleared_clocks snap)) (?d2 ''reading_progress_marks''))"
  have "find (\<lambda>t. list_ex (\<lambda>i. (t, i) \<in> set []) (rl_moved snap t)) relocated_tables = None"
    by (simp add: find_None_iff list_ex_iff)
  moreover have d2: "fold (\<lambda>t d. d(t := ?h t (d t))) relocated_tables ?d1 = ?d2"
    by (rule fold_tables [OF distinct_moved(2)])
  ultimately have restored: "restore_relocation js refs src tgt now' snap [] d' = Inr ?d3"
    unfolding restore_relocation_def d1 and_then_simps Let_def d2 by (simp only: option.case)
  have undone: "map (after_undo js (t_rows (d' t))) (t_rows (d t)) =
      map (\<lambda>r. if K t r then r else row_through (rounded js) r) (t_rows (d t))" if t: "t \<in> set relocated_tables" for t
  proof (rule map_cong [OF refl])
    fix r assume r: "r \<in> set (t_rows (d t))"
    note m = relocated_moved [OF t]
    have "fst (?mix t UNIV z) = fst z" if "z \<in> set (?kept t)" for z
      using settles_asD(5) [OF K [OF m], rule_format, OF that] by (simp add: mix_def retarget_keys keeps_def)
    then have "fst ` set (t_rows (d' t)) = fst ` set (?kept t)"
      unfolding after [OF t] set_map image_image by (rule image_cong [OF refl])
    moreover have "fst r \<in> fst ` set (?kept t) \<longleftrightarrow> K t r"
      using rowid_inj [OF rows(1) [OF m] r] r by force
    ultimately show "after_undo js (t_rows (d' t)) r = (if K t r then r else row_through (rounded js) r)"
      by (simp add: after_undo_def)
  qed
  have "mset (map (content t) (t_rows (?d3 t))) =
      mset (map (content t) (map (after_undo js (t_rows (d' t))) (t_rows (d t))))"
    if t: "t \<in> set relocated_tables" for t
  proof -
    note m = relocated_moved [OF t]
    have clocks: "rl_cleared_clocks snap = map (stored_clock js) (filter (\<lambda>r. (on_book src r \<or> on_book tgt r) \<and>
        cell ''sitting_observed_at'' r \<noteq> Null) (?kept t))" if "t = ''reading_progress_marks''"
      unfolding snap_def that by (rule capture_clocks [where d = d and d' = d' and K = "K ''reading_progress_marks''" and src = src and tgt = tgt, OF refl T [OF marks_facts(1)]])
    have rows1: "t_rows (?d1 t) = map (?mix t {}) (?kept t)" using t by simp
    have "t_rows (?d3 t) = (if t = ''reading_progress_marks''
        then fold (restore_clock js) (map (stored_clock js) (filter (\<lambda>r. (on_book src r \<or> on_book tgt r) \<and>
          cell ''sitting_observed_at'' r \<noteq> Null) (?kept t)))
          (t_rows (fold (restore_deleted_row js refs src tgt t) (map (stored js (schema_of t)) (?gone t)) (?d1 t)))
        else t_rows (fold (restore_deleted_row js refs src tgt t) (map (stored js (schema_of t)) (?gone t)) (?d1 t)))"
    proof (cases "t = ''reading_progress_marks''")
      case True
      show ?thesis using t clocks [OF True] dels [OF t] unfolding True by (simp add: on_rows_def)
    next
      case False
      then show ?thesis using t dels [OF t] by simp
    qed
    then show ?thesis
      using table_content [OF t ne rows [OF m] plain_rows [OF t] K [OF m] rows1 refl, of js] unfolding undone [OF t] by simp
  qed
  with moved restored show ?thesis unfolding snap_def by blast
qed

end
