(* ===== verification/Merge_Laws.thy ===== *)
theory Merge_Laws
  imports Merge_Undo
begin

text \<open>
  The promises of the relocation as properties: a merge violates no key and leaves no row behind,
  the reading ledgers keep their totals, and an undo puts every row back.
\<close>

lemma settles_all:
  assumes "db_ok refs d" "src \<noteq> tgt"
  shows "\<exists>K F. \<forall>t \<in> set moved_tables. settles_as t src tgt (t_rows (d t)) (K t) (F t)"
proof -
  have "\<forall>t \<in> set moved_tables. \<exists>p. settles_as t src tgt (t_rows (d t)) (fst p) (snd p)"
    using settles_as_ex assms by (fastforce simp: db_ok_def)
  from bchoice [OF this] obtain p where "\<forall>t \<in> set moved_tables. settles_as t src tgt (t_rows (d t)) (fst (p t)) (snd (p t))" ..
  then show ?thesis by (intro exI [of _ "\<lambda>t. fst (p t)"] exI [of _ "\<lambda>t. snd (p t)"])
qed

text \<open>The rows a merge leaves in one table.\<close>

lemma merged_rows:
  assumes ok: "db_ok refs d" and ne: "src \<noteq> tgt"
  shows "\<exists>K F d'. move_progress_and_history src tgt now d = Inr d' \<and>
    (\<forall>t \<in> set moved_tables. settles_as t src tgt (t_rows (d t)) (K t) (F t) \<and>
       t_rows (d' t) = map (mix t src tgt now 0 (F t) UNIV) (filter (K t) (t_rows (d t))))"
proof -
  from settles_all [OF assms] obtain K F where KF: "\<forall>t \<in> set moved_tables. settles_as t src tgt (t_rows (d t)) (K t) (F t)"
    by blast
  then have "settles_as t src tgt (t_rows (d t)) (K t) (F t)" if "t \<in> set moved_tables" for t
    using that by blast
  from move_succeeds [where now' = 0, OF ok ne this] KF show ?thesis
    by (intro exI [of _ K] exI [of _ F] exI) auto
qed

lemma settles_as_other:
  assumes "settles_as t src tgt rows K F" "\<not> on_book src r" "\<not> on_book tgt r"
  shows "F r = r"
  using assms by (auto simp: settles_as_def clear_of_def both_marked_def with_gains_def split: option.splits)

lemma mix_book:
  assumes "keeps F r" "row_ok sch r" "src \<noteq> tgt"
  shows "\<not> on_book src (mix t src tgt now now' F UNIV r)"
    and "on_book tgt (mix t src tgt now now' F UNIV r) \<longleftrightarrow> on_book src r \<or> on_book tgt r"
  using mix_cell [OF assms(1,2), of "''book_uuid''"] assms(3) by (auto simp: on_book_def)

subsection \<open>The merge\<close>

text \<open>
  C8: on a database that satisfies its constraints the relocation step of a merge never fails on a
  unique key: each of the nineteen tables it retargets (\<open>moved_tables\<close>) satisfies its keys
  afterwards, no row of it is left on the source book, and the rows of every other book are exactly
  the ones before. Of the other tables with a book uuid, \<open>book_read_status\<close> and \<open>reviews\<close> are
  settled apart (\<open>Merge_Curation\<close>), and those of \<open>MERGE_EXEMPT_TABLES\<close> (the suggestion cache, the
  Kobo sync snapshot, the stats exclusions; overrides are merged on their own) keep their rows on the
  source, as the code intends.
\<close>

theorem merge_leaves_no_row_behind:
  assumes ok: "db_ok refs d" and ne: "src \<noteq> tgt"
  shows "\<exists>d'. move_progress_and_history src tgt now d = Inr d' \<and>
    (\<forall>t \<in> set moved_tables. unique_ok (schema_of t) (t_rows (d' t)) \<and>
       (\<forall>r \<in> set (t_rows (d' t)). \<not> on_book src r) \<and>
       filter (\<lambda>r. \<not> on_book tgt r) (t_rows (d' t)) =
         filter (\<lambda>r. \<not> on_book src r \<and> \<not> on_book tgt r) (t_rows (d t)))"
proof -
  from merged_rows [OF ok ne] obtain K F d' where moved: "move_progress_and_history src tgt now d = Inr d'" and
    K: "\<And>t. t \<in> set moved_tables \<Longrightarrow> settles_as t src tgt (t_rows (d t)) (K t) (F t)" and
    rows: "\<And>t. t \<in> set moved_tables \<Longrightarrow> t_rows (d' t) = map (mix t src tgt now 0 (F t) UNIV) (filter (K t) (t_rows (d t)))"
    by blast
  have "unique_ok (schema_of t) (t_rows (d' t)) \<and> (\<forall>r \<in> set (t_rows (d' t)). \<not> on_book src r) \<and>
      filter (\<lambda>r. \<not> on_book tgt r) (t_rows (d' t)) = filter (\<lambda>r. \<not> on_book src r \<and> \<not> on_book tgt r) (t_rows (d t))"
    if t: "t \<in> set moved_tables" for t
  proof (intro conjI)
    note s = settles_asD [OF K [OF t]]
    let ?m = "mix t src tgt now 0 (F t) UNIV" and ?rows = "t_rows (d t)"
    have keeps: "keeps (F t) r" "row_ok (schema_of t) r" if "r \<in> set (filter (K t) ?rows)" for r
      using s(2) that unfolding settled_def table_ok_def by blast+
    note book = mix_book [OF keeps ne]
    show "unique_ok (schema_of t) (t_rows (d' t))"
      unfolding rows [OF t] using moved_schemas [OF t] by (intro mix_unique [OF s(2) _ ne]) simp
    show "\<forall>r \<in> set (t_rows (d' t)). \<not> on_book src r"
      unfolding rows [OF t] set_map using book(1) by blast
    have same: "?m r = r" if "\<not> on_book src r" "\<not> on_book tgt r" for r
      using settles_as_other [OF K [OF t] that] that by (simp add: mix_def)
    have "filter (\<lambda>r. \<not> on_book tgt r) (map ?m (filter (K t) ?rows)) =
        map ?m (filter (\<lambda>r. \<not> (on_book src r \<or> on_book tgt r)) (filter (K t) ?rows))"
      unfolding filter_map o_def using book(2) by (intro arg_cong [of _ _ "map ?m"] filter_cong refl) simp
    also have "\<dots> = filter (\<lambda>r. \<not> (on_book src r \<or> on_book tgt r)) (filter (K t) ?rows)"
      by (rule map_idI) (simp add: same)
    also have "\<dots> = filter (\<lambda>r. \<not> on_book src r \<and> \<not> on_book tgt r) ?rows"
      unfolding filter_filter using s(3) by (intro filter_cong refl) blast
    finally show "filter (\<lambda>r. \<not> on_book tgt r) (t_rows (d' t)) =
        filter (\<lambda>r. \<not> on_book src r \<and> \<not> on_book tgt r) ?rows" unfolding rows [OF t] .
  qed
  with moved show ?thesis by blast
qed

subsection \<open>The ledgers\<close>

lemma written_plain: "''user_id'' \<notin> written" "''format'' \<notin> written" "''book_uuid'' \<noteq> ''format''" "''book_uuid'' \<noteq> ''user_id''"
  by (simp_all add: written_def)

lemma ledger_bucket: "map_of LEDGER_COUNTER_TABLES t = Some b \<Longrightarrow> b \<noteq> ''book_uuid''"
  by (auto simp: LEDGER_COUNTER_TABLES_def split: if_splits)

text \<open>What one reader read of some books in one bucket of a ledger: the buckets of \<open>key\<close>'s reader, day or slot, and format.\<close>

definition ledger_total :: "string \<Rightarrow> ustr list \<Rightarrow> rw \<Rightarrow> rw list \<Rightarrow> int" where
  "ledger_total b books key rows =
     sum_list (map gained (filter (\<lambda>r. list_ex (\<lambda>k. on_book k r) books \<and> same_bucket b key r) rows))"

lemma same_bucket_trans: "same_bucket b x y \<Longrightarrow> same_bucket b y z \<Longrightarrow> same_bucket b x z"
  by (auto simp: same_bucket_def same_cols_def sql_eq_def)

lemma same_bucket_sym: "same_bucket b x y \<longleftrightarrow> same_bucket b y x"
  by (auto simp: same_bucket_def same_cols_sym)

lemma ledger_unique:
  assumes "map_of LEDGER_COUNTER_TABLES t = Some b" "table_ok (schema_of t) rows" "x \<in> set rows" "y \<in> set rows"
    and "on_book k x" "on_book k y" "same_bucket b x y"
  shows "x = y"
proof -
  have "list_all (\<lambda>(t, b). [''user_id'', ''book_uuid'', b, ''format''] \<in> set (s_unique (schema_of t)) \<or>
      [''user_id'', ''book_uuid'', ''format'', b] \<in> set (s_unique (schema_of t))) LEDGER_COUNTER_TABLES"
    by code_simp
  with map_of_SomeD [OF assms(1)]
  obtain u where u: "u \<in> set (s_unique (schema_of t))" "set u = {''user_id'', ''book_uuid'', b, ''format''}"
    unfolding list_all_iff by fastforce
  have "sql_eq (cell c x) (cell c y)" if "c \<in> set u" for c
    using assms(5-7) that unfolding u(2) by (auto simp: same_bucket_def same_cols_def on_book_def sql_eq_def)
  then have "clash (schema_of t) x y" using u(1) by (auto simp: clash_def list_ex_iff same_cols_def list_all_iff)
  with table_ok_apart [OF assms(2)] assms(3,4) show ?thesis unfolding apart_def by blast
qed

lemma one_row:
  assumes "\<And>x y. x \<in> set xs \<Longrightarrow> y \<in> set xs \<Longrightarrow> x = y" "distinct xs"
  shows "xs = [] \<or> (\<exists>x. xs = [x])"
proof (cases xs)
  case (Cons a ys)
  have "ys = []"
  proof (cases ys)
    case (Cons c zs)
    with \<open>xs = a # ys\<close> have xs: "xs = a # c # zs" by simp
    then have "a = c" by (intro assms(1)) simp_all
    with assms(2) show ?thesis unfolding xs by simp
  qed
  with Cons show ?thesis by blast
qed blast

lemma sum_filter_or:
  "(\<And>r. r \<in> set rows \<Longrightarrow> \<not> (P r \<and> Q r)) \<Longrightarrow>
     sum_list (map f (filter (\<lambda>r. P r \<or> Q r) rows)) = (sum_list (map f (filter P rows)) + sum_list (map f (filter Q rows)) :: int)"
  by (induction rows) auto

text \<open>One bucket of a ledger, settled: the target's row gains what the source's rows lose.\<close>

lemma bucket_settled:
  fixes rows
  defines "K b src tgt \<equiv> \<lambda>r. \<not> (on_book src r \<and> partner_of b tgt rows r)"
  assumes b: "map_of LEDGER_COUNTER_TABLES t = Some b" and ok: "table_ok (schema_of t) rows" "ledger_ok t rows"
    and ne: "src \<noteq> tgt"
  defines "G \<equiv> with_gains b tgt (filter (\<lambda>r. \<not> K b src tgt r) rows)"
  shows "sum_list (map (\<lambda>r. gained (G r))
      (filter (\<lambda>r. (on_book src r \<or> on_book tgt r) \<and> same_bucket b key r) (filter (K b src tgt) rows))) =
    ledger_total b [src, tgt] key rows"
proof -
  let ?S = "filter (\<lambda>r. on_book src r \<and> same_bucket b key r) rows"
  let ?T = "filter (\<lambda>r. on_book tgt r \<and> same_bucket b key r) rows"
  note unique = ledger_unique [OF b ok(1)]
  have apart: "\<not> (on_book src r \<and> on_book tgt r)" for r using ne by (auto simp: on_book_def)
  have total: "ledger_total b [src, tgt] key rows = sum_list (map gained ?S) + sum_list (map gained ?T)"
  proof -
    have eq: "filter (\<lambda>r. list_ex (\<lambda>k. on_book k r) [src, tgt] \<and> same_bucket b key r) rows =
        filter (\<lambda>r. on_book src r \<and> same_bucket b key r \<or> on_book tgt r \<and> same_bucket b key r) rows"
      by (intro filter_cong refl) auto
    have no: "\<not> ((on_book src r \<and> same_bucket b key r) \<and> on_book tgt r \<and> same_bucket b key r)" for r
      using apart by blast
    show ?thesis unfolding ledger_total_def eq by (rule sum_filter_or) (rule no)
  qed
  have partner: "partner_of b tgt rows r \<longleftrightarrow> ?T \<noteq> []" if k: "same_bucket b key r" for r
  proof -
    have "same_bucket b o1 r \<longleftrightarrow> same_bucket b key o1" for o1
      using k same_bucket_trans same_bucket_sym by blast
    then show ?thesis unfolding partner_of_def list_ex_iff filter_empty_conv by blast
  qed
  have "?T = [] \<or> (\<exists>x. ?T = [x])"
  proof (rule one_row)
    show "distinct ?T" using table_ok_rows [OF ok(1)] by simp
    fix x y assume "x \<in> set ?T" "y \<in> set ?T"
    then have "x \<in> set rows" "y \<in> set rows" "on_book tgt x" "on_book tgt y" "same_bucket b x y"
      using same_bucket_trans same_bucket_sym by (simp_all, blast)
    then show "x = y" by (rule unique)
  qed
  then show ?thesis
  proof
    assume none: "?T = []"
    have "filter (\<lambda>r. (on_book src r \<or> on_book tgt r) \<and> same_bucket b key r) (filter (K b src tgt) rows) = ?S"
      unfolding filter_filter using none partner by (intro filter_cong refl) (auto simp: K_def filter_empty_conv)
    moreover have "map (\<lambda>r. gained (G r)) ?S = map gained ?S"
      using apart by (auto simp: G_def with_gains_def)
    ultimately show ?thesis by (simp only: total none) simp
  next
    assume "\<exists>x. ?T = [x]"
    then obtain x where x: "?T = [x]" ..
    then have xT: "on_book tgt x" "same_bucket b key x" "x \<in> set rows" using list.set_intros(1) [of x "[]"] unfolding x [symmetric] by simp_all
    have one: "filter (\<lambda>r. (on_book src r \<or> on_book tgt r) \<and> same_bucket b key r) (filter (K b src tgt) rows) = ?T"
      unfolding filter_filter
    proof (intro filter_cong refl)
      fix r show "(K b src tgt r \<and> (on_book src r \<or> on_book tgt r) \<and> same_bucket b key r) = (on_book tgt r \<and> same_bucket b key r)"
        using x partner [of r] apart [of r] by (simp add: K_def) blast
    qed
    have gone: "filter (\<lambda>s. same_bucket b s x) (filter (\<lambda>r. \<not> K b src tgt r) rows) = ?S"
      unfolding filter_filter
    proof (intro filter_cong refl)
      fix r
      have "same_bucket b r x \<longleftrightarrow> same_bucket b key r" using xT(2) same_bucket_trans same_bucket_sym by blast
      then show "(\<not> K b src tgt r \<and> same_bucket b r x) = (on_book src r \<and> same_bucket b key r)"
        using x partner [of r] by (simp add: K_def) blast
    qed
    have "cell ''percent_gained'' x \<noteq> Null" using ledger_okD [OF ok(2) b xT(3)] by auto
    then have "''percent_gained'' \<in> fst ` set (snd x)" by (rule cell_present)
    then have "gained (G x) = gained x + sum_list (map gained ?S)"
      using xT(1) unfolding G_def with_gains_def gone by (simp add: gained_def cells_simps)
    then show ?thesis by (simp only: total one x) simp
  qed
qed

text \<open>
  C30: a merge loses nothing either book's reading ledger says: for every reader, format and day (or
  quarter-hour slot) the percent the target's ledger shows afterwards is what the two books' ledgers
  showed together before.
\<close>

theorem merge_keeps_ledger_totals:
  assumes ok: "db_ok refs d" and ne: "src \<noteq> tgt" and b: "map_of LEDGER_COUNTER_TABLES t = Some b"
  shows "\<exists>d'. move_progress_and_history src tgt now d = Inr d' \<and>
    (\<forall>key. ledger_total b [tgt] key (t_rows (d' t)) = ledger_total b [src, tgt] key (t_rows (d t)))"
proof -
  note f = ledger_facts [OF b]
  have t: "t \<in> set moved_tables" using f by (simp add: relocated_moved)
  from merged_rows [OF ok ne] obtain K F d' where moved: "move_progress_and_history src tgt now d = Inr d'" and
    settles: "settles_as t src tgt (t_rows (d t)) (K t) (F t)" and
    rows: "t_rows (d' t) = map (mix t src tgt now 0 (F t) UNIV) (filter (K t) (t_rows (d t)))"
    using t by blast
  then have K: "K t = (\<lambda>r. \<not> (on_book src r \<and> partner_of b tgt (t_rows (d t)) r))"
    and F: "F t = with_gains b tgt (filter (\<lambda>r. \<not> K t r) (t_rows (d t)))"
    using b by (simp_all add: settles_as_def)
  note kept = settles_asD(2) [OF settles]
  have tok: "table_ok (schema_of t) (t_rows (d t))" "ledger_ok t (t_rows (d t))"
    using ok t by (simp_all add: db_ok_def)
  let ?m = "mix t src tgt now 0 (F t) UNIV" and ?kept = "filter (K t) (t_rows (d t))"
  have "ledger_total b [tgt] key (t_rows (d' t)) = ledger_total b [src, tgt] key (t_rows (d t))" for key
  proof -
    have cells: "on_book tgt (?m r) \<longleftrightarrow> on_book src r \<or> on_book tgt r" "same_bucket b key (?m r) = same_bucket b key r"
      "gained (?m r) = gained (F t r)" if r: "r \<in> set ?kept" for r
    proof -
      from kept r have k: "keeps (F t) r" "row_ok (schema_of t) r" unfolding settled_def table_ok_def by blast+
      show "on_book tgt (?m r) \<longleftrightarrow> on_book src r \<or> on_book tgt r" by (rule mix_book(2) [OF k ne])
      have "cell c (?m r) = cell c r" if "c \<in> set [''user_id'', b, ''format'']" for c
        using mix_cell [OF k] that f written_plain ledger_bucket [OF b] by auto
      then show "same_bucket b key (?m r) = same_bucket b key r"
        unfolding same_bucket_def by (intro same_cols_cong) auto
      show "gained (?m r) = gained (F t r)"
        using f by (simp add: gained_def mix_def retarget_set_def cells_simps)
    qed
    have "map gained (filter (\<lambda>r. on_book tgt r \<and> same_bucket b key r) (map ?m ?kept)) =
        map (\<lambda>r. gained (F t r)) (filter (\<lambda>r. (on_book src r \<or> on_book tgt r) \<and> same_bucket b key r) ?kept)"
      unfolding filter_map o_def map_map using cells by (intro map_cong filter_cong) auto
    then show ?thesis
      using bucket_settled [OF b tok ne, of key] unfolding rows F K by (simp add: ledger_total_def)
  qed
  with moved show ?thesis by blast
qed

subsection \<open>The undo\<close>

text \<open>
  C2: undoing a merge at once gives every relocated table its rows back. A row that was still there
  after the merge returns cell for cell, except for the \<open>updated_at\<close> stamp that a moved annotation
  carries so that devices see it again. A row that the merge deleted returns with the same text,
  integers and NULLs, while each of its reals is the one that JSON made of it: printed by SQLite to
  fifteen digits into the log and bound again from there. Key columns hold no reals, and a real read
  from SQLite's text survives the log.
\<close>

theorem merge_undo_round_trip:
  assumes "db_ok refs d" "src \<noteq> tgt"
    and "\<forall>t \<in> set relocated_tables. \<forall>r \<in> set (t_rows (d t)). plain_row (schema_of t) r \<and> log_keeps js r"
  shows "\<exists>d' d''. move_progress_and_history src tgt now d = Inr d' \<and>
    restore_relocation js refs src tgt now' (logged js (capture_post tgt d' (capture_pre js src tgt d))) [] d' = Inr d'' \<and>
    (\<forall>t \<in> set relocated_tables. mset (map (content t) (t_rows (d'' t))) =
       mset (map (content t) (map (after_undo js (t_rows (d' t))) (t_rows (d t)))))"
  using assms by (rule undo_restores)

text \<open>
  Two books with a row of most kinds: one reader's places, ledgers and annotations on each. The
  places hold the real that is written 0.1 + 0.2; SQLite prints it as 0.3, the real just below.
\<close>

definition place_row :: "int \<Rightarrow> ustr \<Rightarrow> int \<Rightarrow> rw" where
  "place_row i b at = (i, [(''id'', Integer i), (''user_id'', Integer 7), (''book_uuid'', Text b),
     (''format'', Text [101]), (''percentage'', Real 0x3FD3333333333334), (''updated_at'', Integer at)])"

definition day_row :: "int \<Rightarrow> ustr \<Rightarrow> int \<Rightarrow> int \<Rightarrow> rw" where
  "day_row i b day gain = (i, [(''user_id'', Integer 7), (''book_uuid'', Text b), (''day'', Integer day),
     (''format'', Text [101]), (''percent_gained'', Integer gain)])"

definition note_row :: "int \<Rightarrow> ustr \<Rightarrow> rw" where
  "note_row i b = (i, [(''id'', Integer i), (''user_id'', Integer 7), (''book_uuid'', Text b),
     (''client_id'', Integer i), (''updated_at'', Integer 5)])"

definition shared_rows :: "(string \<times> rw list) list" where
  "shared_rows =
    [(''reading_progress'', [place_row 1 [1] 30, place_row 2 [2] 20, place_row 3 [3] 10]),
     (''reading_progress_daily'', [day_row 1 [1] 4 6, day_row 2 [2] 4 9, day_row 3 [1] 5 2]),
     (''annotations'', [note_row 1 [1], note_row 2 [2]])]"

definition shared_books :: tables where
  "shared_books t =
     \<lparr>t_rows = (case map_of shared_rows t of Some rows \<Rightarrow> rows | None \<Rightarrow> []), t_seq = 3\<rparr>"

lemma shared_books_ok: "db_ok (\<lambda>_ _. True) shared_books"
  by code_simp

theorem merge_leaves_no_row_behind_witness:
  "\<exists>d'. move_progress_and_history [1] [2] 50 shared_books = Inr d' \<and>
     unique_ok (schema_of ''reading_progress'') (t_rows (d' ''reading_progress'')) \<and>
     filter (\<lambda>r. \<not> on_book [2] r) (t_rows (d' ''reading_progress'')) = [place_row 3 [3] 10]"
proof -
  have ne: "([1] :: ustr) \<noteq> [2]" by simp
  have facts: "''reading_progress'' \<in> set moved_tables"
    "filter (\<lambda>r. \<not> on_book [1] r \<and> \<not> on_book [2] r) (t_rows (shared_books ''reading_progress'')) = [place_row 3 [3] 10]"
    by code_simp+
  from merge_leaves_no_row_behind [OF shared_books_ok ne, of 50] obtain d' where
    "move_progress_and_history [1] [2] 50 shared_books = Inr d'" and
    "\<forall>t \<in> set moved_tables. unique_ok (schema_of t) (t_rows (d' t)) \<and>
       (\<forall>r \<in> set (t_rows (d' t)). \<not> on_book [1] r) \<and>
       filter (\<lambda>r. \<not> on_book [2] r) (t_rows (d' t)) =
         filter (\<lambda>r. \<not> on_book [1] r \<and> \<not> on_book [2] r) (t_rows (shared_books t))"
    by blast
  then show ?thesis using facts by auto
qed

theorem merge_keeps_ledger_totals_witness:
  "\<exists>d'. move_progress_and_history [1] [2] 50 shared_books = Inr d' \<and>
     ledger_total ''day'' [[2]] (day_row 0 [] 4 0) (t_rows (d' ''reading_progress_daily'')) = 15"
proof -
  have ne: "([1] :: ustr) \<noteq> [2]" by simp
  have facts: "map_of LEDGER_COUNTER_TABLES ''reading_progress_daily'' = Some ''day''"
    "ledger_total ''day'' [[1], [2]] (day_row 0 [] 4 0) (t_rows (shared_books ''reading_progress_daily'')) = 15"
    by code_simp+
  show ?thesis
    using merge_keeps_ledger_totals [OF shared_books_ok ne facts(1), of 50] facts(2) by metis
qed

text \<open>The rows that are there after a merge are those that settling the collisions left.\<close>

lemma merged_ids:
  assumes ok: "db_ok refs d" and ne: "src \<noteq> tgt" and moved: "move_progress_and_history src tgt now d = Inr d'"
    and t: "t \<in> set moved_tables"
  shows "fst ` set (t_rows (d' t)) = fst ` set (settle t src tgt (t_rows (d t)))"
proof -
  from merged_rows [OF ok ne, of now] moved t obtain K F where
    s: "settles_as t src tgt (t_rows (d t)) (K t) (F t)" and
    rows: "t_rows (d' t) = map (mix t src tgt now 0 (F t) UNIV) (filter (K t) (t_rows (d t)))"
    by auto
  have "fst (mix t src tgt now 0 (F t) UNIV z) = fst (F t z)" for z
    by (simp add: mix_def retarget_keys)
  then show ?thesis unfolding rows settles_asD(1) [OF s] by (simp only: set_map image_image)
qed

definition fifteen_digits :: json_text where
  "fifteen_digits =
     \<lparr>js_read = (\<lambda>x. if x = 0x3FD3333333333334 then 0x3FD3333333333333 else x), js_log = (\<lambda>x. x), js_bind = (\<lambda>x. x)\<rparr>"

theorem merge_undo_round_trip_witness:
  "\<exists>d' d''. move_progress_and_history [1] [2] 50 shared_books = Inr d' \<and>
     restore_relocation fifteen_digits (\<lambda>_ _. True) [1] [2] 60
       (logged fifteen_digits (capture_post [2] d' (capture_pre fifteen_digits [1] [2] shared_books))) [] d' = Inr d'' \<and>
     mset (map (content ''reading_progress'') (t_rows (d'' ''reading_progress''))) =
       mset (map (content ''reading_progress'')
         [place_row 1 [1] 30, set_cell ''percentage'' (Real 0x3FD3333333333333) (place_row 2 [2] 20), place_row 3 [3] 10])"
proof -
  let ?t = "''reading_progress''"
  have ne: "([1] :: ustr) \<noteq> [2]" by simp
  have plain: "\<forall>t \<in> set relocated_tables. \<forall>r \<in> set (t_rows (shared_books t)).
      plain_row (schema_of t) r \<and> log_keeps fifteen_digits r"
    by code_simp
  have t: "?t \<in> set relocated_tables" by code_simp
  have left: "map fst (settle ?t [1] [2] (t_rows (shared_books ?t))) = [1, 3]" by code_simp
  have places: "t_rows (shared_books ?t) = [place_row 1 [1] 30, place_row 2 [2] 20, place_row 3 [3] 10]" by code_simp
  have gone: "row_through (rounded fifteen_digits) (place_row 2 [2] 20) =
      set_cell ''percentage'' (Real 0x3FD3333333333333) (place_row 2 [2] 20)"
    by code_simp
  from merge_undo_round_trip [OF shared_books_ok ne plain, of 50 60] obtain d' d'' where
    moved: "move_progress_and_history [1] [2] 50 shared_books = Inr d'" and
    undone: "restore_relocation fifteen_digits (\<lambda>_ _. True) [1] [2] 60
       (logged fifteen_digits (capture_post [2] d' (capture_pre fifteen_digits [1] [2] shared_books))) [] d' = Inr d''" and
    rows: "mset (map (content ?t) (t_rows (d'' ?t))) =
       mset (map (content ?t) (map (after_undo fifteen_digits (t_rows (d' ?t))) (t_rows (shared_books ?t))))"
    using t by blast
  have "fst ` set (t_rows (d' ?t)) = set (map fst (settle ?t [1] [2] (t_rows (shared_books ?t))))"
    using merged_ids [OF shared_books_ok ne moved relocated_moved [OF t]] by (simp only: set_map)
  then have ids: "fst ` set (t_rows (d' ?t)) = {1, 3}" unfolding left by simp
  have "fst (place_row i b now) = i" for i b now by (simp add: place_row_def)
  then have "map (after_undo fifteen_digits (t_rows (d' ?t))) (t_rows (shared_books ?t)) =
      [place_row 1 [1] 30, set_cell ''percentage'' (Real 0x3FD3333333333333) (place_row 2 [2] 20), place_row 3 [3] 10]"
    unfolding places using gone by (simp add: after_undo_def ids)
  with moved undone rows show ?thesis by metis
qed

end
