(* ===== verification/Merge_Curation.thy ===== *)
theory Merge_Curation
  imports Merge_Tables
begin

text \<open>
  Read statuses and reviews across a merge and its undo (\<open>db/src/merge/curation/mod.rs\<close>).
  A merge keeps the newer of two statuses and folds two reviews into one, field by field; the
  snapshot keeps both books' rows and what the merge left, and undo gives each book its own rows
  back unless a reader has decided otherwise since. A table is a list of rows with their book; the
  surrogate id, which nothing here reads, is left out.
\<close>

subsection \<open>The rows\<close>

record read_status_row =
  sr_user_id :: int
  sr_status :: ustr
  sr_updated_at :: int
  sr_finished_at :: "int option"
  sr_auto_started :: bool

record review_row =
  rv_user_id :: int
  rv_half_stars :: "int option"
  rv_body_md :: "ustr option"
  rv_notes_md :: "ustr option"
  rv_spoiler :: bool
  rv_rated_at :: "int option"
  rv_created_at :: "int option"
  rv_updated_at :: int

type_synonym 'r book_table = "(ustr \<times> 'r) list"

definition restored_dates :: "review_row \<Rightarrow> int option \<times> int" where
  "restored_dates r =
     (case rv_half_stars r of
        None \<Rightarrow> None
      | Some _ \<Rightarrow> (case rv_rated_at r of Some x \<Rightarrow> Some x | None \<Rightarrow> Some (rv_updated_at r)),
      case rv_created_at r of Some c \<Rightarrow> c | None \<Rightarrow> rv_updated_at r)"

definition is_public :: "review_row \<Rightarrow> bool" where
  "is_public r \<longleftrightarrow> rv_half_stars r \<noteq> None \<or> rv_body_md r \<noteq> None"

text \<open>Rust's order on \<open>Option\<close>: \<open>None\<close> comes first.\<close>

fun opt_less :: "int option \<Rightarrow> int option \<Rightarrow> bool" where
  "opt_less None (Some _) \<longleftrightarrow> True"
| "opt_less (Some a) (Some b) \<longleftrightarrow> a < b"
| "opt_less _ None \<longleftrightarrow> False"

definition min_list_opt :: "int list \<Rightarrow> int option" where
  "min_list_opt xs = (case xs of [] \<Rightarrow> None | x # ys \<Rightarrow> Some (fold min ys x))"

definition max_list_opt :: "int list \<Rightarrow> int option" where
  "max_list_opt xs = (case xs of [] \<Rightarrow> None | x # ys \<Rightarrow> Some (fold max ys x))"

definition rated_side :: "review_row \<Rightarrow> review_row \<Rightarrow> review_row" where
  "rated_side t s =
     (case (rv_half_stars t, rv_half_stars s) of
        (Some _, Some _) \<Rightarrow> if opt_less (rv_rated_at t) (rv_rated_at s) then s else t
      | (None, Some _) \<Rightarrow> s
      | _ \<Rightarrow> t)"

definition joined_notes :: "review_row \<Rightarrow> review_row \<Rightarrow> ustr option" where
  "joined_notes newer older =
     (case (rv_notes_md newer, rv_notes_md older) of
        (Some a, Some b) \<Rightarrow> if a \<noteq> b then Some (a @ [10, 10] @ b) else Some a
      | (Some a, None) \<Rightarrow> Some a
      | (None, b) \<Rightarrow> b)"

definition settle_review :: "review_row \<Rightarrow> review_row \<Rightarrow> review_row" where
  "settle_review t s =
     (let (newer, older) = (if rv_updated_at s > rv_updated_at t then (s, t) else (t, s));
          rated = rated_side t s;
          written = (case (rv_body_md t, rv_body_md s) of
              (Some _, Some _) \<Rightarrow> newer
            | (None, Some _) \<Rightarrow> s
            | (Some _, None) \<Rightarrow> t
            | (None, None) \<Rightarrow> rated);
          seen = (case filter is_public [t, s] of [] \<Rightarrow> [t, s] | rs \<Rightarrow> rs);
          begun = (if rv_body_md written \<noteq> None then filter (\<lambda>r. rv_body_md r \<noteq> None) [t, s] else seen)
      in \<lparr>rv_user_id = rv_user_id t, rv_half_stars = rv_half_stars rated, rv_body_md = rv_body_md written,
          rv_notes_md = joined_notes newer older, rv_spoiler = rv_spoiler written,
          rv_rated_at = fst (restored_dates rated),
          rv_created_at = min_list_opt (map (\<lambda>r. snd (restored_dates r)) begun),
          rv_updated_at = (case max_list_opt (map rv_updated_at seen) of Some m \<Rightarrow> m | None \<Rightarrow> rv_updated_at t)\<rparr>)"

text \<open>\<open>CurationRow::same_value\<close>: what a row says, not when it said it.\<close>

definition same_status :: "read_status_row \<Rightarrow> read_status_row \<Rightarrow> bool" where
  "same_status a b \<longleftrightarrow> sr_status a = sr_status b \<and> sr_finished_at a = sr_finished_at b \<and>
     sr_auto_started a = sr_auto_started b"

definition same_review :: "review_row \<Rightarrow> review_row \<Rightarrow> bool" where
  "same_review a b \<longleftrightarrow> rv_half_stars a = rv_half_stars b \<and> rv_body_md a = rv_body_md b \<and>
     rv_notes_md a = rv_notes_md b \<and> rv_spoiler a = rv_spoiler b"

subsection \<open>The tables and the snapshot\<close>

text \<open>One book's rows, reader-ordered; and one reader's row among them.\<close>

definition load_rows :: "('r \<Rightarrow> int) \<Rightarrow> ustr \<Rightarrow> 'r book_table \<Rightarrow> 'r list" where
  "load_rows uid b tbl = sort_key uid (map snd (filter (\<lambda>(k, _). k = b) tbl))"

definition by_user :: "('r \<Rightarrow> int) \<Rightarrow> 'r list \<Rightarrow> int \<Rightarrow> 'r option" where
  "by_user uid rows u = find (\<lambda>r. uid r = u) rows"

text \<open>\<open>INSERT ... ON CONFLICT(user_id, book_uuid) DO UPDATE\<close>, and the \<open>DELETE\<close>.\<close>

definition upsert_row :: "('r \<Rightarrow> int) \<Rightarrow> ustr \<Rightarrow> 'r \<Rightarrow> 'r book_table \<Rightarrow> 'r book_table" where
  "upsert_row uid b r tbl =
     (if list_ex (\<lambda>(k, x). k = b \<and> uid x = uid r) tbl
      then map (\<lambda>(k, x). if k = b \<and> uid x = uid r then (k, r) else (k, x)) tbl
      else tbl @ [(b, r)])"

definition clear_row :: "('r \<Rightarrow> int) \<Rightarrow> ustr \<Rightarrow> int \<Rightarrow> 'r book_table \<Rightarrow> 'r book_table" where
  "clear_row uid b u tbl = filter (\<lambda>(k, x). \<not> (k = b \<and> uid x = u)) tbl"

text \<open>\<open>write_review\<close> fills in the dates a pre-review snapshot lacks; the status is written as it is.\<close>

definition dated :: "review_row \<Rightarrow> review_row" where
  "dated r = r\<lparr>rv_rated_at := fst (restored_dates r), rv_created_at := Some (snd (restored_dates r))\<rparr>"

definition write_review :: "ustr \<Rightarrow> review_row \<Rightarrow> review_row book_table \<Rightarrow> review_row book_table" where
  "write_review b r tbl = upsert_row rv_user_id b (dated r) tbl"

record curation_db =
  cu_status :: "read_status_row book_table"
  cu_reviews :: "review_row book_table"

record curation_snapshot =
  source_status :: "read_status_row list"
  target_status :: "read_status_row list"
  merged_status :: "read_status_row list"
  source_ratings :: "review_row list"
  target_ratings :: "review_row list"
  merged_ratings :: "review_row list"

definition load_status :: "ustr \<Rightarrow> curation_db \<Rightarrow> read_status_row list" where
  "load_status b db = load_rows sr_user_id b (cu_status db)"

definition load_ratings :: "ustr \<Rightarrow> curation_db \<Rightarrow> review_row list" where
  "load_ratings b db = load_rows rv_user_id b (cu_reviews db)"

definition capture_curation_pre :: "ustr \<Rightarrow> ustr \<Rightarrow> curation_db \<Rightarrow> curation_snapshot" where
  "capture_curation_pre src tgt db =
     \<lparr>source_status = load_status src db, target_status = load_status tgt db, merged_status = [],
      source_ratings = load_ratings src db, target_ratings = load_ratings tgt db, merged_ratings = []\<rparr>"

definition capture_curation_post :: "ustr \<Rightarrow> curation_db \<Rightarrow> curation_snapshot \<Rightarrow> curation_snapshot" where
  "capture_curation_post tgt db snap =
     snap\<lparr>merged_status := load_status tgt db, merged_ratings := load_ratings tgt db\<rparr>"

definition moved_status_readers :: "curation_snapshot \<Rightarrow> int list" where
  "moved_status_readers snap = map sr_user_id (source_status snap)"

definition moved_rating_readers :: "curation_snapshot \<Rightarrow> int list" where
  "moved_rating_readers snap = map rv_user_id (source_ratings snap)"

subsection \<open>The merge\<close>

definition settle_reviews :: "ustr \<Rightarrow> ustr \<Rightarrow> curation_db \<Rightarrow> curation_db" where
  "settle_reviews src tgt db =
     (let targets = load_ratings tgt db
      in fold (\<lambda>s db. case by_user rv_user_id targets (rv_user_id s) of
             Some t \<Rightarrow> db\<lparr>cu_reviews := write_review tgt (settle_review t s) (cu_reviews db)\<rparr>
           | None \<Rightarrow> db) (load_ratings src db) db)"

definition retarget_rows :: "ustr \<Rightarrow> ustr \<Rightarrow> 'r book_table \<Rightarrow> 'r book_table" where
  "retarget_rows src tgt tbl = map (\<lambda>(k, r). if k = src then (tgt, r) else (k, r)) tbl"

text \<open>
  The part of \<open>move_progress_and_history\<close> that falls on these two tables: the reviews are settled,
  then both tables deduped (\<open>Keep::Max("updated_at")\<close> and \<open>Keep::Target\<close>) and retargeted.
\<close>

definition move_curation :: "ustr \<Rightarrow> ustr \<Rightarrow> curation_db \<Rightarrow> curation_db" where
  "move_curation src tgt db =
     (let db1 = settle_reviews src tgt db;
          status = dedupe_rows (\<lambda>(k, _). k = src) (\<lambda>(k, _). k = tgt)
            (\<lambda>x y. sr_user_id (snd x) = sr_user_id (snd y))
            (Some (\<lambda>o1 r. sr_updated_at (snd r) \<le> sr_updated_at (snd o1))) (cu_status db1);
          reviews = dedupe_rows (\<lambda>(k, _). k = src) (\<lambda>(k, _). k = tgt)
            (\<lambda>x y. rv_user_id (snd x) = rv_user_id (snd y)) None (cu_reviews db1)
      in \<lparr>cu_status = retarget_rows src tgt status, cu_reviews = retarget_rows src tgt reviews\<rparr>)"

subsection \<open>The undo\<close>

datatype unresolvable = ReCurated int | ClaimedByLater int

record 'r restore_plan =
  to_source :: "'r list"
  to_target :: "'r list"
  clear_target :: "int list"

definition says_the_same :: "('r \<Rightarrow> 'r \<Rightarrow> bool) \<Rightarrow> 'r option \<Rightarrow> 'r option \<Rightarrow> bool" where
  "says_the_same same a b \<longleftrightarrow>
     (case (a, b) of (Some x, Some y) \<Rightarrow> same x y | (None, None) \<Rightarrow> True | _ \<Rightarrow> False)"

definition plan_row ::
  "('r \<Rightarrow> int) \<Rightarrow> ('r \<Rightarrow> 'r \<Rightarrow> bool) \<Rightarrow> 'r list \<Rightarrow> 'r list \<Rightarrow> 'r list \<Rightarrow> int list \<Rightarrow> int list \<Rightarrow>
   'r \<Rightarrow> 'r restore_plan \<Rightarrow> unresolvable + 'r restore_plan"
where
  "plan_row uid same target_pre merged current live claimed row plan =
     (let user = uid row
      in if user \<notin> set live then Inr plan
         else if user \<in> set claimed then Inl (ClaimedByLater user)
         else if \<not> says_the_same same (by_user uid merged user) (by_user uid current user) then Inl (ReCurated user)
         else let plan = plan\<lparr>to_source := to_source plan @ [row]\<rparr>
              in case by_user uid target_pre user of
                   Some before \<Rightarrow> Inr (plan\<lparr>to_target := to_target plan @ [before]\<rparr>)
                 | None \<Rightarrow> Inr (plan\<lparr>clear_target := clear_target plan @ [user]\<rparr>))"

definition plan_restore ::
  "('r \<Rightarrow> int) \<Rightarrow> ('r \<Rightarrow> 'r \<Rightarrow> bool) \<Rightarrow> 'r list \<Rightarrow> 'r list \<Rightarrow> 'r list \<Rightarrow> 'r list \<Rightarrow> int list \<Rightarrow> int list \<Rightarrow>
   unresolvable + 'r restore_plan"
where
  "plan_restore uid same source_pre target_pre merged current live claimed =
     fold_res (plan_row uid same target_pre merged current live claimed) source_pre
       \<lparr>to_source = [], to_target = [], clear_target = []\<rparr>"

definition apply_plan ::
  "('r \<Rightarrow> int) \<Rightarrow> (ustr \<Rightarrow> 'r \<Rightarrow> 'r book_table \<Rightarrow> 'r book_table) \<Rightarrow> ustr \<Rightarrow> ustr \<Rightarrow> 'r restore_plan \<Rightarrow>
   'r book_table \<Rightarrow> 'r book_table"
where
  "apply_plan uid write src tgt plan tbl =
     fold (write src) (to_source plan)
       (fold (write tgt) (to_target plan) (fold (clear_row uid tgt) (clear_target plan) tbl))"

fun conflict :: "string \<Rightarrow> unresolvable \<Rightarrow> merge_error" where
  "conflict what (ReCurated u) = UndoConflict (Recurated what u)"
| "conflict what (ClaimedByLater u) = UndoConflict (ClaimedByLaterMerge what u)"

definition restore_status ::
  "ustr \<Rightarrow> ustr \<Rightarrow> curation_snapshot \<Rightarrow> int list \<Rightarrow> int list \<Rightarrow> curation_db \<Rightarrow> merge_error + curation_db"
where
  "restore_status src tgt snap live claimed db =
     (case plan_restore sr_user_id same_status (source_status snap) (target_status snap) (merged_status snap)
             (load_status tgt db) live claimed of
        Inl why \<Rightarrow> Inl (conflict ''read status'' why)
      | Inr plan \<Rightarrow> Inr (db\<lparr>cu_status := apply_plan sr_user_id (upsert_row sr_user_id) src tgt plan (cu_status db)\<rparr>))"

definition restore_ratings ::
  "ustr \<Rightarrow> ustr \<Rightarrow> curation_snapshot \<Rightarrow> int list \<Rightarrow> int list \<Rightarrow> curation_db \<Rightarrow> merge_error + curation_db"
where
  "restore_ratings src tgt snap live claimed db =
     (case plan_restore rv_user_id same_review (source_ratings snap) (target_ratings snap) (merged_ratings snap)
             (load_ratings tgt db) live claimed of
        Inl why \<Rightarrow> Inl (conflict ''review'' why)
      | Inr plan \<Rightarrow> Inr (db\<lparr>cu_reviews := apply_plan rv_user_id write_review src tgt plan (cu_reviews db)\<rparr>))"

definition restore_curation ::
  "ustr \<Rightarrow> ustr \<Rightarrow> curation_snapshot \<Rightarrow> int list \<Rightarrow> int list \<Rightarrow> int list \<Rightarrow> curation_db \<Rightarrow> merge_error + curation_db"
where
  "restore_curation src tgt snap live claimed_status claimed_ratings db =
     and_then (restore_status src tgt snap live claimed_status db)
       (restore_ratings src tgt snap live claimed_ratings)"

end
