(* ===== verification/Curation_Rules.thy ===== *)
theory Curation_Rules
  imports Merge_Curation
begin

text \<open>
  What a merge and its undo promise a reader about their status and review of the two books:
  nothing said in either review is lost, an undo gives each book its own rows back, and it
  refuses rather than overrule a later decision.
\<close>

subsection \<open>A table as a map from book and reader\<close>

definition row_of :: "('r \<Rightarrow> int) \<Rightarrow> 'r book_table \<Rightarrow> ustr \<Rightarrow> int \<Rightarrow> 'r option" where
  "row_of uid tbl b u = map_option snd (find (\<lambda>(k, x). k = b \<and> uid x = u) tbl)"

definition keyed :: "('r \<Rightarrow> int) \<Rightarrow> 'r book_table \<Rightarrow> bool" where
  "keyed uid tbl \<longleftrightarrow> distinct (map (\<lambda>(k, x). (k, uid x)) tbl)"

lemma row_of_simps [simp]:
  "row_of uid [] b u = None"
  "row_of uid ((k, x) # tbl) b u = (if k = b \<and> uid x = u then Some x else row_of uid tbl b u)"
  by (simp_all add: row_of_def)

lemma row_of_append: "row_of uid (xs @ ys) b u = (case row_of uid xs b u of Some r \<Rightarrow> Some r | None \<Rightarrow> row_of uid ys b u)"
  by (induction xs) auto

lemma row_of_mem: "keyed uid tbl \<Longrightarrow> row_of uid tbl b u = Some r \<longleftrightarrow> (b, r) \<in> set tbl \<and> uid r = u"
  by (induction tbl) (force simp: keyed_def split: prod.splits)+

lemma row_of_None: "row_of uid tbl b u = None \<longleftrightarrow> (\<forall>(k, x) \<in> set tbl. \<not> (k = b \<and> uid x = u))"
  by (induction tbl) (auto split: if_splits)

lemma row_of_upsert:
  "row_of uid (upsert_row uid b r tbl) b' u = (if b' = b \<and> u = uid r then Some r else row_of uid tbl b' u)"
proof (cases "list_ex (\<lambda>(k, x). k = b \<and> uid x = uid r) tbl")
  case True
  have "row_of uid (map (\<lambda>(k, x). if k = b \<and> uid x = uid r then (k, r) else (k, x)) tbl) b' u =
      (if b' = b \<and> u = uid r \<and> list_ex (\<lambda>(k, x). k = b \<and> uid x = uid r) tbl then Some r else row_of uid tbl b' u)"
    by (induction tbl) (auto split: if_splits)
  with True show ?thesis by (simp add: upsert_row_def)
next
  case False
  then have "row_of uid tbl b (uid r) = None" by (simp add: row_of_None list_ex_iff case_prod_beta)
  with False show ?thesis by (auto simp: upsert_row_def row_of_append split: option.splits)
qed

lemma row_of_clear: "row_of uid (clear_row uid b v tbl) b' u = (if b' = b \<and> u = v then None else row_of uid tbl b' u)"
  unfolding clear_row_def by (induction tbl) auto

lemma by_user_simps [simp]:
  "by_user uid [] u = None"
  "by_user uid (x # xs) u = (if uid x = u then Some x else by_user uid xs u)"
  by (simp_all add: by_user_def)

lemma by_user_mem: "distinct (map uid rows) \<Longrightarrow> by_user uid rows u = Some r \<longleftrightarrow> r \<in> set rows \<and> uid r = u"
  by (induction rows) (auto simp: image_iff)

lemma by_user_None: "by_user uid rows u = None \<longleftrightarrow> u \<notin> uid ` set rows"
  by (induction rows) auto

lemma by_user_Some: "by_user uid rows u = Some r \<Longrightarrow> r \<in> set rows \<and> uid r = u"
  by (induction rows) (auto split: if_splits)

text \<open>One book's rows are read in the order of their readers, and hold each reader once.\<close>

lemma load_rows_mem: "r \<in> set (load_rows uid b tbl) \<longleftrightarrow> (b, r) \<in> set tbl"
  by (force simp: load_rows_def)

lemma load_rows_distinct: "keyed uid tbl \<Longrightarrow> distinct (map uid (load_rows uid b tbl))"
proof -
  assume k: "keyed uid tbl"
  have "distinct (map uid (map snd (filter (\<lambda>(k, _). k = b) tbl)))"
    using k by (induction tbl) (force simp: keyed_def)+
  then show ?thesis by (simp add: load_rows_def distinct_map inj_on_def)
qed

lemma by_user_load: "keyed uid tbl \<Longrightarrow> by_user uid (load_rows uid b tbl) u = row_of uid tbl b u"
  by (rule option_eqI) (simp add: by_user_mem load_rows_distinct load_rows_mem row_of_mem)

lemma row_of_fold_upsert:
  "distinct (map uid rs) \<Longrightarrow>
     row_of uid (fold (upsert_row uid b) rs tbl) b' u =
       (if b' = b then (case by_user uid rs u of Some r \<Rightarrow> Some r | None \<Rightarrow> row_of uid tbl b' u) else row_of uid tbl b' u)"
proof (induction rs arbitrary: tbl)
  case (Cons r rs)
  have "by_user uid rs (uid r) = None" using Cons.prems by (auto simp: by_user_None)
  then show ?case using Cons by (auto simp: row_of_upsert split: option.splits)
qed simp

lemma row_of_fold_clear:
  "row_of uid (fold (clear_row uid b) us tbl) b' u = (if b' = b \<and> u \<in> set us then None else row_of uid tbl b' u)"
  by (induction us arbitrary: tbl) (auto simp: row_of_clear)

subsection \<open>The plan of an undo\<close>

definition settles :: "('r \<Rightarrow> int) \<Rightarrow> ('r \<Rightarrow> 'r \<Rightarrow> bool) \<Rightarrow> 'r list \<Rightarrow> 'r list \<Rightarrow> int list \<Rightarrow> int list \<Rightarrow> 'r \<Rightarrow> bool" where
  "settles uid same merged current live claimed r \<longleftrightarrow>
     uid r \<in> set live \<longrightarrow> uid r \<notin> set claimed \<and>
       says_the_same same (by_user uid merged (uid r)) (by_user uid current (uid r))"

lemma plan_fold:
  assumes "\<forall>r \<in> set rows. settles uid same merged current live claimed r"
  defines "rs \<equiv> filter (\<lambda>r. uid r \<in> set live) rows"
  shows "fold_res (plan_row uid same target_pre merged current live claimed) rows p =
    Inr \<lparr>to_source = to_source p @ rs,
         to_target = to_target p @ List.map_filter (\<lambda>r. by_user uid target_pre (uid r)) rs,
         clear_target = clear_target p @ map uid (filter (\<lambda>r. by_user uid target_pre (uid r) = None) rs)\<rparr>"
  using assms(1) unfolding rs_def
  by (induction rows arbitrary: p) (auto simp: plan_row_def settles_def List.map_filter_def Let_def split: option.splits)

lemma plan_refused:
  assumes "r \<in> set rows" "\<not> settles uid same merged current live claimed r"
  shows "\<exists>why. fold_res (plan_row uid same target_pre merged current live claimed) rows p = Inl why"
  using assms
proof (induction rows arbitrary: p)
  case (Cons x rows)
  show ?case
  proof (cases "plan_row uid same target_pre merged current live claimed x p")
    case (Inr q)
    then have "x \<noteq> r" using Cons.prems(2) by (auto simp: plan_row_def settles_def Let_def split: if_splits)
    with Cons Inr show ?thesis by simp
  qed simp
qed simp

lemma plan_restore_refused:
  "(\<exists>why. plan_restore uid same source_pre target_pre merged current live claimed = Inl why) \<longleftrightarrow>
     (\<exists>r \<in> set source_pre. \<not> settles uid same merged current live claimed r)"
  unfolding plan_restore_def by (metis Inl_Inr_False plan_fold plan_refused)

text \<open>The target's rows of the readers in \<open>rs\<close>.\<close>

lemma target_rows:
  fixes target_pre :: "'r list"
  assumes "distinct (map uid rs)"
  defines "ts \<equiv> List.map_filter (\<lambda>r. by_user uid target_pre (uid r)) rs"
  shows "distinct (map uid ts) \<and> set ts \<subseteq> set target_pre \<and> uid ` set ts \<subseteq> uid ` set rs \<and>
    (\<forall>u. by_user uid ts u = (if u \<in> uid ` set rs then by_user uid target_pre u else None))"
  using assms(1) unfolding ts_def
proof (induction rs)
  case (Cons r rs)
  let ?ts = "List.map_filter (\<lambda>r. by_user uid target_pre (uid r)) rs"
  from Cons have IH: "distinct (map uid ?ts)" "set ?ts \<subseteq> set target_pre" "uid ` set ?ts \<subseteq> uid ` set rs"
    "by_user uid ?ts u = (if u \<in> uid ` set rs then by_user uid target_pre u else None)" for u
    by auto
  show ?case
  proof (cases "by_user uid target_pre (uid r)")
    case None
    then show ?thesis using IH Cons.prems by (auto simp: List.map_filter_simps)
  next
    case (Some t)
    from by_user_Some [OF this] have "t \<in> set target_pre" "uid t = uid r" by auto
    then show ?thesis using IH Cons.prems Some by (auto simp: List.map_filter_simps)
  qed
qed (simp add: List.map_filter_simps)

lemma plan_of:
  assumes "plan_restore uid same source_pre target_pre merged current live claimed = Inr plan"
  defines "rs \<equiv> filter (\<lambda>r. uid r \<in> set live) source_pre"
  shows "plan = \<lparr>to_source = rs, to_target = List.map_filter (\<lambda>r. by_user uid target_pre (uid r)) rs,
    clear_target = map uid (filter (\<lambda>r. by_user uid target_pre (uid r) = None) rs)\<rparr>"
proof -
  have "\<forall>r \<in> set source_pre. settles uid same merged current live claimed r"
  proof (rule ballI, rule ccontr)
    fix r assume "r \<in> set source_pre" "\<not> settles uid same merged current live claimed r"
    from plan_refused [OF this, of target_pre "\<lparr>to_source = [], to_target = [], clear_target = []\<rparr>"] assms(1)
    show False by (auto simp: plan_restore_def)
  qed
  from plan_fold [OF this] assms(1) show ?thesis by (simp add: plan_restore_def rs_def)
qed

text \<open>A plan puts every reader's row it settles back on both books and touches no other.\<close>

lemma apply_plan_rows:
  assumes ne: "src \<noteq> tgt" and dist: "distinct (map uid source_pre)"
    and put: "\<And>b r tbl. r \<in> set source_pre \<union> set target_pre \<Longrightarrow> put b r tbl = upsert_row uid b r tbl"
    and plan: "plan_restore uid same source_pre target_pre merged current live claimed = Inr plan"
  shows "row_of uid (apply_plan uid put src tgt plan tbl) b u =
    (if u \<in> set live \<and> by_user uid source_pre u \<noteq> None
     then if b = src then by_user uid source_pre u else if b = tgt then by_user uid target_pre u else row_of uid tbl b u
     else row_of uid tbl b u)"
proof -
  let ?rs = "filter (\<lambda>r. uid r \<in> set live) source_pre"
  let ?ts = "List.map_filter (\<lambda>r. by_user uid target_pre (uid r)) ?rs"
  let ?cs = "map uid (filter (\<lambda>r. by_user uid target_pre (uid r) = None) ?rs)"
  have rsd: "distinct (map uid ?rs)" using dist by (simp add: distinct_map_filter)
  from target_rows [OF this] have tsd: "distinct (map uid ?ts)" and ts: "set ?ts \<subseteq> set target_pre"
    and theirs: "by_user uid ?ts u = (if u \<in> uid ` set ?rs then by_user uid target_pre u else None)"
    by blast+
  have put_all: "fold (put b) rs tbl = fold (upsert_row uid b) rs tbl" if "set rs \<subseteq> set source_pre \<union> set target_pre" for b rs tbl
    using that put by (induction rs arbitrary: tbl) auto
  have puts: "fold (put src) ?rs tbl = fold (upsert_row uid src) ?rs tbl"
    "fold (put tgt) ?ts tbl = fold (upsert_row uid tgt) ?ts tbl" for tbl
  proof -
    have "set ?rs \<subseteq> set source_pre \<union> set target_pre" "set ?ts \<subseteq> set source_pre \<union> set target_pre" using ts by auto
    with put_all show "fold (put src) ?rs tbl = fold (upsert_row uid src) ?rs tbl"
      "fold (put tgt) ?ts tbl = fold (upsert_row uid tgt) ?ts tbl" by blast+
  qed
  have mine: "by_user uid ?rs u = (if u \<in> set live then by_user uid source_pre u else None)"
    by (induction source_pre) auto
  have users: "u \<in> uid ` set ?rs \<longleftrightarrow> u \<in> set live \<and> by_user uid source_pre u \<noteq> None"
    by (auto simp: by_user_None)
  have cs: "u \<in> set ?cs \<longleftrightarrow> u \<in> uid ` set ?rs \<and> by_user uid target_pre u = None" by auto
  show ?thesis
    unfolding apply_plan_def plan_of [OF plan] restore_plan.simps puts
      row_of_fold_upsert [OF rsd] row_of_fold_upsert [OF tsd] row_of_fold_clear mine theirs cs users
    using ne by (simp split: option.split)
qed

subsection \<open>What the merge leaves\<close>

lemma keyed_append: "keyed uid (tbl @ [(b, r)]) \<longleftrightarrow> keyed uid tbl \<and> row_of uid tbl b (uid r) = None"
  by (force simp: keyed_def row_of_None)

lemma keyed_upsert: "keyed uid tbl \<Longrightarrow> keyed uid (upsert_row uid b r tbl)"
proof -
  assume k: "keyed uid tbl"
  have "map (\<lambda>(k, x). (k, uid x)) (map (\<lambda>(k, x). if k = b \<and> uid x = uid r then (k, r) else (k, x)) tbl) =
      map (\<lambda>(k, x). (k, uid x)) tbl"
    by (induction tbl) auto
  with k show ?thesis
    by (auto simp: upsert_row_def keyed_append keyed_def row_of_None list_ex_iff simp del: map_map)
qed

lemma keyed_inj: "keyed uid tbl \<Longrightarrow> (b, x) \<in> set tbl \<Longrightarrow> (b, y) \<in> set tbl \<Longrightarrow> uid x = uid y \<Longrightarrow> x = y"
  by (metis option.inject row_of_mem)

lemma keyed_distinct: "keyed uid tbl \<Longrightarrow> distinct tbl"
  unfolding keyed_def distinct_map by blast

definition settled_table ::
  "('r \<Rightarrow> int) \<Rightarrow> ((ustr \<times> 'r) \<Rightarrow> (ustr \<times> 'r) \<Rightarrow> bool) option \<Rightarrow> ustr \<Rightarrow> ustr \<Rightarrow> 'r book_table \<Rightarrow> 'r book_table"
where
  "settled_table uid rule src tgt tbl = retarget_rows src tgt
     (dedupe_rows (\<lambda>(k, _). k = src) (\<lambda>(k, _). k = tgt) (\<lambda>x y. uid (snd x) = uid (snd y)) rule tbl)"

lemma move_curation_eq:
  "move_curation src tgt db =
     \<lparr>cu_status = settled_table sr_user_id (Some (\<lambda>o1 r. sr_updated_at (snd r) \<le> sr_updated_at (snd o1))) src tgt
        (cu_status (settle_reviews src tgt db)),
      cu_reviews = settled_table rv_user_id None src tgt (cu_reviews (settle_reviews src tgt db))\<rparr>"
  by (simp add: move_curation_def settled_table_def Let_def)

lemma settled_table_ok:
  assumes k: "keyed uid tbl" and ne: "src \<noteq> tgt"
  shows "keyed uid (settled_table uid rule src tgt tbl)"
    and "row_of uid (settled_table uid rule src tgt tbl) src u = None"
    and "b \<noteq> src \<Longrightarrow> b \<noteq> tgt \<Longrightarrow> row_of uid (settled_table uid rule src tgt tbl) b u = row_of uid tbl b u"
    and "row_of uid tbl src u = None \<Longrightarrow> row_of uid (settled_table uid rule src tgt tbl) tgt u = row_of uid tbl tgt u"
proof -
  let ?S = "\<lambda>(k, _). k = src" and ?T = "\<lambda>(k, _). k = tgt" and ?same = "\<lambda>x y. uid (snd x) = uid (snd y)"
  let ?d = "dedupe_rows ?S ?T ?same rule tbl" and ?r = "\<lambda>(k, r). if k = src then (tgt, r) else (k, r)"
  from dedupe_filter [of ?S ?T ?same rule tbl] obtain K where
    K: "?d = filter K tbl" "\<And>x. fst x \<noteq> src \<Longrightarrow> fst x \<noteq> tgt \<Longrightarrow> K x"
    by (auto simp: case_prod_beta)
  have apart: "uid y \<noteq> uid x" if "(src, x) \<in> set ?d" "(tgt, y) \<in> set ?d" for x y
  proof -
    have "?same a c = ?same c a" for a c by auto
    from dedupe_apart [OF that _ _ this] show ?thesis by simp
  qed
  have mem: "(b, r) \<in> set (settled_table uid rule src tgt tbl) \<longleftrightarrow>
      b \<noteq> src \<and> ((b, r) \<in> set ?d \<or> b = tgt \<and> (src, r) \<in> set ?d)" for b r
    using ne by (force simp: settled_table_def retarget_rows_def split: if_splits)
  have dk: "keyed uid ?d" using k by (simp add: K(1) keyed_def distinct_map_filter)
  have "inj_on (\<lambda>p. (fst (?r p), uid (snd (?r p)))) (set ?d)"
  proof (rule inj_onI)
    fix p q assume p: "p \<in> set ?d" "q \<in> set ?d"
      and eq: "(fst (?r p), uid (snd (?r p))) = (fst (?r q), uid (snd (?r q)))"
    obtain a x c y where pq: "p = (a, x)" "q = (c, y)" by (cases p, cases q)
    have "uid x = uid y" using eq by (auto simp: pq split: if_splits)
    moreover have "a = c"
    proof (rule ccontr)
      assume "a \<noteq> c"
      with eq ne have "a = src \<and> c = tgt \<or> a = tgt \<and> c = src" by (auto simp: pq split: if_splits)
      then show False using apart [of x y] apart [of y x] p calculation by (auto simp: pq)
    qed
    ultimately show "p = q" using p keyed_inj [OF dk] by (simp add: pq)
  qed
  then show dk': "keyed uid (settled_table uid rule src tgt tbl)"
    using keyed_distinct [OF dk]
    by (simp add: keyed_def settled_table_def retarget_rows_def o_def case_prod_beta distinct_map)
  show "row_of uid (settled_table uid rule src tgt tbl) src u = None"
    by (rule option_NoneI) (simp add: row_of_mem [OF dk'] mem)
  show "b \<noteq> src \<Longrightarrow> b \<noteq> tgt \<Longrightarrow> row_of uid (settled_table uid rule src tgt tbl) b u = row_of uid tbl b u"
    by (rule option_eqI) (auto simp: row_of_mem [OF dk'] row_of_mem [OF k] mem K)
  assume none: "row_of uid tbl src u = None"
  have "K (tgt, r)" if "(tgt, r) \<in> set tbl" "uid r = u" for r
  proof -
    have "\<forall>x. (src, x) \<in> set tbl \<longrightarrow> uid x \<noteq> u" using none by (auto simp: row_of_None)
    then have "(tgt, r) \<in> set ?d"
      using that ne by (cases rule) (force simp: dedupe_rows_def Let_def list_ex_iff)+
    then show ?thesis by (simp add: K(1))
  qed
  then show "row_of uid (settled_table uid rule src tgt tbl) tgt u = row_of uid tbl tgt u"
    using none ne by (intro option_eqI) (auto simp: row_of_mem [OF dk'] row_of_mem [OF k] mem K row_of_None)
qed

text \<open>Who is left when a reader has a row on both books, and when only on the merged one.\<close>

lemma settled_table_mem:
  fixes rule :: "((ustr \<times> 'r) \<Rightarrow> (ustr \<times> 'r) \<Rightarrow> bool) option" and tbl :: "'r book_table" and uid :: "'r \<Rightarrow> int"
    and src tgt :: ustr
  assumes ne: "src \<noteq> tgt"
  defines "wins \<equiv> (case rule of Some w \<Rightarrow> w | None \<Rightarrow> \<lambda>_ _. True)"
  defines "beaten \<equiv> \<lambda>r. \<exists>t. (tgt, t) \<in> set tbl \<and> uid t = uid r \<and> wins (tgt, t) (src, r)"
  shows "(tgt, r) \<in> set (settled_table uid rule src tgt tbl) \<longleftrightarrow>
    (src, r) \<in> set tbl \<and> \<not> beaten r \<or>
    (tgt, r) \<in> set tbl \<and> (rule = None \<or> \<not> (\<exists>s. (src, s) \<in> set tbl \<and> uid s = uid r \<and> \<not> beaten s))"
proof -
  let ?d = "dedupe_rows (\<lambda>(k, _). k = src) (\<lambda>(k, _). k = tgt) (\<lambda>x y. uid (snd x) = uid (snd y)) rule tbl"
  have src_left: "(src, x) \<in> set ?d \<longleftrightarrow> (src, x) \<in> set tbl \<and> \<not> beaten x" for x
    using ne by (cases rule) (auto simp: dedupe_rows_def Let_def list_ex_iff wins_def beaten_def)
  have "(tgt, x) \<in> set ?d \<longleftrightarrow> (tgt, x) \<in> set tbl \<and>
      (rule = None \<or> \<not> (\<exists>s. (src, s) \<in> set tbl \<and> uid s = uid x \<and> \<not> beaten s))" for x
    using ne by (cases rule) (force simp: dedupe_rows_def Let_def list_ex_iff wins_def beaten_def)+
  moreover have "(tgt, r) \<in> set (settled_table uid rule src tgt tbl) \<longleftrightarrow> (tgt, r) \<in> set ?d \<or> (src, r) \<in> set ?d"
    using ne by (force simp: settled_table_def retarget_rows_def split: if_splits)
  ultimately show ?thesis using src_left by blast
qed

lemma settled_table_both:
  assumes k: "keyed uid tbl" and ne: "src \<noteq> tgt" and s: "row_of uid tbl src u = Some s" and t: "row_of uid tbl tgt u = Some t"
  shows "row_of uid (settled_table uid rule src tgt tbl) tgt u =
    Some (case rule of None \<Rightarrow> t | Some w \<Rightarrow> if w (tgt, t) (src, s) then t else s)"
proof -
  from s t have mem: "(src, s) \<in> set tbl" "uid s = u" "(tgt, t) \<in> set tbl" "uid t = u"
    by (auto simp: row_of_mem [OF k])
  then have "\<And>x. (tgt, x) \<in> set tbl \<Longrightarrow> uid x = u \<Longrightarrow> x = t" "\<And>x. (src, x) \<in> set tbl \<Longrightarrow> uid x = u \<Longrightarrow> x = s"
    using keyed_inj [OF k] by metis+
  note only = this
  show ?thesis
  proof (cases rule)
    case (Some w)
    then show ?thesis using mem unfolding row_of_mem [OF settled_table_ok(1) [OF k ne]] settled_table_mem [OF ne]
      by (cases "w (tgt, t) (src, s)") (auto dest: only)
  qed (use mem in \<open>auto simp: row_of_mem [OF settled_table_ok(1) [OF k ne]] settled_table_mem [OF ne]\<close>)
qed

lemma settled_table_moved:
  assumes k: "keyed uid tbl" and ne: "src \<noteq> tgt" and s: "row_of uid tbl src u = Some s" and t: "row_of uid tbl tgt u = None"
  shows "row_of uid (settled_table uid rule src tgt tbl) tgt u = Some s"
proof -
  from s have "(src, s) \<in> set tbl" "uid s = u" by (auto simp: row_of_mem [OF k])
  moreover have "\<And>x. (tgt, x) \<in> set tbl \<Longrightarrow> uid x \<noteq> u" using t by (auto simp: row_of_None)
  ultimately show ?thesis
    unfolding row_of_mem [OF settled_table_ok(1) [OF k ne]] settled_table_mem [OF ne] by auto
qed

subsection \<open>Folding the reviews\<close>

lemma settle_review_user [simp]: "rv_user_id (settle_review t s) = rv_user_id t" "rv_user_id (dated r) = rv_user_id r"
  by (simp_all add: settle_review_def dated_def Let_def case_prod_beta)

lemma settle_reviews_status [simp]: "cu_status (settle_reviews src tgt db) = cu_status db"
proof -
  have "cu_status (fold (\<lambda>s db. case f s of Some t \<Rightarrow> db\<lparr>cu_reviews := g s t (cu_reviews db)\<rparr> | None \<Rightarrow> db) ss db) = cu_status db"
    for f g and ss :: "review_row list"
    by (induction ss arbitrary: db) (auto split: option.splits)
  then show ?thesis by (simp add: settle_reviews_def Let_def)
qed

definition settled_rows :: "review_row list \<Rightarrow> review_row list \<Rightarrow> review_row list" where
  "settled_rows ts ss =
     List.map_filter (\<lambda>s. map_option (\<lambda>t. dated (settle_review t s)) (by_user rv_user_id ts (rv_user_id s))) ss"

lemma settle_fold:
  "cu_reviews (fold (\<lambda>s db. case by_user rv_user_id ts (rv_user_id s) of
       Some t \<Rightarrow> db\<lparr>cu_reviews := write_review tgt (settle_review t s) (cu_reviews db)\<rparr> | None \<Rightarrow> db) ss db) =
   fold (upsert_row rv_user_id tgt) (settled_rows ts ss) (cu_reviews db)"
  by (induction ss arbitrary: db)
    (auto simp: settled_rows_def List.map_filter_simps write_review_def split: option.split)

lemma settled_rows_users:
  assumes "distinct (map rv_user_id ss)"
  shows "distinct (map rv_user_id (settled_rows ts ss)) \<and> rv_user_id ` set (settled_rows ts ss) \<subseteq> rv_user_id ` set ss \<and>
    by_user rv_user_id (settled_rows ts ss) u =
      (case (by_user rv_user_id ss u, by_user rv_user_id ts u) of
         (Some s, Some t) \<Rightarrow> Some (dated (settle_review t s)) | _ \<Rightarrow> None)"
  using assms
proof (induction ss)
  case (Cons s ss)
  have gone: "by_user rv_user_id ss (rv_user_id s) = None" using Cons.prems by (auto simp: by_user_None)
  from Cons have IH: "distinct (map rv_user_id (settled_rows ts ss))"
    "rv_user_id ` set (settled_rows ts ss) \<subseteq> rv_user_id ` set ss"
    "by_user rv_user_id (settled_rows ts ss) u =
      (case (by_user rv_user_id ss u, by_user rv_user_id ts u) of
         (Some s, Some t) \<Rightarrow> Some (dated (settle_review t s)) | _ \<Rightarrow> None)"
    by auto
  show ?case
  proof (cases "by_user rv_user_id ts (rv_user_id s)")
    case None
    then have "settled_rows ts (s # ss) = settled_rows ts ss" by (simp add: settled_rows_def List.map_filter_simps)
    then show ?thesis using IH gone None by (auto split: option.split)
  next
    case (Some t)
    then have "settled_rows ts (s # ss) = dated (settle_review t s) # settled_rows ts ss"
      by (simp add: settled_rows_def List.map_filter_simps)
    moreover from by_user_Some [OF Some] have "rv_user_id t = rv_user_id s" by simp
    ultimately show ?thesis using IH gone Some Cons.prems by auto
  qed
qed (simp add: settled_rows_def List.map_filter_simps)

lemma keyed_fold_upsert: "keyed uid tbl \<Longrightarrow> keyed uid (fold (upsert_row uid b) rs tbl)"
  by (induction rs arbitrary: tbl) (auto simp: keyed_upsert)

lemma settle_reviews_rows:
  assumes k: "keyed rv_user_id (cu_reviews db)"
  shows "keyed rv_user_id (cu_reviews (settle_reviews src tgt db)) \<and>
    row_of rv_user_id (cu_reviews (settle_reviews src tgt db)) b u =
      (case (row_of rv_user_id (cu_reviews db) src u, row_of rv_user_id (cu_reviews db) tgt u) of
         (Some s, Some t) \<Rightarrow> if b = tgt then Some (dated (settle_review t s)) else row_of rv_user_id (cu_reviews db) b u
       | _ \<Rightarrow> row_of rv_user_id (cu_reviews db) b u)"
proof -
  have "cu_reviews (settle_reviews src tgt db) =
      fold (upsert_row rv_user_id tgt) (settled_rows (load_ratings tgt db) (load_ratings src db)) (cu_reviews db)"
    by (simp add: settle_reviews_def Let_def settle_fold)
  moreover note us = settled_rows_users [OF load_rows_distinct [OF k, of src], of "load_rows rv_user_id tgt (cu_reviews db)" u]
  ultimately show ?thesis
    using keyed_fold_upsert [OF k] us
    by (simp add: row_of_fold_upsert [OF us [THEN conjunct1]] load_ratings_def by_user_load [OF k] split: option.split)
qed

subsection \<open>One review of two\<close>

definition newer_side :: "review_row \<Rightarrow> review_row \<Rightarrow> review_row" where
  "newer_side t s = (if rv_updated_at s > rv_updated_at t then s else t)"

definition written_side :: "review_row \<Rightarrow> review_row \<Rightarrow> review_row" where
  "written_side t s =
     (case (rv_body_md t, rv_body_md s) of
        (Some _, Some _) \<Rightarrow> newer_side t s
      | (None, Some _) \<Rightarrow> s
      | (Some _, None) \<Rightarrow> t
      | (None, None) \<Rightarrow> rated_side t s)"

lemma settle_review_fields:
  "rv_half_stars (settle_review t s) = rv_half_stars (rated_side t s)"
  "rv_rated_at (settle_review t s) = fst (restored_dates (rated_side t s))"
  "rv_body_md (settle_review t s) = rv_body_md (written_side t s)"
  "rv_spoiler (settle_review t s) = rv_spoiler (written_side t s)"
  by (cases "rv_updated_at t < rv_updated_at s";
      simp only: settle_review_def Let_def written_side_def newer_side_def if_True if_False prod.case review_row.simps)+

lemma settle_review_notes:
  "rv_notes_md (settle_review t s) = joined_notes s t \<or> rv_notes_md (settle_review t s) = joined_notes t s"
  by (cases "rv_updated_at t < rv_updated_at s";
      simp only: settle_review_def Let_def if_True if_False prod.case review_row.simps simp_thms)

lemma settle_review_seen:
  "is_public t \<Longrightarrow> \<not> is_public s \<Longrightarrow> rv_updated_at (settle_review t s) = rv_updated_at t"
  "is_public s \<Longrightarrow> \<not> is_public t \<Longrightarrow> rv_updated_at (settle_review t s) = rv_updated_at s"
proof -
  have "rv_updated_at (settle_review t s) =
      (case max_list_opt (map rv_updated_at (case filter is_public [t, s] of [] \<Rightarrow> [t, s] | rs \<Rightarrow> rs)) of
         Some m \<Rightarrow> m | None \<Rightarrow> rv_updated_at t)"
    by (cases "rv_updated_at t < rv_updated_at s";
        simp only: settle_review_def Let_def if_True if_False prod.case review_row.simps)
  then show "is_public t \<Longrightarrow> \<not> is_public s \<Longrightarrow> rv_updated_at (settle_review t s) = rv_updated_at t"
    "is_public s \<Longrightarrow> \<not> is_public t \<Longrightarrow> rv_updated_at (settle_review t s) = rv_updated_at s"
    by (simp_all add: max_list_opt_def)
qed

lemma rated_side_cases: "rated_side t s = t \<or> rated_side t s = s"
  by (simp add: rated_side_def split: option.split)

lemma rated_side_stars: "rv_half_stars (rated_side t s) = None \<longleftrightarrow> rv_half_stars t = None \<and> rv_half_stars s = None"
  by (cases "rv_half_stars t"; cases "rv_half_stars s") (simp_all add: rated_side_def)

lemma opt_less_order: "opt_less a b \<Longrightarrow> \<not> opt_less b a" "\<not> opt_less a a"
  by (cases a; cases b; simp)+

lemma rated_side_later:
  assumes "rv_half_stars t \<noteq> None" "rv_half_stars s \<noteq> None" "r \<in> {t, s}"
  shows "\<not> opt_less (rv_rated_at (rated_side t s)) (rv_rated_at r)"
  using assms by (auto simp: rated_side_def opt_less_order)

lemma written_side_cases: "written_side t s = t \<or> written_side t s = s"
  using rated_side_cases [of t s] by (auto simp: written_side_def newer_side_def split: option.split)

lemma written_side_body: "rv_body_md (written_side t s) = None \<longleftrightarrow> rv_body_md t = None \<and> rv_body_md s = None"
proof (cases "rv_body_md t"; cases "rv_body_md s")
  assume "rv_body_md t = None" "rv_body_md s = None"
  then show ?thesis using written_side_cases [of t s] by auto
qed (auto simp: written_side_def newer_side_def)

lemma written_side_newer:
  assumes "rv_body_md t \<noteq> None" "rv_body_md s \<noteq> None"
  shows "rv_updated_at t \<le> rv_updated_at (written_side t s)" "rv_updated_at s \<le> rv_updated_at (written_side t s)"
  using assms by (auto simp: written_side_def newer_side_def)

lemma joined_notes_keep:
  assumes "rv_notes_md a = Some n \<or> rv_notes_md b = Some n"
  shows "\<exists>x y. joined_notes a b = Some (x @ n @ y)"
proof (cases "joined_notes a b = Some n")
  case True
  then show ?thesis by (intro exI [of _ "[]"]) simp
next
  case False
  with assms obtain u v where uv: "rv_notes_md a = Some u" "rv_notes_md b = Some v" "u \<noteq> v"
    by (auto simp: joined_notes_def split: option.splits if_splits)
  then have "joined_notes a b = Some ([] @ u @ [10, 10] @ v)" "joined_notes a b = Some ((u @ [10, 10]) @ v @ [])" "n = u \<or> n = v"
    using assms by (auto simp: joined_notes_def)
  then show ?thesis by blast
qed


text \<open>
  C35: folding two reviews loses nothing either said: the stars, the text and its spoiler flag are
  those of a side that has them (the later rating, the newer text), both sides' private notes are
  in the result, a rating date accompanies exactly the stars, and \<open>updated_at\<close>, which other
  readers see, is not taken from a side that holds only notes while the other is public.
\<close>

theorem settled_review_keeps_both:
  "(rv_half_stars (settle_review t s) = None \<longleftrightarrow> rv_half_stars t = None \<and> rv_half_stars s = None) \<and>
   (rv_body_md (settle_review t s) = None \<longleftrightarrow> rv_body_md t = None \<and> rv_body_md s = None) \<and>
   (rv_rated_at (settle_review t s) = None \<longleftrightarrow> rv_half_stars (settle_review t s) = None) \<and>
   (\<exists>r \<in> {t, s}. rv_half_stars (settle_review t s) = rv_half_stars r \<and>
      (rv_half_stars t \<noteq> None \<and> rv_half_stars s \<noteq> None \<longrightarrow>
        \<not> opt_less (rv_rated_at r) (rv_rated_at t) \<and> \<not> opt_less (rv_rated_at r) (rv_rated_at s))) \<and>
   (\<exists>r \<in> {t, s}. rv_body_md (settle_review t s) = rv_body_md r \<and> rv_spoiler (settle_review t s) = rv_spoiler r \<and>
      (rv_body_md t \<noteq> None \<and> rv_body_md s \<noteq> None \<longrightarrow>
        rv_updated_at t \<le> rv_updated_at r \<and> rv_updated_at s \<le> rv_updated_at r)) \<and>
   (\<forall>n. rv_notes_md t = Some n \<or> rv_notes_md s = Some n \<longrightarrow>
      (\<exists>before after. rv_notes_md (settle_review t s) = Some (before @ n @ after))) \<and>
   (is_public t \<and> \<not> is_public s \<longrightarrow> rv_updated_at (settle_review t s) = rv_updated_at t) \<and>
   (is_public s \<and> \<not> is_public t \<longrightarrow> rv_updated_at (settle_review t s) = rv_updated_at s)"
  (is "?stars \<and> ?body \<and> ?rated \<and> ?later \<and> ?newer \<and> ?notes \<and> ?mine \<and> ?theirs")
proof (intro conjI)
  show ?stars ?body by (simp_all add: settle_review_fields rated_side_stars written_side_body)
  show ?rated by (simp add: settle_review_fields restored_dates_def split: option.split)
  show ?later using rated_side_cases [of t s] rated_side_later [of t s]
    by (intro bexI [of _ "rated_side t s"]) (auto simp: settle_review_fields)
  show ?newer using written_side_cases [of t s] written_side_newer [of t s]
    by (intro bexI [of _ "written_side t s"]) (auto simp: settle_review_fields)
  show ?notes using settle_review_notes [of t s] joined_notes_keep [of t _ s] joined_notes_keep [of s _ t] by metis
  show ?mine ?theirs using settle_review_seen by blast+
qed

text \<open>A shared reader: stars on one book, a later review on the other.\<close>

definition shelf_review :: review_row where
  "shelf_review = \<lparr>rv_user_id = 1, rv_half_stars = Some 8, rv_body_md = None, rv_notes_md = Some [65],
     rv_spoiler = False, rv_rated_at = Some 10, rv_created_at = Some 10, rv_updated_at = 10\<rparr>"

definition later_review :: review_row where
  "later_review = \<lparr>rv_user_id = 1, rv_half_stars = Some 6, rv_body_md = Some [66], rv_notes_md = Some [67],
     rv_spoiler = True, rv_rated_at = Some 20, rv_created_at = Some 15, rv_updated_at = 20\<rparr>"

theorem settled_review_keeps_both_witness:
  "rv_notes_md (settle_review shelf_review later_review) = Some [67, 10, 10, 65] \<and>
   rv_half_stars (settle_review shelf_review later_review) = Some 6 \<and>
   (\<exists>x y. rv_notes_md (settle_review shelf_review later_review) = Some (x @ [65] @ y)) \<and>
   (\<exists>x y. rv_notes_md (settle_review shelf_review later_review) = Some (x @ [67] @ y))"
proof -
  have "rv_notes_md shelf_review = Some [65]" "rv_notes_md later_review = Some [67]"
    by (simp_all add: shelf_review_def later_review_def)
  then have "(\<exists>x y. rv_notes_md (settle_review shelf_review later_review) = Some (x @ [65] @ y)) \<and>
      (\<exists>x y. rv_notes_md (settle_review shelf_review later_review) = Some (x @ [67] @ y))"
    using settled_review_keeps_both [of shelf_review later_review] by blast
  moreover have "rv_notes_md (settle_review shelf_review later_review) = Some [67, 10, 10, 65] \<and>
      rv_half_stars (settle_review shelf_review later_review) = Some 6"
    by code_simp
  ultimately show ?thesis by blast
qed

subsection \<open>What a merge leaves each reader\<close>

lemma merge_rows:
  assumes ne: "src \<noteq> tgt" and ks: "keyed sr_user_id (cu_status db)" and kr: "keyed rv_user_id (cu_reviews db)"
  shows "row_of sr_user_id (cu_status (move_curation src tgt db)) b u =
      (if b = src then None
       else if b \<noteq> tgt then row_of sr_user_id (cu_status db) b u
       else case (row_of sr_user_id (cu_status db) src u, row_of sr_user_id (cu_status db) tgt u) of
              (Some s, Some t) \<Rightarrow> Some (if sr_updated_at s > sr_updated_at t then s else t)
            | (Some s, None) \<Rightarrow> Some s
            | (None, t) \<Rightarrow> t) \<and>
    row_of rv_user_id (cu_reviews (move_curation src tgt db)) b u =
      (if b = src then None
       else if b \<noteq> tgt then row_of rv_user_id (cu_reviews db) b u
       else case (row_of rv_user_id (cu_reviews db) src u, row_of rv_user_id (cu_reviews db) tgt u) of
              (Some s, Some t) \<Rightarrow> Some (dated (settle_review t s))
            | (Some s, None) \<Rightarrow> Some s
            | (None, t) \<Rightarrow> t)"
proof
  note S = settled_table_ok [OF ks ne] settled_table_both [OF ks ne] settled_table_moved [OF ks ne]
  show "row_of sr_user_id (cu_status (move_curation src tgt db)) b u =
      (if b = src then None
       else if b \<noteq> tgt then row_of sr_user_id (cu_status db) b u
       else case (row_of sr_user_id (cu_status db) src u, row_of sr_user_id (cu_status db) tgt u) of
              (Some s, Some t) \<Rightarrow> Some (if sr_updated_at s > sr_updated_at t then s else t)
            | (Some s, None) \<Rightarrow> Some s
            | (None, t) \<Rightarrow> t)"
    by (cases "row_of sr_user_id (cu_status db) src u"; cases "row_of sr_user_id (cu_status db) tgt u")
      (auto simp: move_curation_eq S)
next
  let ?db = "settle_reviews src tgt db"
  have k: "keyed rv_user_id (cu_reviews ?db)" and rows: "row_of rv_user_id (cu_reviews ?db) b u =
      (case (row_of rv_user_id (cu_reviews db) src u, row_of rv_user_id (cu_reviews db) tgt u) of
         (Some s, Some t) \<Rightarrow> if b = tgt then Some (dated (settle_review t s)) else row_of rv_user_id (cu_reviews db) b u
       | _ \<Rightarrow> row_of rv_user_id (cu_reviews db) b u)" for b
    using settle_reviews_rows [OF kr] by blast+
  note R = settled_table_ok [OF k ne] settled_table_both [OF k ne] settled_table_moved [OF k ne]
  show "row_of rv_user_id (cu_reviews (move_curation src tgt db)) b u =
      (if b = src then None
       else if b \<noteq> tgt then row_of rv_user_id (cu_reviews db) b u
       else case (row_of rv_user_id (cu_reviews db) src u, row_of rv_user_id (cu_reviews db) tgt u) of
              (Some s, Some t) \<Rightarrow> Some (dated (settle_review t s))
            | (Some s, None) \<Rightarrow> Some s
            | (None, t) \<Rightarrow> t)"
    using ne
    by (cases "row_of rv_user_id (cu_reviews db) src u"; cases "row_of rv_user_id (cu_reviews db) tgt u")
      (auto simp: move_curation_eq R rows split: option.split)
qed

text \<open>
  after a merge no reader has a status or a review on the source book, other books' rows are as
  they were, and on the target a reader of one of the two books has that book's row, a reader of both
  has the status marked later (the target's on a tie) and the two reviews folded into one.
\<close>

theorem merge_settles_each_reader:
  assumes ne: "src \<noteq> tgt" and ks: "keyed sr_user_id (cu_status db)" and kr: "keyed rv_user_id (cu_reviews db)"
  shows "row_of sr_user_id (cu_status (move_curation src tgt db)) b u =
      (if b = src then None
       else if b \<noteq> tgt then row_of sr_user_id (cu_status db) b u
       else case (row_of sr_user_id (cu_status db) src u, row_of sr_user_id (cu_status db) tgt u) of
              (Some s, Some t) \<Rightarrow> Some (if sr_updated_at s > sr_updated_at t then s else t)
            | (Some s, None) \<Rightarrow> Some s
            | (None, t) \<Rightarrow> t) \<and>
    row_of rv_user_id (cu_reviews (move_curation src tgt db)) b u =
      (if b = src then None
       else if b \<noteq> tgt then row_of rv_user_id (cu_reviews db) b u
       else case (row_of rv_user_id (cu_reviews db) src u, row_of rv_user_id (cu_reviews db) tgt u) of
              (Some s, Some t) \<Rightarrow> Some (dated (settle_review t s))
            | (Some s, None) \<Rightarrow> Some s
            | (None, t) \<Rightarrow> t)"
  using assms by (rule merge_rows)

text \<open>Two books, three readers: one of both books, one of each.\<close>

definition status_at :: "int \<Rightarrow> int \<Rightarrow> read_status_row" where
  "status_at u at = \<lparr>sr_user_id = u, sr_status = [114], sr_updated_at = at, sr_finished_at = None, sr_auto_started = False\<rparr>"

definition two_books :: curation_db where
  "two_books =
     \<lparr>cu_status = [([1], status_at 1 20), ([2], status_at 1 10), ([1], status_at 2 5), ([2], status_at 3 5), ([3], status_at 1 7)],
      cu_reviews = [([2], shelf_review), ([1], later_review), ([1], later_review\<lparr>rv_user_id := 2\<rparr>)]\<rparr>"

theorem merge_settles_each_reader_witness:
  "row_of sr_user_id (cu_status (move_curation [1] [2] two_books)) [2] 1 = Some (status_at 1 20) \<and>
   row_of rv_user_id (cu_reviews (move_curation [1] [2] two_books)) [2] 1 = Some (dated (settle_review shelf_review later_review))"
proof -
  have "[1::int] \<noteq> [2]" by simp
  have "keyed sr_user_id (cu_status two_books)" "keyed rv_user_id (cu_reviews two_books)"
    by (simp_all add: keyed_def two_books_def status_at_def shelf_review_def later_review_def)
  then show ?thesis
    using merge_settles_each_reader [of "[1]" "[2]" two_books "[2]" 1]
    by (simp add: two_books_def status_at_def shelf_review_def later_review_def)
qed

subsection \<open>What an undo does\<close>

lemma conflict_undo: "\<exists>e. conflict what why = UndoConflict e"
  by (cases why) auto

lemma undo_conflicts:
  "restore_curation src tgt snap live claimed_status claimed_ratings db = Inl why \<Longrightarrow> \<exists>e. why = UndoConflict e"
  using conflict_undo
  by (fastforce simp: restore_curation_def restore_status_def restore_ratings_def split: sum.splits)

lemma undo_refused:
  "(\<exists>e. restore_curation src tgt snap live claimed_status claimed_ratings db = Inl (UndoConflict e)) \<longleftrightarrow>
     (\<exists>r \<in> set (source_status snap). sr_user_id r \<in> set live \<and>
        (sr_user_id r \<in> set claimed_status \<or>
         \<not> says_the_same same_status (by_user sr_user_id (merged_status snap) (sr_user_id r))
             (by_user sr_user_id (load_status tgt db) (sr_user_id r)))) \<or>
     (\<exists>r \<in> set (source_ratings snap). rv_user_id r \<in> set live \<and>
        (rv_user_id r \<in> set claimed_ratings \<or>
         \<not> says_the_same same_review (by_user rv_user_id (merged_ratings snap) (rv_user_id r))
             (by_user rv_user_id (load_ratings tgt db) (rv_user_id r))))"
  (is "?refused \<longleftrightarrow> (\<exists>r \<in> _. ?bad_status r) \<or> (\<exists>r \<in> _. ?bad_review r)")
proof -
  let ?ps = "plan_restore sr_user_id same_status (source_status snap) (target_status snap) (merged_status snap)
    (load_status tgt db) live claimed_status"
  let ?pr = "plan_restore rv_user_id same_review (source_ratings snap) (target_ratings snap) (merged_ratings snap)
    (load_ratings tgt db) live claimed_ratings"
  have s: "(\<exists>why. ?ps = Inl why) \<longleftrightarrow> (\<exists>r \<in> set (source_status snap). ?bad_status r)"
    by (simp add: plan_restore_refused settles_def)
  have r: "(\<exists>why. ?pr = Inl why) \<longleftrightarrow> (\<exists>r \<in> set (source_ratings snap). ?bad_review r)"
    by (simp add: plan_restore_refused settles_def)
  have "load_ratings tgt (db\<lparr>cu_status := t\<rparr>) = load_ratings tgt db" for t by (simp add: load_ratings_def)
  then have "?refused \<longleftrightarrow> (\<exists>why. ?ps = Inl why) \<or> (\<exists>why. ?pr = Inl why)"
    using conflict_undo unfolding restore_curation_def restore_status_def restore_ratings_def
    by (cases ?ps; cases ?pr) auto
  then show ?thesis by (simp only: s r)
qed

text \<open>
  The undo as a map: the rows of the readers it settles are those of the snapshot on both books, every
  other row is the one it finds.
\<close>

definition review_sound :: "review_row \<Rightarrow> bool" where
  "review_sound r \<longleftrightarrow> (rv_half_stars r = None \<longleftrightarrow> rv_rated_at r = None) \<and> rv_created_at r \<noteq> None"

lemma dated_sound: "review_sound r \<Longrightarrow> dated r = r"
  by (cases r) (auto simp: review_sound_def dated_def restored_dates_def split: option.splits)

lemma undo_settles_each_reader:
  assumes ne: "src \<noteq> tgt" and ks: "keyed sr_user_id (cu_status db)" and kr: "keyed rv_user_id (cu_reviews db)"
    and sound: "\<And>b r. (b, r) \<in> set (cu_reviews db) \<Longrightarrow> review_sound r"
    and undo: "restore_curation src tgt (capture_curation_post tgt merged (capture_curation_pre src tgt db))
      live claimed_status claimed_ratings now = Inr db'"
  shows "row_of sr_user_id (cu_status db') b u =
      (if u \<in> set live \<and> row_of sr_user_id (cu_status db) src u \<noteq> None \<and> b \<in> {src, tgt}
       then row_of sr_user_id (cu_status db) b u else row_of sr_user_id (cu_status now) b u)"
    "row_of rv_user_id (cu_reviews db') b u =
      (if u \<in> set live \<and> row_of rv_user_id (cu_reviews db) src u \<noteq> None \<and> b \<in> {src, tgt}
       then row_of rv_user_id (cu_reviews db) b u else row_of rv_user_id (cu_reviews now) b u)"
proof -
  let ?ss = "load_rows sr_user_id src (cu_status db)" and ?st = "load_rows sr_user_id tgt (cu_status db)"
  let ?rs = "load_rows rv_user_id src (cu_reviews db)" and ?rt = "load_rows rv_user_id tgt (cu_reviews db)"
  from undo obtain p q where
    p: "plan_restore sr_user_id same_status ?ss ?st (load_status tgt merged) (load_status tgt now) live claimed_status = Inr p" and
    q: "plan_restore rv_user_id same_review ?rs ?rt (load_ratings tgt merged) (load_ratings tgt now) live claimed_ratings = Inr q" and
    db': "cu_status db' = apply_plan sr_user_id (upsert_row sr_user_id) src tgt p (cu_status now)"
      "cu_reviews db' = apply_plan rv_user_id write_review src tgt q (cu_reviews now)"
    by (auto simp: restore_curation_def restore_status_def restore_ratings_def capture_curation_pre_def
        capture_curation_post_def load_status_def load_ratings_def split: sum.splits)
  show "row_of sr_user_id (cu_status db') b u =
      (if u \<in> set live \<and> row_of sr_user_id (cu_status db) src u \<noteq> None \<and> b \<in> {src, tgt}
       then row_of sr_user_id (cu_status db) b u else row_of sr_user_id (cu_status now) b u)"
    unfolding db' using apply_plan_rows [OF ne load_rows_distinct [OF ks] refl p, of "cu_status now" b u]
    by (auto simp: by_user_load [OF ks])
  have put: "write_review b r tbl = upsert_row rv_user_id b r tbl" if "r \<in> set ?rs \<union> set ?rt" for b r tbl
    using that sound by (auto simp: write_review_def dated_sound load_rows_mem)
  show "row_of rv_user_id (cu_reviews db') b u =
      (if u \<in> set live \<and> row_of rv_user_id (cu_reviews db) src u \<noteq> None \<and> b \<in> {src, tgt}
       then row_of rv_user_id (cu_reviews db) b u else row_of rv_user_id (cu_reviews now) b u)"
    unfolding db' using apply_plan_rows [OF ne load_rows_distinct [OF kr] put q, of "cu_reviews now" b u]
    by (auto simp: by_user_load [OF kr])
qed

text \<open>
  C7: a merge undone before anyone touches either book gives every reader back the status and the review
  they had on each of the two books, and leaves every other book's rows alone, as long as the
  reviews satisfy their table's constraints and every reader of the source book still has an account.
\<close>

theorem curation_undo_round_trip:
  assumes ne: "src \<noteq> tgt" and ks: "keyed sr_user_id (cu_status db)" and kr: "keyed rv_user_id (cu_reviews db)"
    and sound: "list_all (\<lambda>(b, r). review_sound r) (cu_reviews db)"
    and live: "list_all (\<lambda>(b, r). sr_user_id r \<in> set live) (cu_status db)"
      "list_all (\<lambda>(b, r). rv_user_id r \<in> set live) (cu_reviews db)"
  defines "merged \<equiv> move_curation src tgt db"
  shows "\<exists>db'. restore_curation src tgt (capture_curation_post tgt merged (capture_curation_pre src tgt db)) live [] [] merged
      = Inr db' \<and>
    (\<forall>b u. row_of sr_user_id (cu_status db') b u = row_of sr_user_id (cu_status db) b u) \<and>
    (\<forall>b u. row_of rv_user_id (cu_reviews db') b u = row_of rv_user_id (cu_reviews db) b u)"
proof -
  let ?snap = "capture_curation_post tgt merged (capture_curation_pre src tgt db)"
  let ?undo = "restore_curation src tgt ?snap live [] [] merged"
  have same: "says_the_same same_status a a" "says_the_same same_review b b" for a b
    by (simp_all add: says_the_same_def same_status_def same_review_def split: option.split)
  have "merged_status ?snap = load_status tgt merged" "merged_ratings ?snap = load_ratings tgt merged"
    by (simp_all add: capture_curation_post_def)
  moreover note undo_conflicts [of src tgt ?snap live "[]" "[]" merged]
  ultimately obtain db' where undo: "?undo = Inr db'"
    using undo_refused [of src tgt ?snap live "[]" "[]" merged] same
    by (cases ?undo) (auto simp: capture_curation_post_def)
  have s: "review_sound r" if "(b, r) \<in> set (cu_reviews db)" for b r
    using sound that by (auto simp: list_all_iff)
  have users: "u \<in> set live" if "row_of sr_user_id (cu_status db) b u = Some r" for b u r
    using live that by (auto simp: list_all_iff row_of_mem [OF ks])
  have readers: "u \<in> set live" if "row_of rv_user_id (cu_reviews db) b u = Some r" for b u r
    using live that by (auto simp: list_all_iff row_of_mem [OF kr])
  note rows = undo_settles_each_reader [OF ne ks kr s undo] and after = merge_rows [OF ne ks kr]
  have "row_of sr_user_id (cu_status db') b u = row_of sr_user_id (cu_status db) b u" for b u
    using users by (cases "row_of sr_user_id (cu_status db) src u") (auto simp: rows merged_def after)
  moreover have "row_of rv_user_id (cu_reviews db') b u = row_of rv_user_id (cu_reviews db) b u" for b u
    using readers by (cases "row_of rv_user_id (cu_reviews db) src u") (auto simp: rows merged_def after)
  ultimately show ?thesis using undo by blast
qed

theorem curation_undo_round_trip_witness:
  "\<exists>db'. restore_curation [1] [2]
      (capture_curation_post [2] (move_curation [1] [2] two_books) (capture_curation_pre [1] [2] two_books)) [1, 2, 3] [] []
      (move_curation [1] [2] two_books) = Inr db' \<and>
    row_of sr_user_id (cu_status db') [2] 1 = Some (status_at 1 10) \<and>
    row_of rv_user_id (cu_reviews db') [1] 1 = Some later_review"
proof -
  have "[1::int] \<noteq> [2]" by simp
  have "keyed sr_user_id (cu_status two_books)" "keyed rv_user_id (cu_reviews two_books)"
    "list_all (\<lambda>(b, r). review_sound r) (cu_reviews two_books)"
    "list_all (\<lambda>(b, r). sr_user_id r \<in> set [1, 2, 3]) (cu_status two_books)"
    "list_all (\<lambda>(b, r). rv_user_id r \<in> set [1, 2, 3]) (cu_reviews two_books)"
    by (simp_all add: keyed_def two_books_def status_at_def shelf_review_def later_review_def review_sound_def)
  moreover have "row_of sr_user_id (cu_status two_books) [2] 1 = Some (status_at 1 10)"
    "row_of rv_user_id (cu_reviews two_books) [1] 1 = Some later_review"
    by (simp_all add: two_books_def status_at_def shelf_review_def later_review_def)
  ultimately show ?thesis
    using curation_undo_round_trip [of "[1]" "[2]" two_books "[1, 2, 3]"] by auto
qed

end
