(* ===== verification/Civil_Date.thy ===== *)
theory Civil_Date
  imports Omni_Prelude
begin

text \<open>
  Unix seconds as civil dates and as sortable text (\<open>shared/src/timestamp.rs\<close>). The i64 of the
  code is an integer here: the largest intermediate, \<open>days + 719468\<close>, is below \<open>2 ^ 47\<close> in size.
\<close>

subsection \<open>The code\<close>

type_synonym date = "int \<times> int \<times> int"

definition year_of_era :: "int \<Rightarrow> int" where
  "year_of_era doe = (doe - doe div 1460 + doe div 36524 - doe div 146096) div 365"

definition month_day :: "int \<Rightarrow> int \<times> int" where
  "month_day doy =
     (let mp = (5 * doy + 2) div 153
      in (if mp < 10 then mp + 3 else mp - 9, doy - (153 * mp + 2) div 5 + 1))"

definition civil_from_days :: "int \<Rightarrow> date" where
  "civil_from_days days =
     (let z = days + 719468;
          era = z div 146097;
          doe = z mod 146097;
          yoe = year_of_era doe;
          y = yoe + era * 400;
          doy = doe - (365 * yoe + yoe div 4 - yoe div 100);
          (m, d) = month_day doy
      in (if m \<le> 2 then y + 1 else y, m, d))"

text \<open>\<open>{n:0w}\<close> of a number that is not negative.\<close>

definition zero_pad :: "nat \<Rightarrow> int \<Rightarrow> ustr" where
  "zero_pad w n = (let s = show_nat (nat n) in replicate (w - length s) 48 @ s)"

definition show_year :: "int \<Rightarrow> ustr" where
  "show_year year =
     (if 0 \<le> year \<and> year \<le> 9999 then zero_pad 4 year
      else if year > 9999 then 43 # show_int year
      else 45 # zero_pad 4 (- year))"

definition to_iso8601 :: "int \<Rightarrow> ustr" where
  "to_iso8601 seconds =
     (let days = seconds div 86400;
          secs_of_day = seconds mod 86400;
          (year, month, day) = civil_from_days days
      in show_year year @ [45] @ zero_pad 2 month @ [45] @ zero_pad 2 day @ [84] @
         zero_pad 2 (secs_of_day div 3600) @ [58] @ zero_pad 2 (secs_of_day mod 3600 div 60) @ [58] @
         zero_pad 2 (secs_of_day mod 60) @ [90])"

definition to_iso8601_opt :: "int option \<Rightarrow> ustr option" where
  "to_iso8601_opt seconds = map_option to_iso8601 seconds"

subsection \<open>The calendar it stands for\<close>

definition leap_year :: "int \<Rightarrow> bool" where
  "leap_year y \<longleftrightarrow> 4 dvd y \<and> (\<not> 100 dvd y \<or> 400 dvd y)"

definition month_length :: "int \<Rightarrow> int \<Rightarrow> int" where
  "month_length y m = (if m = 2 then if leap_year y then 29 else 28 else if m \<in> {4, 6, 9, 11} then 30 else 31)"

fun next_day :: "date \<Rightarrow> date" where
  "next_day (y, m, d) =
     (if d < month_length y m then (y, m, d + 1) else if m < 12 then (y, m + 1, 1) else (y + 1, 1, 1))"

fun valid_date :: "date \<Rightarrow> bool" where
  "valid_date (y, m, d) \<longleftrightarrow> 1 \<le> m \<and> m \<le> 12 \<and> 1 \<le> d \<and> d \<le> month_length y m"

subsection \<open>The year of an era\<close>

text \<open>The day of the era on which the year \<open>y\<close>, counted from March, begins and the one after its last.\<close>

definition year_start :: "int \<Rightarrow> int" where
  "year_start y = 365 * y + y div 4 - y div 100"

definition year_end :: "int \<Rightarrow> int" where
  "year_end y = (if y = 399 then 146097 else year_start (y + 1))"

lemma div_step: "0 < n \<Longrightarrow> 0 \<le> k \<Longrightarrow> (a + k) div n \<le> a div n + (k :: int)"
proof -
  assume n: "0 < n" and k: "0 \<le> k"
  have "a < (a div n + 1) * n" using n by (simp add: algebra_simps) (metis add.commute add_less_cancel_left div_mult_mod_eq mult.commute pos_mod_bound)
  moreover have "k \<le> k * n" using n k by (simp add: mult_le_cancel_left1)
  ultimately have "a + k < (a div n + k + 1) * n" by (simp add: algebra_simps)
  moreover have "(a + k) div n * n \<le> a + k" using n by (metis add_diff_cancel_right' div_mult_mod_eq le_add_same_cancel1 pos_mod_sign)
  ultimately have "(a + k) div n * n < (a div n + k + 1) * n" by linarith
  then show ?thesis using n by simp
qed

lemma year_of_era_mono: "0 \<le> a \<Longrightarrow> a \<le> b \<Longrightarrow> b < 146096 \<Longrightarrow> year_of_era a \<le> year_of_era b"
proof -
  assume "0 \<le> a" "a \<le> b" "b < 146096"
  moreover from this have "b div 1460 \<le> a div 1460 + (b - a)" using div_step [of 1460 "b - a" a] by simp
  moreover have "a div 36524 \<le> b div 36524" using \<open>a \<le> b\<close> by (intro zdiv_mono1) auto
  ultimately show ?thesis unfolding year_of_era_def by (intro zdiv_mono1) auto
qed

lemma year_ends:
  "0 \<le> y \<Longrightarrow> y \<le> 399 \<Longrightarrow> year_of_era (year_start y) = y \<and> year_of_era (year_end y - 1) = y \<and>
     0 \<le> year_start y \<and> year_start y < year_end y \<and> year_end y \<le> 146097"
proof -
  have "list_all (\<lambda>y. year_of_era (year_start y) = y \<and> year_of_era (year_end y - 1) = y \<and>
     0 \<le> year_start y \<and> year_start y < year_end y \<and> year_end y \<le> 146097) [0..399]"
    by code_simp
  then show "0 \<le> y \<Longrightarrow> y \<le> 399 \<Longrightarrow> ?thesis" by (simp add: list_all_iff)
qed

text \<open>Every day of the era lies in one year, and the closed formula finds it.\<close>

lemma year_exists: "0 \<le> doe \<Longrightarrow> doe < 146097 \<Longrightarrow> \<exists>y. 0 \<le> y \<and> y \<le> 399 \<and> year_start y \<le> doe \<and> doe < year_end y"
proof -
  assume doe: "0 \<le> doe" "doe < 146097"
  have "\<exists>y. 0 \<le> y \<and> y \<le> 399 \<and> year_start y \<le> doe \<and> doe < year_end y" if "k \<le> 399" "doe < year_end (int k)" for k :: nat
    using that
  proof (induction k)
    case 0
    then show ?case using doe by (intro exI [of _ 0]) (simp add: year_start_def)
  next
    case (Suc k)
    show ?case
    proof (cases "year_start (int (Suc k)) \<le> doe")
      case True
      with Suc.prems show ?thesis by (intro exI [of _ "int (Suc k)"]) simp
    next
      case False
      then have "doe < year_end (int k)" using Suc.prems(1) by (simp add: year_end_def add.commute)
      with Suc show ?thesis by simp
    qed
  qed
  from this [of 399] doe(2) show ?thesis by (simp add: year_end_def)
qed

lemma year_of_era_in:
  assumes y: "0 \<le> y" "y \<le> 399" and doe: "year_start y \<le> doe" "doe < year_end y"
  shows "year_of_era doe = y"
proof (cases "doe = 146096")
  case True
  have early: "year_end z \<le> 146096" if "0 \<le> z" "z \<le> 398" for z
  proof -
    have "year_end z = year_start (z + 1)" using that by (simp add: year_end_def)
    also have "\<dots> < year_end (z + 1)" using year_ends [of "z + 1"] that by simp
    also have "\<dots> \<le> 146097" using year_ends [of "z + 1"] that by simp
    finally show ?thesis by simp
  qed
  have "y = 399"
  proof (rule ccontr)
    assume "y \<noteq> 399"
    with y early [of y] doe True show False by simp
  qed
  with True show ?thesis using year_ends [of 399] by (simp add: year_end_def)
next
  case False
  note e = year_ends [OF y]
  with doe False have "doe < 146096" by simp
  then have "year_of_era (year_start y) \<le> year_of_era doe" using e doe by (intro year_of_era_mono) auto
  moreover have "year_of_era doe \<le> year_of_era (year_end y - 1)"
  proof (cases "year_end y = 146097")
    case True
    have "year_of_era doe \<le> year_of_era 146095" using e doe \<open>doe < 146096\<close> by (intro year_of_era_mono) auto
    moreover have "year_of_era 146095 = year_of_era (146097 - 1)" by code_simp
    ultimately show ?thesis using True by simp
  next
    case False
    then show ?thesis using e doe by (intro year_of_era_mono) auto
  qed
  ultimately show ?thesis using e by simp
qed

subsection \<open>The day after\<close>

lemma div_succ: "0 < n \<Longrightarrow> (y + 1) div n = y div n + (if n dvd y + 1 then 1 else 0 :: int)"
proof -
  assume n: "0 < n"
  have y: "y + 1 = y div n * n + (y mod n + 1)" by (simp add: minus_mod_eq_div_mult [symmetric])
  have q: "(y div n * n + r) div n = y div n + r div n" "n dvd y div n * n + r \<longleftrightarrow> n dvd r" for r
    using n by (simp_all add: dvd_add_right_iff)
  show ?thesis
  proof (cases "y mod n + 1 = n")
    case True
    then show ?thesis using n unfolding y q by simp
  next
    case False
    moreover have "0 \<le> y mod n" "y mod n < n" using n by simp_all
    ultimately have "0 < y mod n + 1" "y mod n + 1 < n" by simp_all
    then show ?thesis unfolding y q using zdvd_not_zless by (auto simp: div_pos_pos_trivial)
  qed
qed

lemma year_lengths:
  assumes "0 \<le> y" "y \<le> 399"
  shows "year_end y - year_start y = (if leap_year (y + 1) then 366 else 365)"
proof (cases "y = 399")
  case True
  then show ?thesis by (simp add: year_end_def year_start_def leap_year_def)
next
  case False
  with assms have "\<not> 400 dvd y + 1" using zdvd_imp_le [of 400 "y + 1"] by auto
  moreover have "4 dvd y + 1" if "100 dvd y + 1" using that by (rule dvd_trans [rotated]) simp
  moreover have "year_end y - year_start y =
      365 + (if 4 dvd y + 1 then 1 else 0) - (if 100 dvd y + 1 then 1 else 0)"
    using False div_succ [of 4 y] div_succ [of 100 y] by (simp add: year_end_def year_start_def)
  ultimately show ?thesis by (cases "4 dvd y + 1"; cases "100 dvd y + 1") (simp_all add: leap_year_def)
qed

lemma leap_year_era: "leap_year (y + era * 400) \<longleftrightarrow> leap_year y"
proof -
  have "4 dvd era * 400" "100 dvd era * 400" "400 dvd era * 400" for era :: int by (rule dvd_mult, simp)+
  then show ?thesis unfolding leap_year_def by (simp only: dvd_add_left_iff)
qed

text \<open>The days of a year that begins in March, up to the 28th of February.\<close>

lemma month_day_table:
  "0 \<le> doy \<Longrightarrow> doy \<le> 363 \<Longrightarrow> month_day doy = (m, d) \<Longrightarrow>
     (m = 2 \<longrightarrow> d < 28) \<and>
     month_day (doy + 1) =
       (if m = 2 \<or> d < (if m \<in> {4, 6, 9, 11} then 30 else 31) then (m, d + 1) else if m < 12 then (m + 1, 1) else (1, 1))"
proof -
  have table: "list_all (\<lambda>doy. case month_day doy of (m, d) \<Rightarrow> (m = 2 \<longrightarrow> d < 28) \<and>
     month_day (doy + 1) =
       (if m = 2 \<or> d < (if m \<in> {4, 6, 9, 11} then 30 else 31) then (m, d + 1) else if m < 12 then (m + 1, 1) else (1, 1)))
     [0..363]"
    by code_simp
  assume "0 \<le> doy" "doy \<le> 363" "month_day doy = (m, d)"
  with table [unfolded list_all_iff, rule_format, of doy] show ?thesis by simp
qed

lemma month_day_ends: "month_day 0 = (3, 1)" "month_day 364 = (2, 28)" "month_day 365 = (2, 29)"
  by code_simp+

definition civil_at :: "int \<Rightarrow> int \<Rightarrow> int \<Rightarrow> date" where
  "civil_at era y doy = (let (m, d) = month_day doy in (if m \<le> 2 then y + era * 400 + 1 else y + era * 400, m, d))"

lemma civil_parts:
  assumes "0 \<le> y" "y \<le> 399" "0 \<le> doy" "doy < year_end y - year_start y"
  shows "civil_from_days (era * 146097 + year_start y + doy - 719468) = civil_at era y doy"
proof -
  note e = year_ends [OF assms(1,2)]
  have doe: "0 \<le> year_start y + doy" "year_start y + doy < 146097" using e assms by auto
  then have "(era * 146097 + year_start y + doy) div 146097 = era" "(era * 146097 + year_start y + doy) mod 146097 = year_start y + doy"
    by (simp_all add: add.assoc)
  moreover have "year_of_era (year_start y + doy) = y" using assms by (intro year_of_era_in) auto
  ultimately show ?thesis
    unfolding civil_from_days_def civil_at_def Let_def year_start_def [symmetric] diff_add_cancel by (simp cong: if_cong)
qed

lemma civil_parts_ex:
  "\<exists>era y doy. 0 \<le> y \<and> y \<le> 399 \<and> 0 \<le> doy \<and> doy < year_end y - year_start y \<and>
     n = era * 146097 + year_start y + doy - 719468"
proof -
  let ?doe = "(n + 719468) mod 146097"
  obtain y where "0 \<le> y" "y \<le> 399" "year_start y \<le> ?doe" "?doe < year_end y"
    using year_exists [of ?doe] by auto
  then show ?thesis
    by (intro exI [of _ "(n + 719468) div 146097"] exI [of _ y] exI [of _ "?doe - year_start y"])
      (simp add: minus_mod_eq_div_mult [symmetric])
qed

lemma civil_from_days_next: "civil_from_days (n + 1) = next_day (civil_from_days n)"
proof -
  obtain era y doy where p: "0 \<le> y" "y \<le> 399" "0 \<le> doy" "doy < year_end y - year_start y"
    and n: "n = era * 146097 + year_start y + doy - 719468"
    using civil_parts_ex by blast
  note len = year_lengths [OF p(1,2)]
  have leap: "leap_year (y + era * 400 + 1) \<longleftrightarrow> leap_year (y + 1)"
    using leap_year_era [of "y + 1" era] by (simp add: algebra_simps)
  have cur: "civil_from_days n = civil_at era y doy" unfolding n by (rule civil_parts [OF p])
  obtain m d where md: "month_day doy = (m, d)" by (cases "month_day doy")
  show ?thesis
  proof (cases "doy + 1 < year_end y - year_start y")
    case True
    have "civil_from_days (n + 1) = civil_at era y (doy + 1)"
      using civil_parts [OF p(1,2), of "doy + 1" era] p True by (simp add: n algebra_simps)
    moreover have "doy \<le> 363 \<or> doy = 364 \<and> leap_year (y + 1)" using True len p by (auto split: if_splits)
    ultimately show ?thesis
      using month_day_table [OF p(3) _ md] md month_day_ends leap unfolding cur
      by (auto simp: civil_at_def month_length_def)
  next
    case False
    then have last: "doy + 1 = year_end y - year_start y" using p by simp
    have after: "civil_from_days (n + 1) = (if y = 399 then civil_at (era + 1) 0 0 else civil_at era (y + 1) 0)"
    proof (cases "y = 399")
      case True
      have n1: "n + 1 = (era + 1) * 146097 + year_start 0 + 0 - 719468"
        using last True by (simp add: n year_end_def year_start_def algebra_simps)
      have "0 < year_end 0 - year_start 0" using year_ends [of 0] by simp
      then show ?thesis using civil_parts [of 0 0 "era + 1"] True unfolding n1 by simp
    next
      case False
      have n1: "n + 1 = era * 146097 + year_start (y + 1) + 0 - 719468"
        using last False by (simp add: n year_end_def)
      have "0 < year_end (y + 1) - year_start (y + 1)" using year_ends [of "y + 1"] p False by simp
      then show ?thesis using civil_parts [of "y + 1" 0 era] p False unfolding n1 by simp
    qed
    have "doy = (if leap_year (y + 1) then 365 else 364)" using last len by (auto split: if_splits)
    then show ?thesis
      unfolding after cur using month_day_ends leap by (auto simp: civil_at_def month_length_def)
  qed
qed

subsection \<open>Dates in order\<close>

fun date_less :: "date \<Rightarrow> date \<Rightarrow> bool" where
  "date_less (y, m, d) (y', m', d') \<longleftrightarrow> y < y' \<or> y = y' \<and> (m < m' \<or> m = m' \<and> d < d')"

lemma date_less_trans: "date_less a b \<Longrightarrow> date_less b c \<Longrightarrow> date_less a c"
  by (cases a; cases b; cases c) auto

lemma date_less_irrefl: "\<not> date_less a a"
  by (cases a) auto

lemma next_day_less: "date_less a (next_day a)"
  by (cases a) auto

lemma month_day_valid:
  "0 \<le> doy \<Longrightarrow> doy \<le> 365 \<Longrightarrow> month_day doy = (m, d) \<Longrightarrow>
     1 \<le> m \<and> m \<le> 12 \<and> 1 \<le> d \<and> d \<le> (if m = 2 then if doy = 365 then 29 else 28 else if m \<in> {4, 6, 9, 11} then 30 else 31)"
proof -
  have table: "list_all (\<lambda>doy. case month_day doy of (m, d) \<Rightarrow>
     1 \<le> m \<and> m \<le> 12 \<and> 1 \<le> d \<and> d \<le> (if m = 2 then if doy = 365 then 29 else 28 else if m \<in> {4, 6, 9, 11} then 30 else 31))
     [0..365]"
    by code_simp
  assume "0 \<le> doy" "doy \<le> 365" "month_day doy = (m, d)"
  with table [unfolded list_all_iff, rule_format, of doy] show ?thesis by simp
qed

lemma civil_valid: "valid_date (civil_from_days n)"
proof -
  obtain era y doy where p: "0 \<le> y" "y \<le> 399" "0 \<le> doy" "doy < year_end y - year_start y"
    and n: "n = era * 146097 + year_start y + doy - 719468"
    using civil_parts_ex by blast
  have leap: "leap_year (y + era * 400 + 1) \<longleftrightarrow> leap_year (y + 1)"
    using leap_year_era [of "y + 1" era] by (simp add: algebra_simps)
  obtain m d where md: "month_day doy = (m, d)" by (cases "month_day doy")
  have "doy \<le> 364 \<or> doy = 365 \<and> leap_year (y + 1)" using p year_lengths [OF p(1,2)] by (auto split: if_splits)
  then show ?thesis
    using month_day_valid [OF p(3) _ md] leap unfolding n civil_parts [OF p]
    by (auto simp: civil_at_def md month_length_def split: if_splits)
qed

lemma civil_mono: "a < b \<Longrightarrow> date_less (civil_from_days a) (civil_from_days b)"
proof -
  have "date_less (civil_from_days a) (civil_from_days (a + 1 + int k))" for k
  proof (induction k)
    case 0
    then show ?case using next_day_less by (simp add: civil_from_days_next)
  next
    case (Suc k)
    have "date_less (civil_from_days (a + 1 + int k)) (civil_from_days (a + 1 + int k + 1))"
      unfolding civil_from_days_next by (rule next_day_less)
    with Suc show ?case using date_less_trans by (simp add: algebra_simps)
  qed
  from this [of "nat (b - a - 1)"] show "a < b \<Longrightarrow> ?thesis" by simp
qed

lemma civil_less_iff: "date_less (civil_from_days a) (civil_from_days b) \<longleftrightarrow> a < b"
  using civil_mono date_less_trans date_less_irrefl by (metis linorder_less_linear)

lemma civil_inj: "civil_from_days a = civil_from_days b \<longleftrightarrow> a = b"
  using civil_mono date_less_irrefl by (metis linorder_less_linear)

text \<open>Going back within a month.\<close>

lemma civil_back:
  "civil_from_days n = (y, m, d) \<Longrightarrow> 0 \<le> k \<Longrightarrow> k < d \<Longrightarrow> civil_from_days (n - k) = (y, m, d - k)"
proof -
  assume n: "civil_from_days n = (y, m, d)"
  have "int k < d \<Longrightarrow> civil_from_days (n - int k) = (y, m, d - int k)" for k
  proof (induction k)
    case 0
    with n show ?case by simp
  next
    case (Suc k)
    then have IH: "civil_from_days (n - int k) = (y, m, d - int k)" by simp
    define z where "z = n - int (Suc k)"
    have z: "z + 1 = n - int k" by (simp add: z_def)
    obtain y' m' d' where p: "civil_from_days z = (y', m', d')" by (cases "civil_from_days z")
    have "next_day (y', m', d') = (y, m, d - int k)"
      using civil_from_days_next [of z] IH p unfolding z by simp
    then show ?case using Suc.prems p unfolding z_def [symmetric] by (auto split: if_splits)
  qed
  from this [of "nat k"] show "0 \<le> k \<Longrightarrow> k < d \<Longrightarrow> ?thesis" by simp
qed

text \<open>
  C11: day 0 is 1 January 1970 and each day's date is followed by the next one of the Gregorian
  calendar, leap days included, forwards and backwards without end: the division formula agrees with
  counting days.
\<close>

theorem dates_follow_the_calendar:
  "civil_from_days 0 = (1970, 1, 1) \<and> valid_date (civil_from_days n) \<and>
   civil_from_days (n + 1) = next_day (civil_from_days n) \<and>
   (a < b \<longleftrightarrow> date_less (civil_from_days a) (civil_from_days b))"
proof -
  have "civil_from_days 0 = (1970, 1, 1)" by code_simp
  then show ?thesis using civil_valid civil_from_days_next civil_less_iff by blast
qed

theorem dates_follow_the_calendar_witness:
  "civil_from_days 19782 = (2024, 2, 29) \<and> date_less (civil_from_days 19782) (civil_from_days 19783)"
proof -
  have "civil_from_days 19782 = (2024, 2, 29)" by code_simp
  then show ?thesis using dates_follow_the_calendar [of 0 19782 19783] by simp
qed

subsection \<open>Text in order\<close>

text \<open>Strings are compared as Rust and SQLite compare them: code point by code point.\<close>

fun str_less :: "ustr \<Rightarrow> ustr \<Rightarrow> bool" where
  "str_less s [] \<longleftrightarrow> False"
| "str_less [] (c # cs) \<longleftrightarrow> True"
| "str_less (a # s) (c # cs) \<longleftrightarrow> a < c \<or> a = c \<and> str_less s cs"

lemma str_less_append:
  "length a = length b \<Longrightarrow> str_less (a @ x) (b @ y) \<longleftrightarrow> str_less a b \<or> a = b \<and> str_less x y"
  by (induction a b rule: list_induct2) auto

lemma digits_value_Cons: "digits_value (c # cs) = (c - 48) * 10 ^ length cs + digits_value cs"
proof -
  have "foldl (\<lambda>a c. 10 * a + (c - 48)) b cs = b * 10 ^ length cs + foldl (\<lambda>a c. 10 * a + (c - 48)) 0 cs" for b :: nat
  proof (induction cs arbitrary: b)
    case (Cons x cs)
    show ?case using Cons [of "10 * b + (x - 48)"] Cons [of "x - 48"] by (simp add: algebra_simps)
  qed simp
  from this [of "c - 48"] show ?thesis by (simp add: digits_value_def)
qed

lemma digits_value_less: "list_all is_ascii_digit s \<Longrightarrow> digits_value s < 10 ^ length s"
proof (induction s)
  case (Cons c cs)
  then have "c - 48 \<le> 9" "digits_value cs < 10 ^ length cs" by (auto simp: is_ascii_digit_def)
  then have "(c - 48) * 10 ^ length cs \<le> 9 * 10 ^ length cs" by (intro mult_right_mono) auto
  with \<open>digits_value cs < 10 ^ length cs\<close>
  have "(c - 48) * 10 ^ length cs + digits_value cs < 10 * 10 ^ length cs" by linarith
  then show ?case by (simp add: digits_value_Cons)
qed (simp add: digits_value_def)

lemma str_less_digits:
  "length s = length t \<Longrightarrow> list_all is_ascii_digit s \<Longrightarrow> list_all is_ascii_digit t \<Longrightarrow>
     str_less s t \<longleftrightarrow> digits_value s < digits_value t"
proof (induction s t rule: list_induct2)
  case (Cons a s c t)
  then have IH: "str_less s t \<longleftrightarrow> digits_value s < digits_value t" and d: "48 \<le> a" "48 \<le> c"
    by (auto simp: is_ascii_digit_def)
  let ?w = "10 ^ length t :: nat"
  have lt: "digits_value s < ?w" "digits_value t < ?w" using digits_value_less [of s] digits_value_less [of t] Cons by auto
  have step: "x * ?w + p < y * ?w + q" if "x < y" "p < ?w" for x y p q
  proof -
    have "x * ?w + p < (x + 1) * ?w" using that by simp
    also have "\<dots> \<le> y * ?w" using that by (intro mult_right_mono) auto
    finally show ?thesis by simp
  qed
  show ?case
  proof (cases "a = c")
    case True
    then show ?thesis using IH Cons by (simp add: digits_value_Cons)
  next
    case False
    then have "a - 48 < c - 48 \<or> c - 48 < a - 48" using d by auto
    then show ?thesis
      using step [of "a - 48" "c - 48"] step [of "c - 48" "a - 48"] lt False Cons d
      by (auto simp: digits_value_Cons dest: less_not_sym)
  qed
qed simp

lemma show_nat_length: "0 < w \<Longrightarrow> n < 10 ^ w \<Longrightarrow> length (show_nat n) \<le> w"
proof (induction w arbitrary: n)
  case (Suc w)
  show ?case
  proof (cases "n < 10")
    case True
    then show ?thesis by (subst show_nat.simps) simp
  next
    case False
    then have "0 < w" using Suc.prems by (cases w) auto
    moreover have "n div 10 < 10 ^ w" using Suc.prems by (simp add: div_less_iff_less_mult mult.commute)
    ultimately have "length (show_nat (n div 10)) \<le> w" using Suc.IH by blast
    with False show ?thesis by (subst show_nat.simps) simp
  qed
qed simp

lemma zero_pad_facts:
  assumes "0 < w" "0 \<le> n" "n < 10 ^ w"
  shows "length (zero_pad w n) = w" "list_all is_ascii_digit (zero_pad w n)" "digits_value (zero_pad w n) = nat n"
proof -
  have n: "nat n < 10 ^ w" using assms by (simp add: nat_less_iff)
  show "length (zero_pad w n) = w" using show_nat_length [OF assms(1) n] by (simp add: zero_pad_def Let_def)
  show "list_all is_ascii_digit (zero_pad w n)"
    using show_nat_digits by (auto simp: zero_pad_def Let_def list_all_iff is_ascii_digit_def)
  have "digits_value (replicate k 48 @ s) = digits_value s" for k s
    by (induction k) (simp_all add: digits_value_Cons)
  then show "digits_value (zero_pad w n) = nat n" by (simp add: zero_pad_def Let_def)
qed

lemma zero_pad_less:
  "0 < w \<Longrightarrow> 0 \<le> a \<Longrightarrow> a < 10 ^ w \<Longrightarrow> 0 \<le> b \<Longrightarrow> b < 10 ^ w \<Longrightarrow> str_less (zero_pad w a) (zero_pad w b) \<longleftrightarrow> a < b"
  using zero_pad_facts [of w a] zero_pad_facts [of w b] by (auto simp: str_less_digits)

lemma zero_pad_eq:
  "0 < w \<Longrightarrow> 0 \<le> a \<Longrightarrow> a < 10 ^ w \<Longrightarrow> 0 \<le> b \<Longrightarrow> b < 10 ^ w \<Longrightarrow> zero_pad w a = zero_pad w b \<longleftrightarrow> a = b"
  using zero_pad_facts(3) [of w a] zero_pad_facts(3) [of w b] by (metis nat_eq_iff2 eq_nat_nat_iff)

text \<open>The years of four digits, in seconds.\<close>

definition four_digit_year :: "int \<Rightarrow> bool" where
  "four_digit_year t \<longleftrightarrow> -62167219200 \<le> t \<and> t \<le> 253402300799"

lemma four_digit_year_civil:
  assumes t: "four_digit_year t" and c: "civil_from_days (t div 86400) = (y, m, d)"
  shows "0 \<le> y" "y < 10 ^ 4"
proof -
  have "(-62167219200) div 86400 \<le> t div 86400" "t div 86400 \<le> 253402300799 div 86400"
    using t by (auto simp: four_digit_year_def intro!: zdiv_mono1)
  then have "\<not> t div 86400 < -719528" "\<not> 2932896 < t div 86400" by simp_all
  moreover have "civil_from_days (-719528) = (0, 1, 1)" "civil_from_days 2932896 = (9999, 12, 31)" by code_simp+
  ultimately have "\<not> date_less (y, m, d) (0, 1, 1)" "\<not> date_less (9999, 12, 31) (y, m, d)"
    using civil_less_iff c by metis+
  then show "0 \<le> y" "y < 10 ^ 4" by auto
qed

text \<open>The clock of a day.\<close>

lemma clock_of:
  "0 \<le> (t mod 86400) div 3600" "(t mod 86400) div 3600 < 24"
  "0 \<le> t mod 86400 mod 3600 div 60" "t mod 86400 mod 3600 div 60 < 60"
  "0 \<le> t mod 86400 mod 60" "t mod 86400 mod 60 < (60 :: int)"
  "t mod 86400 = (t mod 86400) div 3600 * 3600 + (t mod 86400 mod 3600) div 60 * 60 + t mod 86400 mod 60"
proof -
  define s where "s = t mod 86400"
  have s: "0 \<le> s" "s \<le> 86399" by (simp_all add: s_def)
  then have "s div 3600 \<le> 86399 div 3600" by (intro zdiv_mono1) auto
  then have h: "s div 3600 < 24" by simp
  have "s mod 3600 < 3600" by (rule pos_mod_bound) simp
  then have "s mod 3600 div 60 \<le> 3599 div 60" by (intro zdiv_mono1) auto
  then have m: "s mod 3600 div 60 < 60" by simp
  have "s mod 3600 mod 60 = s mod 60" by (rule mod_mod_cancel) simp
  then have sum: "s = s div 3600 * 3600 + s mod 3600 div 60 * 60 + s mod 60"
    using div_mult_mod_eq [of s 3600] div_mult_mod_eq [of "s mod 3600" 60] by linarith
  have pos: "0 \<le> s div 3600" "0 \<le> s mod 3600 div 60"
    using s(1) by (simp_all only: pos_imp_zdiv_nonneg_iff zero_less_numeral pos_mod_sign)
  have c: "0 \<le> s mod 60" "s mod 60 < 60" by (simp_all only: pos_mod_sign pos_mod_bound zero_less_numeral)
  show "0 \<le> (t mod 86400) div 3600" "(t mod 86400) div 3600 < 24"
    "0 \<le> t mod 86400 mod 3600 div 60" "t mod 86400 mod 3600 div 60 < 60"
    "0 \<le> t mod 86400 mod 60" "t mod 86400 mod 60 < (60 :: int)"
    "t mod 86400 = (t mod 86400) div 3600 * 3600 + (t mod 86400 mod 3600) div 60 * 60 + t mod 86400 mod 60"
    unfolding s_def [symmetric] by (rule pos h m c sum)+
qed

fun clock_less :: "int \<times> int \<times> int \<Rightarrow> int \<times> int \<times> int \<Rightarrow> bool" where
  "clock_less (h, m, s) (h', m', s') \<longleftrightarrow> h < h' \<or> h = h' \<and> (m < m' \<or> m = m' \<and> s < s')"

definition clock :: "int \<Rightarrow> int \<times> int \<times> int" where
  "clock t = (t mod 86400 div 3600, t mod 86400 mod 3600 div 60, t mod 86400 mod 60)"

lemma lex_seconds:
  assumes "0 \<le> m" "m < 60" "0 \<le> s" "s < 60" "0 \<le> m'" "m' < 60" "0 \<le> s'" "s' < (60 :: int)"
  shows "clock_less (h, m, s) (h', m', s') \<longleftrightarrow> h * 3600 + m * 60 + s < h' * 3600 + m' * 60 + s'"
proof -
  consider "h < h'" | "h' < h" | "h = h'" "m < m'" | "h = h'" "m' < m" | "h = h'" "m = m'" by linarith
  then show ?thesis by cases (use assms in \<open>simp; linarith\<close>)+
qed

lemma clock_less_iff: "clock_less (clock a) (clock b) \<longleftrightarrow> a mod 86400 < b mod 86400"
proof -
  have "clock_less (clock a) (clock b) \<longleftrightarrow>
      (a mod 86400) div 3600 * 3600 + (a mod 86400 mod 3600) div 60 * 60 + a mod 86400 mod 60 <
      (b mod 86400) div 3600 * 3600 + (b mod 86400 mod 3600) div 60 * 60 + b mod 86400 mod 60"
    unfolding clock_def by (rule lex_seconds) (rule clock_of)+
  then show ?thesis by (simp only: clock_of(7) [symmetric])
qed

lemma time_less: "a < b \<longleftrightarrow> a div 86400 < b div 86400 \<or> a div 86400 = b div 86400 \<and> a mod 86400 < (b mod 86400 :: int)"
proof -
  have lex: "p * 86400 + r < q * 86400 + s \<longleftrightarrow> p < q \<or> p = q \<and> r < s"
    if "0 \<le> r" "r < 86400" "0 \<le> s" "s < 86400" for p q r s :: int
  proof -
    consider "p < q" | "q < p" | "p = q" by linarith
    then show ?thesis by cases (use that in \<open>simp; linarith\<close>)+
  qed
  have "a div 86400 * 86400 + a mod 86400 < b div 86400 * 86400 + b mod 86400 \<longleftrightarrow>
      a div 86400 < b div 86400 \<or> a div 86400 = b div 86400 \<and> a mod 86400 < b mod 86400"
    by (rule lex) simp_all
  then show ?thesis by simp
qed

text \<open>The fields of a stamp, most significant first, and their fixed-width text.\<close>

definition stamp :: "date \<Rightarrow> int \<times> int \<times> int \<Rightarrow> ustr" where
  "stamp = (\<lambda>(y, m, d) (h, mi, s). zero_pad 4 y @ [45] @ zero_pad 2 m @ [45] @ zero_pad 2 d @ [84] @
     zero_pad 2 h @ [58] @ zero_pad 2 mi @ [58] @ zero_pad 2 s @ [90])"

lemma to_iso8601_stamp: "four_digit_year t \<Longrightarrow> to_iso8601 t = stamp (civil_from_days (t div 86400)) (clock t)"
  using four_digit_year_civil [of t]
  by (cases "civil_from_days (t div 86400)") (simp add: to_iso8601_def stamp_def clock_def Let_def show_year_def)

lemma field_less:
  assumes "0 < w" "0 \<le> a" "a < 10 ^ w" "0 \<le> c" "c < 10 ^ w"
  shows "str_less (zero_pad w a @ k # x) (zero_pad w c @ k # y) \<longleftrightarrow> a < c \<or> a = c \<and> str_less x y"
  using zero_pad_facts(1) [of w a] zero_pad_facts(1) [of w c] assms
  by (simp add: str_less_append zero_pad_less zero_pad_eq)

lemma stamp_less:
  assumes "0 \<le> y" "y < 10 ^ 4" "0 \<le> y'" "y' < 10 ^ 4" "valid_date (y, m, d)" "valid_date (y', m', d')"
    and "0 \<le> h" "h < 24" "0 \<le> mi" "mi < 60" "0 \<le> s" "s < 60" "0 \<le> h'" "h' < 24" "0 \<le> mi'" "mi' < 60" "0 \<le> s'" "s' < 60"
  shows "str_less (stamp (y, m, d) (h, mi, s)) (stamp (y', m', d') (h', mi', s')) \<longleftrightarrow>
    date_less (y, m, d) (y', m', d') \<or> (y, m, d) = (y', m', d') \<and> clock_less (h, mi, s) (h', mi', s')"
proof -
  have "month_length y m \<le> 31" "month_length y' m' \<le> 31" by (simp_all add: month_length_def)
  then have "0 \<le> m" "m < 10 ^ 2" "0 \<le> d" "d < 10 ^ 2" "0 \<le> m'" "m' < 10 ^ 2" "0 \<le> d'" "d' < 10 ^ 2"
    using assms(5,6) by auto
  then show ?thesis using assms
    by (simp add: stamp_def field_less del: valid_date.simps) blast
qed

lemma stamp_length:
  assumes "0 \<le> y" "y < 10 ^ 4" "valid_date (y, m, d)" "0 \<le> h" "h < 24" "0 \<le> mi" "mi < 60" "0 \<le> s" "s < 60"
  shows "length (stamp (y, m, d) (h, mi, s)) = 20"
proof -
  have "month_length y m \<le> 31" by (simp add: month_length_def)
  then have "length (zero_pad 2 m) = 2" "length (zero_pad 2 d) = 2" "length (zero_pad 4 y) = 4"
    "length (zero_pad 2 h) = 2" "length (zero_pad 2 mi) = 2" "length (zero_pad 2 s) = 2"
    using assms by (auto intro!: zero_pad_facts(1))
  then show ?thesis by (simp add: stamp_def)
qed

text \<open>
  C31: for times in the years 0 to 9999 the stamp is twenty characters and sorts as text in the order of
  the times, so a client or a query may compare stamps without reading them.
\<close>

theorem stamps_sort_chronologically:
  assumes a: "four_digit_year a" and b: "four_digit_year b"
  shows "length (to_iso8601 a) = 20 \<and> (str_less (to_iso8601 a) (to_iso8601 b) \<longleftrightarrow> a < b) \<and>
    (to_iso8601 a = to_iso8601 b \<longleftrightarrow> a = b)"
proof -
  obtain y m d where ca: "civil_from_days (a div 86400) = (y, m, d)" by (cases "civil_from_days (a div 86400)")
  obtain y' m' d' where cb: "civil_from_days (b div 86400) = (y', m', d')" by (cases "civil_from_days (b div 86400)")
  note va = civil_valid [of "a div 86400", unfolded ca] and vb = civil_valid [of "b div 86400", unfolded cb]
  note ya = four_digit_year_civil [OF a ca] and yb = four_digit_year_civil [OF b cb]
  have less: "str_less (to_iso8601 p) (to_iso8601 q) \<longleftrightarrow> p < q"
    if p: "four_digit_year p" and q: "four_digit_year q" for p q
  proof -
    obtain y m d where cp: "civil_from_days (p div 86400) = (y, m, d)" by (cases "civil_from_days (p div 86400)")
    obtain y' m' d' where cq: "civil_from_days (q div 86400) = (y', m', d')" by (cases "civil_from_days (q div 86400)")
    have "str_less (stamp (y, m, d) (clock p)) (stamp (y', m', d') (clock q)) \<longleftrightarrow>
        date_less (y, m, d) (y', m', d') \<or> (y, m, d) = (y', m', d') \<and> clock_less (clock p) (clock q)"
      unfolding clock_def
      using four_digit_year_civil [OF p cp] four_digit_year_civil [OF q cq]
        civil_valid [of "p div 86400", unfolded cp] civil_valid [of "q div 86400", unfolded cq]
      by (intro stamp_less clock_of(1-6))
    then show ?thesis
      using time_less [of p q] unfolding to_iso8601_stamp [OF p] to_iso8601_stamp [OF q] cp [symmetric] cq [symmetric]
      by (simp add: civil_less_iff civil_inj clock_less_iff)
  qed
  have "\<not> str_less s s" for s by (induction s) auto
  then have "to_iso8601 a = to_iso8601 b \<longleftrightarrow> a = b" using less [OF a b] less [OF b a] by (metis linorder_less_linear)
  moreover have "length (to_iso8601 a) = 20"
    unfolding to_iso8601_stamp [OF a] ca clock_def using va ya clock_of(1-6) by (intro stamp_length)
  ultimately show ?thesis using less [OF a b] by blast
qed

theorem stamps_sort_chronologically_witness:
  "str_less (to_iso8601 951782399) (to_iso8601 951782400) \<and> to_iso8601 951782400 = str ''2000-02-29T00:00:00Z''"
proof -
  have "four_digit_year 951782399" "four_digit_year 951782400" by (simp_all add: four_digit_year_def)
  from stamps_sort_chronologically [OF this] have "str_less (to_iso8601 951782399) (to_iso8601 951782400)" by simp
  moreover have "to_iso8601 951782400 = str ''2000-02-29T00:00:00Z''" by code_simp
  ultimately show ?thesis by blast
qed

end
