(* ===== verification/Calendar.thy ===== *)
theory Calendar
  imports Progress Civil_Date "HOL-Library.Signed_Division"
begin

text \<open>
  The reader's calendar (\<open>db/src/stats/calendar.rs\<close>, \<open>db/src/user_offset.rs\<close>, the rollups of
  \<open>db/src/stats/patterns.rs\<close>). The module builds SQL expressions; each function here is the value
  of the expression, with SQLite's date functions on the calendar of \<open>Civil_Date\<close>: a date is its
  fields rather than its text, and \<open>/\<close> and \<open>%\<close> truncate. A day, month or window edge is read of
  an instant SQLite's calendar holds, before the year 10000; where a session's stamp may lie beyond
  it (patterns.rs) NULL is modelled.
\<close>

subsection \<open>Days (calendar.rs)\<close>

definition bounded :: "int \<Rightarrow> int" where
  "bounded offset_minutes = max UTC_OFFSET_MIN_MINUTES (min UTC_OFFSET_MAX_MINUTES offset_minutes)"

definition shift :: "int \<Rightarrow> int" where
  "shift offset_minutes = bounded offset_minutes * 60"

definition local_day :: "int \<Rightarrow> int \<Rightarrow> date" where
  "local_day off t = civil_from_days ((t + shift off) div 86400)"

definition local_day_number :: "int \<Rightarrow> int \<Rightarrow> int" where
  "local_day_number off t =
     (let shifted = t + shift off
      in shifted sdiv 86400 - (if shifted smod 86400 < 0 then 1 else 0))"

definition local_month :: "int \<Rightarrow> int \<Rightarrow> int \<times> int" where
  "local_month off t = (case local_day off t of (y, m, _) \<Rightarrow> (y, m))"

text \<open>\<open>today_expr\<close>: both names of today from one reading of the clock.\<close>

definition today_of :: "int \<Rightarrow> int \<Rightarrow> date \<times> int" where
  "today_of off now = (local_day off now, local_day_number off now)"

subsection \<open>Windows\<close>

datatype stats_range = Week | Month | Year | AllTime

text \<open>\<open>%w\<close>: 0 is Sunday, and 1 January 1970 was a Thursday.\<close>

definition weekday :: "int \<Rightarrow> int" where
  "weekday dnum = (dnum + 4) mod 7"

text \<open>\<open>TO_MONDAY\<close>: \<open>'weekday 0'\<close> advances to the coming Sunday, \<open>'-6 days'\<close> backs up.\<close>

definition to_monday :: "int \<Rightarrow> int" where
  "to_monday dnum = dnum + (7 - weekday dnum) mod 7 - 6"

text \<open>The day number of a date, as SQLite's date functions count it.\<close>

definition days_from_civil :: "date \<Rightarrow> int" where
  "days_from_civil = (\<lambda>(y, m, d).
     365 * (y - 1) + (y - 1) div 4 - (y - 1) div 100 + (y - 1) div 400 - 719162 +
     sum_list (map (month_length y) [1..m - 1]) + d - 1)"

text \<open>Months as SQLite's modifiers move a first of the month by.\<close>

definition add_months :: "int \<Rightarrow> int \<times> int \<Rightarrow> int \<times> int" where
  "add_months k = (\<lambda>(y, m). let i = y * 12 + (m - 1) + k in (i div 12, i mod 12 + 1))"

definition local_date :: "int \<Rightarrow> int \<Rightarrow> date" where
  "local_date off now = civil_from_days ((now + shift off) div 86400)"

definition window_start :: "stats_range \<Rightarrow> int \<Rightarrow> int \<Rightarrow> int" where
  "window_start rng off now =
     (let (y, m, _) = local_date off now
      in case rng of
           Week \<Rightarrow> to_monday ((now + shift off) div 86400) * 86400 - shift off
         | Month \<Rightarrow> days_from_civil (y, m, 1) * 86400 - shift off
         | Year \<Rightarrow> days_from_civil (y, 1, 1) * 86400 - shift off
         | AllTime \<Rightarrow> 0)"

definition prev_window_start :: "stats_range \<Rightarrow> int \<Rightarrow> int \<Rightarrow> int option" where
  "prev_window_start rng off now =
     (let (y, m, _) = local_date off now
      in case rng of
           Week \<Rightarrow> Some ((to_monday ((now + shift off) div 86400) - 7) * 86400 - shift off)
         | Month \<Rightarrow> (let (y', m') = add_months (- 1) (y, m)
                     in Some (days_from_civil (y', m', 1) * 86400 - shift off))
         | Year \<Rightarrow> Some (days_from_civil (y - 1, 1, 1) * 86400 - shift off)
         | AllTime \<Rightarrow> None)"

text \<open>
  \<open>month_spine\<close>: a recursive query, from eleven months back, that adds the following month while the
  last one is before the current. It may run forever for all its syntax says.
\<close>

partial_function (option) month_rows :: "int \<times> int \<Rightarrow> int \<times> int \<Rightarrow> (int \<times> int) list option" where
  "month_rows now month =
     (if month < now then Option.bind (month_rows now (add_months 1 month)) (\<lambda>ms. Some (month # ms)) else Some [month])"

definition month_spine :: "int \<Rightarrow> int \<Rightarrow> (int \<times> int) list option" where
  "month_spine off now = month_rows (local_month off now) (add_months (- 11) (local_month off now))"

subsection \<open>The reader's offset (user_offset.rs)\<close>

definition offset_in_range :: "int \<Rightarrow> bool" where
  "offset_in_range off \<longleftrightarrow> UTC_OFFSET_MIN_MINUTES \<le> off \<and> off \<le> UTC_OFFSET_MAX_MINUTES"

text \<open>\<open>ORDER BY started_at DESC LIMIT 1\<close>: of equally late rows the first stands for any of them.\<close>

fun newest :: "session_entry list \<Rightarrow> session_entry option" where
  "newest [] = None"
| "newest (s # ss) =
     (case newest ss of Some r \<Rightarrow> Some (if se_started_at s < se_started_at r then r else s) | None \<Rightarrow> Some s)"

definition offset_probe :: "int \<Rightarrow> session_entry list \<Rightarrow> (int \<times> int) option" where
  "offset_probe uid rows =
     Option.bind (newest (filter (\<lambda>s. se_user_id s = uid \<and>
         (case se_utc_offset s of Some off \<Rightarrow> offset_in_range off | None \<Rightarrow> False)) rows))
       (\<lambda>s. map_option (\<lambda>off. (se_started_at s, off)) (se_utc_offset s))"

definition current_offset_minutes :: "int \<Rightarrow> reading_db \<Rightarrow> int option" where
  "current_offset_minutes uid db =
     map_option snd
       (fold (\<lambda>table latest. case offset_probe uid table of
            None \<Rightarrow> latest
          | Some c \<Rightarrow> (case latest of Some (seen, _) \<Rightarrow> if fst c > seen then Some c else latest | None \<Rightarrow> Some c))
         [reading_sessions db, listening_sessions db] None)"

definition resolve_offset_minutes :: "int \<Rightarrow> int option \<Rightarrow> reading_db \<Rightarrow> int" where
  "resolve_offset_minutes uid claimed db =
     (case claimed of
        Some off \<Rightarrow> (if offset_in_range off then off else (case current_offset_minutes uid db of Some o' \<Rightarrow> o' | None \<Rightarrow> 0))
      | None \<Rightarrow> (case current_offset_minutes uid db of Some o' \<Rightarrow> o' | None \<Rightarrow> 0))"

subsection \<open>Time of day (patterns.rs)\<close>

text \<open>\<open>SESSION_LOCAL_ROWS\<close>, over the books the reader has not excluded.\<close>

definition session_local_rows :: "int \<Rightarrow> (ustr \<Rightarrow> bool) \<Rightarrow> int \<Rightarrow> reading_db \<Rightarrow> (int \<times> int option \<times> int) list" where
  "session_local_rows uid excluded start db =
     map (\<lambda>s. (se_started_at s, se_utc_offset s, se_seconds s))
       (filter (\<lambda>s. se_user_id s = uid \<and> start \<le> se_started_at s \<and> \<not> excluded (se_book_uuid s))
          (reading_sessions db @ listening_sessions db))"

text \<open>\<open>GROUP BY\<close> a key with a sum, in the order the keys come up.\<close>

definition group_sum :: "('a \<times> int) list \<Rightarrow> ('a \<times> int) list" where
  "group_sum rows = map (\<lambda>k. (k, sum_list (map snd (filter (\<lambda>(k', _). k' = k) rows)))) (remdups (map fst rows))"

text \<open>
  \<open>strftime\<close> yields NULL for an instant outside SQLite's calendar, noon of 4714 BC-11-24 to the end
  of the year 9999.
\<close>

definition renderable :: "int \<Rightarrow> bool" where
  "renderable t \<longleftrightarrow> - 210866760000 \<le> t \<and> t < 253402300800"

definition hour_and_weekday :: "int \<Rightarrow> int \<Rightarrow> (int \<times> int) option" where
  "hour_and_weekday t off =
     (if renderable (t + off * 60)
      then Some ((t + off * 60) mod 86400 div 3600, weekday ((t + off * 60) div 86400)) else None)"

definition add_at :: "int \<Rightarrow> int \<Rightarrow> int list \<Rightarrow> int list" where
  "add_at i secs xs = (if 0 \<le> i \<and> nat i < length xs then xs[nat i := xs ! nat i + secs] else xs)"

definition zoned_buckets :: "(int \<times> int option \<times> int) list \<Rightarrow> int list \<times> int list" where
  "zoned_buckets rows =
     fold (\<lambda>(key, secs) (hours, weekdays).
         case key of None \<Rightarrow> (hours, weekdays)
         | Some (hour, dow) \<Rightarrow> (add_at hour secs hours, add_at ((dow + 6) mod 7) secs weekdays))
       (group_sum (List.map_filter (\<lambda>(t, off, secs). map_option (\<lambda>off. (hour_and_weekday t off, secs)) off) rows))
       (replicate 24 0, replicate 7 0)"

definition unzoned_seconds :: "(int \<times> int option \<times> int) list \<Rightarrow> int" where
  "unzoned_seconds rows = sum_list (map (\<lambda>(_, _, secs). secs) (filter (\<lambda>(_, off, _). off = None) rows))"

record time_patterns =
  tp_hour_of_day :: "(int \<times> int) list"
  tp_day_of_week :: "(int \<times> string \<times> int) list"
  tp_unzoned :: int

definition WEEKDAY_LABELS :: "string list" where
  "WEEKDAY_LABELS = [''Mon'', ''Tue'', ''Wed'', ''Thu'', ''Fri'', ''Sat'', ''Sun'']"

definition time_patterns_of :: "int \<Rightarrow> (ustr \<Rightarrow> bool) \<Rightarrow> int \<Rightarrow> reading_db \<Rightarrow> time_patterns" where
  "time_patterns_of uid excluded start db =
     (let rows = session_local_rows uid excluded start db;
          (hours, weekdays) = zoned_buckets rows
      in \<lparr>tp_hour_of_day = map (\<lambda>(i, secs). (int i, secs)) (enumerate 0 hours),
          tp_day_of_week = map (\<lambda>(i, secs). (int i, WEEKDAY_LABELS ! i, secs)) (enumerate 0 weekdays),
          tp_unzoned = unzoned_seconds rows\<rparr>)"

end
