(* ===== verification/Calendar_Rules.thy ===== *)
theory Calendar_Rules
  imports Calendar
begin

text \<open>
  The reader's calendar is one calendar: day numbers and dates name the same days, a window holds
  exactly the days of its period, the month spine ends, and the strips count every second once.
\<close>

subsection \<open>Days\<close>

lemma floor_of_truncation: "0 < n \<Longrightarrow> a sdiv n - (if a smod n < 0 then 1 else 0) = (a div n :: int)"
proof -
  assume n: "0 < n"
  show ?thesis
  proof (cases "0 \<le> a")
    case True
    moreover have "\<not> a mod n < 0" using n by (simp add: not_less)
    ultimately show ?thesis using n by (simp add: signed_divide_int_def signed_modulo_int_def sgn_if)
  next
    case False
    then have q: "a sdiv n = - ((- a) div n)" using n by (simp add: signed_divide_int_def sgn_if)
    have r: "a smod n = - ((- a) mod n)"
      unfolding minus_sdiv_mult_eq_smod [symmetric] q minus_div_mult_eq_mod [symmetric] by simp
    have "0 \<le> (- a) mod n" using n by simp
    then show ?thesis unfolding q r
      using zdiv_zminus1_eq_if [of n "- a"] n by (auto simp: zmod_zminus1_eq_if)
  qed
qed

lemma day_number: "local_day_number off t = (t + shift off) div 86400"
  by (simp add: local_day_number_def Let_def floor_of_truncation)

lemma sum_months: "sum_list (map (month_length y) [1..12]) = (if leap_year y then 366 else 365)"
  by (simp add: upto.simps month_length_def)

lemma leap_bits:
  "(q \<Longrightarrow> p) \<Longrightarrow> (r \<Longrightarrow> q) \<Longrightarrow>
     (if p \<and> (\<not> q \<or> r) then 366 else 365) = 365 + (if p then 1 else 0) - (if q then 1 else 0) + (if r then 1 else (0 :: int))"
  by (cases p; cases q; cases r) simp_all

lemma days_from_next: "valid_date p \<Longrightarrow> days_from_civil (next_day p) = days_from_civil p + 1"
proof (cases p)
  case (fields y m d)
  assume v: "valid_date p"
  have "d < month_length y m \<or> d = month_length y m \<and> (m < 12 \<or> m = 12)" using v by (auto simp: fields)
  then consider "d < month_length y m" | "d = month_length y m" "m < 12" | "d = month_length y m" "m = 12" by blast
  then show ?thesis
  proof cases
    case 1
    then show ?thesis by (simp add: fields days_from_civil_def)
  next
    case 2
    have "[1..m] = [1..m - 1] @ [m]" using v fields by (simp add: upto_rec2)
    then show ?thesis using 2 by (simp add: fields days_from_civil_def)
  next
    case 3
    have "[1..12 :: int] = [1..11] @ [12]" by (simp add: upto.simps)
    then have months: "sum_list (map (month_length y) [1..11]) + d = (if leap_year y then 366 else 365)"
      using 3 sum_months [of y] by simp
    have leap: "(if leap_year y then 366 else 365) =
        365 + (if 4 dvd y then 1 else 0) - (if 100 dvd y then 1 else 0) + (if 400 dvd y then 1 else (0 :: int))"
      unfolding leap_year_def by (rule leap_bits) (erule dvd_trans [rotated], simp)+
    have after: "days_from_civil (next_day p) = 365 * y + y div 4 - y div 100 + y div 400 - 719162"
      using 3 by (simp add: fields days_from_civil_def)
    have before: "days_from_civil p = 365 * (y - 1) + (y - 1) div 4 - (y - 1) div 100 + (y - 1) div 400 - 719162 +
        sum_list (map (month_length y) [1..11]) + d - 1"
      using 3(2) by (simp add: fields days_from_civil_def)
    have count: "n = 365 * y + a' - b' + c' - k \<Longrightarrow> a' = a + u \<Longrightarrow> b' = b + v \<Longrightarrow> c' = c + w \<Longrightarrow>
        l = 365 + u - v + w \<Longrightarrow> s + d = l \<Longrightarrow> p = 365 * (y - 1) + a - b + c - k + s + d - 1 \<Longrightarrow> n = p + 1"
      for n a a' b b' c c' k l p s u v w :: int by simp
    show ?thesis
      by (rule count [OF after _ _ _ leap months before])
        (use div_succ [of 4 "y - 1"] div_succ [of 100 "y - 1"] div_succ [of 400 "y - 1"] in simp_all)
  qed
qed

lemma days_from_civil_civil: "days_from_civil (civil_from_days n) = n"
proof (induction n rule: int_induct [where k = 0])
  case base
  have "civil_from_days 0 = (1970, 1, 1)" by code_simp
  then show ?case by (simp add: days_from_civil_def)
next
  case (step1 i)
  then show ?case using days_from_next [OF civil_valid] by (simp add: civil_from_days_next)
next
  case (step2 i)
  have "days_from_civil (next_day (civil_from_days (i - 1))) = days_from_civil (civil_from_days (i - 1)) + 1"
    by (rule days_from_next [OF civil_valid])
  with step2 show ?case using civil_from_days_next [of "i - 1"] by simp
qed

text \<open>
  the day number the streaks and windows count with and the date the heatmap and the daily goal
  are labelled with name the same day of the reader's calendar: two instants share one exactly when
  they share the other, the number is the floor even before 1970, and the day after has the next
  number and the next date.
\<close>

theorem day_numbers_name_dates:
  "civil_from_days (local_day_number off t) = local_day off t \<and>
   (local_day_number off t = local_day_number off u \<longleftrightarrow> local_day off t = local_day off u) \<and>
   (local_day_number off t < local_day_number off u \<longleftrightarrow> date_less (local_day off t) (local_day off u)) \<and>
   local_day_number off (t + 86400) = local_day_number off t + 1 \<and>
   local_day off (t + 86400) = next_day (local_day off t)"
proof -
  have "(t + 86400 + shift off) div 86400 = (t + shift off) div 86400 + 1" by (simp add: algebra_simps)
  then show ?thesis
    by (simp add: day_number local_day_def civil_inj civil_less_iff civil_from_days_next)
qed

subsection \<open>Windows\<close>

text \<open>The first day of a month and of a year, and the one a month before.\<close>

lemma month_start_day:
  assumes "civil_from_days n = (y, m, d)"
  shows "days_from_civil (y, m, 1) = n - (d - 1)" "civil_from_days (days_from_civil (y, m, 1)) = (y, m, 1)"
proof -
  have "1 \<le> d" using civil_valid [of n] assms by simp
  then have first: "civil_from_days (n - (d - 1)) = (y, m, 1)" using civil_back [OF assms, of "d - 1"] by simp
  then show "days_from_civil (y, m, 1) = n - (d - 1)" using days_from_civil_civil [of "n - (d - 1)"] by simp
  with first show "civil_from_days (days_from_civil (y, m, 1)) = (y, m, 1)" by simp
qed

lemma add_months_within: "add_months k (y, m) = (y + (m - 1 + k) div 12, (m - 1 + k) mod 12 + 1)"
proof -
  have "y * 12 + (m - 1) + k = (m - 1 + k) + y * 12" by simp
  then show ?thesis unfolding add_months_def by (simp only: Let_def prod.case div_mult_self1 mod_mult_self1)
qed

lemma month_before:
  assumes "1 \<le> m" "m \<le> 12"
  shows "add_months (- 1) (y, m) = (if m = 1 then (y - 1, 12) else (y, m - 1))"
proof (cases "m = 1")
  case False
  then have "(m - 2) div 12 = 0" "(m - 2) mod 12 = m - 2" using assms by (simp_all add: div_pos_pos_trivial mod_pos_pos_trivial)
  with False show ?thesis by (simp add: add_months_within)
qed (simp add: add_months_within)

lemma month_after:
  assumes "1 \<le> m" "m \<le> 12"
  shows "add_months 1 (y, m) = (if m = 12 then (y + 1, 1) else (y, m + 1))"
proof (cases "m = 12")
  case False
  then have "m div 12 = 0" "m mod 12 = m" using assms by (simp_all add: div_pos_pos_trivial mod_pos_pos_trivial)
  with False show ?thesis by (simp add: add_months_within)
qed (simp add: add_months_within)

lemma previous_month:
  assumes "civil_from_days n = (y, m, 1)" "add_months (- 1) (y, m) = (y', m')"
  shows "civil_from_days (days_from_civil (y', m', 1)) = (y', m', 1)"
    and "\<exists>d. civil_from_days (n - 1) = (y', m', d)"
proof -
  obtain a b c where p: "civil_from_days (n - 1) = (a, b, c)" by (cases "civil_from_days (n - 1)")
  have v: "1 \<le> b" "b \<le> 12" using civil_valid [of "n - 1"] p by auto
  have "next_day (a, b, c) = (y, m, 1)" using civil_from_days_next [of "n - 1"] assms(1) p by simp
  then have "if m = 1 then y = a + 1 \<and> b = 12 else y = a \<and> m = b + 1" using v civil_valid [of "n - 1"] p
    by (auto split: if_splits)
  moreover have "1 \<le> m" "m \<le> 12" using civil_valid [of n] assms(1) by simp_all
  ultimately have "(y', m') = (a, b)" using assms(2) by (auto simp: month_before split: if_splits)
  with p show "\<exists>d. civil_from_days (n - 1) = (y', m', d)" "civil_from_days (days_from_civil (y', m', 1)) = (y', m', 1)"
    using month_start_day(2) [OF p] by auto
qed

lemma year_start_day:
  assumes "civil_from_days n = (y, m, d)"
  shows "civil_from_days (days_from_civil (y, 1, 1)) = (y, 1, 1)"
proof -
  have "1 \<le> int k \<Longrightarrow> int k \<le> m \<Longrightarrow> civil_from_days (days_from_civil (y, m - (int k - 1), 1)) = (y, m - (int k - 1), 1)" for k
  proof (induction k)
    case (Suc k)
    show ?case
    proof (cases k)
      case 0
      then show ?thesis using month_start_day(2) [OF assms] by simp
    next
      case (Suc j)
      with Suc.IH Suc.prems have IH: "civil_from_days (days_from_civil (y, m - (int k - 1), 1)) = (y, m - (int k - 1), 1)" by simp
      have "2 \<le> m - (int k - 1)" "m \<le> 12" using Suc.prems civil_valid [of n] assms by auto
      then have "add_months (- 1) (y, m - (int k - 1)) = (y, m - (int (Suc k) - 1))"
        using Suc by (simp add: month_before)
      from previous_month(1) [OF IH this] show ?thesis .
    qed
  qed simp
  from this [of "nat m"] civil_valid [of n] assms show ?thesis by simp
qed

text \<open>
  Weeks are counted on the calendar alone: runs of seven days, one of which begins on day 4, Monday
  5 January 1970 (day 0 is a Thursday).
\<close>

definition week_of :: "int \<Rightarrow> int" where
  "week_of n = (n + 3) div 7"

lemma day_four: "civil_from_days 4 = (1970, 1, 5) \<and> week_of 3 < week_of 4 \<and> week_of 10 = week_of 4"
  by (intro conjI; code_simp)

text \<open>The instants of one period of the reader's calendar.\<close>

definition same_period :: "stats_range \<Rightarrow> int \<Rightarrow> int \<Rightarrow> int \<Rightarrow> bool" where
  "same_period rng off t u \<longleftrightarrow>
     (case rng of
        Week \<Rightarrow> week_of (local_day_number off t) = week_of (local_day_number off u)
      | Month \<Rightarrow> local_month off t = local_month off u
      | Year \<Rightarrow> fst (local_day off t) = fst (local_day off u)
      | AllTime \<Rightarrow> True)"

text \<open>Weeks begin on the days \<open>7 * q - 3\<close>.\<close>

lemma monday_form: "0 \<le> r \<Longrightarrow> r < 7 \<Longrightarrow> to_monday (7 * q + r - 3) = 7 * q - 3"
proof -
  assume r: "0 \<le> r" "r < 7"
  have "(7 * q + r - 3 + 4) mod 7 = (r + 1) mod 7"
    using mod_mult_self1 [of "r + 1" q 7] by (simp add: algebra_simps)
  moreover from r have "r \<in> {0, 1, 2, 3, 4, 5, 6}" by auto
  then have "(7 - (r + 1) mod 7) mod 7 = 6 - r" by auto
  ultimately show ?thesis by (simp add: to_monday_def weekday_def)
qed

lemma monday_parts: "\<exists>q r. 0 \<le> r \<and> r < 7 \<and> n = 7 * q + r - (3 :: int)"
  by (intro exI [of _ "(n + 3) div 7"] exI [of _ "(n + 3) mod 7"]) (simp add: minus_mod_eq_mult_div [symmetric])

lemma monday:
  "to_monday n \<le> n" "n < to_monday n + 7" "weekday (to_monday n) = 1" "to_monday (to_monday n - 1) = to_monday n - 7"
proof -
  obtain q r where n: "0 \<le> r" "r < 7" "n = 7 * q + r - 3" using monday_parts by blast
  have m: "to_monday n = 7 * q - 3" unfolding n(3) by (rule monday_form [OF n(1,2)])
  show "to_monday n \<le> n" "n < to_monday n + 7" unfolding m using n by simp_all
  have "(1 + q * 7) mod 7 = 1" by (subst mod_mult_self1) simp
  then show "weekday (to_monday n) = 1" by (simp add: m weekday_def algebra_simps)
  show "to_monday (to_monday n - 1) = to_monday n - 7" using monday_form [of 6 "q - 1"] by (simp add: m algebra_simps)
qed

lemma to_monday_week: "to_monday n = 7 * week_of n - 3"
proof -
  obtain q r where n: "0 \<le> r" "r < 7" "n = 7 * q + r - 3" using monday_parts by blast
  have "week_of n = q" using n by (simp add: week_of_def)
  then show ?thesis using monday_form [OF n(1,2)] n(3) by simp
qed

lemma monday_iff:
  assumes "u \<le> n"
  shows "to_monday u = to_monday n \<longleftrightarrow> to_monday n \<le> u"
proof -
  obtain q r where n: "0 \<le> r" "r < 7" "n = 7 * q + r - 3" using monday_parts by blast
  obtain p k where u: "0 \<le> k" "k < 7" "u = 7 * p + k - 3" using monday_parts by blast
  have "to_monday n = 7 * q - 3" "to_monday u = 7 * p - 3"
    unfolding n(3) u(3) using monday_form n u by blast+
  moreover have "p \<le> q" using assms n u by linarith
  moreover have "q \<le> p \<longleftrightarrow> 7 * q \<le> 7 * p + k" using n u by linarith
  ultimately show ?thesis by (auto simp: u(3))
qed

text \<open>An instant is at or after the start of a local day when its own day is not earlier.\<close>

lemma from_day: "n * 86400 - shift off \<le> t \<longleftrightarrow> n \<le> (t + shift off) div 86400"
proof -
  have "n * 86400 \<le> t + shift off \<longleftrightarrow> n \<le> (t + shift off) div 86400"
  proof
    assume "n * 86400 \<le> t + shift off"
    then have "n * 86400 div 86400 \<le> (t + shift off) div 86400" by (intro zdiv_mono1) auto
    then show "n \<le> (t + shift off) div 86400" by simp
  next
    assume "n \<le> (t + shift off) div 86400"
    then have "n * 86400 \<le> (t + shift off) div 86400 * 86400" by simp
    also have "\<dots> \<le> t + shift off" by (metis div_mult_mod_eq le_add_same_cancel1 pos_mod_sign zero_less_numeral)
    finally show "n * 86400 \<le> t + shift off" .
  qed
  then show ?thesis by linarith
qed

text \<open>A month or year holds exactly the days from its first on, up to any of its days.\<close>

lemma since_first:
  assumes now: "civil_from_days n = (y, m, d)" and "u \<le> n"
  shows "civil_from_days f = (y, m, 1) \<Longrightarrow> f \<le> u \<longleftrightarrow> (case civil_from_days u of (y', m', _) \<Rightarrow> (y', m') = (y, m))"
    and "civil_from_days f = (y, 1, 1) \<Longrightarrow> f \<le> u \<longleftrightarrow> fst (civil_from_days u) = y"
proof -
  obtain y' m' d' where u: "civil_from_days u = (y', m', d')" by (cases "civil_from_days u")
  have v: "1 \<le> m'" "1 \<le> d'" "1 \<le> m" using civil_valid [of u] civil_valid [of n] u now by auto
  have first: "f \<le> u \<longleftrightarrow> \<not> date_less (civil_from_days u) (civil_from_days f)" using civil_less_iff [of u f] by auto
  moreover have "\<not> date_less (y, m, d) (y', m', d')" using civil_less_iff [of n u] assms(2) now u by auto
  ultimately show "civil_from_days f = (y, m, 1) \<Longrightarrow> f \<le> u \<longleftrightarrow> (case civil_from_days u of (y', m', _) \<Rightarrow> (y', m') = (y, m))"
    "civil_from_days f = (y, 1, 1) \<Longrightarrow> f \<le> u \<longleftrightarrow> fst (civil_from_days u) = y"
    using v by (auto simp: u)
qed

lemma window_month_year:
  assumes now: "local_date off now = (y, m, d)" and t: "t \<le> now"
  shows "days_from_civil (y, m, 1) * 86400 - shift off \<le> t \<longleftrightarrow> local_month off t = (y, m)"
    and "days_from_civil (y, 1, 1) * 86400 - shift off \<le> t \<longleftrightarrow> fst (local_day off t) = y"
proof -
  have n: "civil_from_days ((now + shift off) div 86400) = (y, m, d)" using now by (simp add: local_date_def)
  have le: "(t + shift off) div 86400 \<le> (now + shift off) div 86400" using t by (intro zdiv_mono1) auto
  show "days_from_civil (y, m, 1) * 86400 - shift off \<le> t \<longleftrightarrow> local_month off t = (y, m)"
    unfolding from_day since_first(1) [OF n le month_start_day(2) [OF n]] local_month_def local_day_def
    by (simp split: prod.split)
  show "days_from_civil (y, 1, 1) * 86400 - shift off \<le> t \<longleftrightarrow> fst (local_day off t) = y"
    unfolding from_day since_first(2) [OF n le year_start_day [OF n]] local_day_def ..
qed

text \<open>A window that opens on local day \<open>f\<close>, and the instant before it.\<close>

lemma at_opening:
  "(f * 86400 - shift off + shift off) mod 86400 = 0"
  "(f * 86400 - shift off - 1 + shift off) div 86400 = f - 1"
  "f * 86400 - shift off - 1 < f * 86400 - shift off"
proof -
  have "f * 86400 - shift off - 1 + shift off = (f - 1) * 86400 + 86399" by simp
  then show "(f * 86400 - shift off - 1 + shift off) div 86400 = f - 1" by simp
qed simp_all

lemma window_week:
  assumes "t \<le> now"
  shows "to_monday ((now + shift off) div 86400) * 86400 - shift off \<le> t \<longleftrightarrow> same_period Week off t now"
proof -
  have "(t + shift off) div 86400 \<le> (now + shift off) div 86400" using assms by (intro zdiv_mono1) auto
  then show ?thesis 
    using monday_iff [of "(t + shift off) div 86400" "(now + shift off) div 86400"]
    unfolding from_day same_period_def stats_range.case day_number by (simp add: to_monday_week)
qed

lemma week_opens_on_monday: "(window_start Week off now + shift off) div 86400 mod 7 = 4"
proof -
  have "(7 * q - 3) mod 7 = (4 :: int)" for q
    using mod_mult_self1 [of 4 "q - 1" 7] by (simp add: algebra_simps)
  then show ?thesis by (simp add: window_start_def Let_def to_monday_week split: prod.split)
qed

lemma window_opens: "rng \<noteq> AllTime \<Longrightarrow> \<exists>f. window_start rng off now = f * 86400 - shift off"
  by (cases rng) (auto simp: window_start_def Let_def split: prod.split)

lemma window_holds: "rng \<noteq> AllTime \<Longrightarrow> t \<le> now \<Longrightarrow> window_start rng off now \<le> t \<longleftrightarrow> same_period rng off t now"
proof -
  assume "rng \<noteq> AllTime" and t: "t \<le> now"
  obtain y m d where now: "local_date off now = (y, m, d)" by (cases "local_date off now")
  then have same: "local_month off now = (y, m)" "fst (local_day off now) = y"
    by (simp_all add: local_month_def local_day_def local_date_def)
  show "window_start rng off now \<le> t \<longleftrightarrow> same_period rng off t now"
  proof (cases rng)
    case Week
    then show ?thesis using window_week [OF t] by (simp add: window_start_def Let_def now)
  next
    case Month
    then show ?thesis using window_month_year(1) [OF now t] same by (simp add: window_start_def same_period_def Let_def now)
  next
    case Year
    then show ?thesis using window_month_year(2) [OF now t] same by (simp add: window_start_def same_period_def Let_def now)
  qed (use \<open>rng \<noteq> AllTime\<close> in simp)
qed

text \<open>The baseline window is the window of the instant before.\<close>

lemma prev_window: "rng \<noteq> AllTime \<Longrightarrow> prev_window_start rng off now = Some (window_start rng off (window_start rng off now - 1))"
proof -
  assume "rng \<noteq> AllTime"
  obtain y m d where now: "local_date off now = (y, m, d)" by (cases "local_date off now")
  then have n: "civil_from_days ((now + shift off) div 86400) = (y, m, d)" by (simp add: local_date_def)
  show "prev_window_start rng off now = Some (window_start rng off (window_start rng off now - 1))"
  proof (cases rng)
    case Week
    let ?f = "to_monday ((now + shift off) div 86400)"
    have "window_start Week off now = ?f * 86400 - shift off" by (simp add: window_start_def Let_def now)
    then have "window_start Week off (window_start Week off now - 1) = to_monday (?f - 1) * 86400 - shift off"
      by (simp only: window_start_def Let_def case_prod_beta stats_range.case at_opening(2))
    then show ?thesis by (simp add: Week prev_window_start_def Let_def now monday(4))
  next
    case Month
    let ?f = "days_from_civil (y, m, 1)"
    obtain y' m' where am: "add_months (- 1) (y, m) = (y', m')" by (cases "add_months (- 1) (y, m)")
    from previous_month(2) [OF month_start_day(2) [OF n] am] obtain d' where
      "local_date off (?f * 86400 - shift off - 1) = (y', m', d')"
      unfolding local_date_def at_opening(2) by blast
    then show ?thesis by (simp add: Month prev_window_start_def window_start_def Let_def now am)
  next
    case Year
    let ?f = "days_from_civil (y, 1, 1)"
    have am: "add_months (- 1) (y, 1) = (y - 1, 12)" by (simp add: month_before)
    from previous_month(2) [OF year_start_day [OF n] am] obtain d' where
      "local_date off (?f * 86400 - shift off - 1) = (y - 1, 12, d')"
      unfolding local_date_def at_opening(2) by blast
    then show ?thesis by (simp add: Year prev_window_start_def window_start_def Let_def now)
  qed (use \<open>rng \<noteq> AllTime\<close> in simp)
qed

text \<open>
  C32: a stats window opens at a local midnight, no later than now, and of the instants up to now it
  holds exactly those of the reader's present week (from Monday), month or year; a week's opens on a
  Monday, a day whose number leaves 4 over sevens; the baseline window before it holds exactly those
  of the period that ends where it opens.
\<close>

theorem windows_are_periods:
  assumes rng: "rng \<noteq> AllTime"
  shows "window_start rng off now \<le> now \<and> (window_start rng off now + shift off) mod 86400 = 0 \<and>
    (rng = Week \<longrightarrow> (window_start rng off now + shift off) div 86400 mod 7 = 4) \<and>
    (t \<le> now \<longrightarrow> (window_start rng off now \<le> t \<longleftrightarrow> same_period rng off t now)) \<and>
    (\<exists>p. prev_window_start rng off now = Some p \<and> p < window_start rng off now \<and>
      (t < window_start rng off now \<longrightarrow> (p \<le> t \<longleftrightarrow> same_period rng off t (window_start rng off now - 1))))"
proof -
  let ?w = "window_start rng off now"
  have refl: "same_period rng off u u" for u by (simp add: same_period_def split: stats_range.split)
  have at_most: "window_start rng off u \<le> u" for u using window_holds [OF rng order_refl] refl by blast
  from window_opens [OF rng] obtain f where "?w = f * 86400 - shift off" by blast
  then have "(?w + shift off) mod 86400 = 0" by simp
  moreover have "window_start rng off (?w - 1) < ?w" using at_most [of "?w - 1"] by linarith
  moreover have "window_start rng off (?w - 1) \<le> t \<longleftrightarrow> same_period rng off t (?w - 1)" if "t < ?w"
    using window_holds [OF rng, of t "?w - 1"] that by simp
  ultimately show ?thesis using window_holds [OF rng] at_most prev_window [OF rng] week_opens_on_monday by blast
qed

theorem windows_are_periods_witness:
  "window_start Month 60 1735689599 = 1735686000 \<and> same_period Month 60 1735688000 1735689599 \<and>
   window_start Week 60 1735689599 = 1735513200 \<and> same_period Week 60 1735513200 1735689599 \<and>
   \<not> same_period Week 60 1735513199 1735689599"
proof -
  have "window_start Month 60 1735689599 = 1735686000" "window_start Week 60 1735689599 = 1735513200"
    by code_simp+
  with windows_are_periods [of Month 60 1735689599 1735688000]
    windows_are_periods [of Week 60 1735689599 1735513200]
    windows_are_periods [of Week 60 1735689599 1735513199]
  show ?thesis by simp
qed

subsection \<open>The month spine\<close>

text \<open>Months numbered.\<close>

definition month_at :: "int \<Rightarrow> int \<times> int" where
  "month_at i = (i div 12, i mod 12 + 1)"

lemma add_months_at: "add_months k (month_at i) = month_at (i + k)"
  unfolding month_at_def add_months_def by (simp add: Let_def)

lemma month_at_less: "month_at i < month_at j \<longleftrightarrow> i < j"
proof -
  have lex: "p * 12 + r < q * 12 + s \<longleftrightarrow> p < q \<or> p = q \<and> r < s"
    if "0 \<le> r" "r < 12" "0 \<le> s" "s < 12" for p q r s :: int
  proof -
    consider "p < q" | "q < p" | "p = q" by linarith
    then show ?thesis by cases (use that in \<open>simp; linarith\<close>)+
  qed
  have "i div 12 * 12 + i mod 12 < j div 12 * 12 + j mod 12 \<longleftrightarrow> i div 12 < j div 12 \<or> i div 12 = j div 12 \<and> i mod 12 < j mod 12"
    by (rule lex) simp_all
  then have "i < j \<longleftrightarrow> i div 12 < j div 12 \<or> i div 12 = j div 12 \<and> i mod 12 < j mod 12" by simp
  then show ?thesis by (auto simp: month_at_def less_prod_def)
qed

lemma month_rows_at: "i \<le> n \<Longrightarrow> month_rows (month_at n) (month_at i) = Some (map month_at [i..n])"
proof (induction "nat (n - i)" arbitrary: i)
  case 0
  then have "i = n" by simp
  then show ?case by (subst month_rows.simps) simp
next
  case (Suc k)
  then have "month_rows (month_at n) (month_at (i + 1)) = Some (map month_at [i + 1..n])" by simp
  moreover have "[i..n] = i # [i + 1..n]" using Suc.prems by (simp add: upto_rec1)
  ultimately show ?case using Suc.hyps(2) by (subst month_rows.simps) (simp add: month_at_less add_months_at)
qed

text \<open>
  C33: the recursive query behind the two trend charts ends, on every calendar and at every time, and
  yields the twelve consecutive months that end with the reader's present one.
\<close>

theorem month_spine_ends:
  "month_spine off now = Some (map (\<lambda>k. add_months k (local_month off now)) [-11..0])"
proof -
  obtain y m d where "local_day off now = (y, m, d)" by (cases "local_day off now")
  moreover from this have "1 \<le> m" "m \<le> 12" using civil_valid [of "(now + shift off) div 86400"] by (simp_all add: local_day_def)
  ultimately have cur: "local_month off now = month_at (y * 12 + (m - 1))"
    by (simp add: local_month_def month_at_def)
  let ?n = "y * 12 + (m - 1)"
  have "month_spine off now = Some (map month_at [?n + - 11..?n])"
    unfolding month_spine_def cur add_months_at by (rule month_rows_at) simp
  moreover have "map month_at [?n + - 11..?n] = map (\<lambda>k. month_at (?n + k)) [-11..0]"
  proof -
    have "[?n + - 11..?n] = map ((+) ?n) [-11..0]" by (simp add: upto.simps)
    then show ?thesis by simp
  qed
  ultimately show ?thesis by (simp add: cur add_months_at)
qed

subsection \<open>Seconds by time of day\<close>

lemma sum_add_at: "0 \<le> i \<Longrightarrow> i < int (length xs) \<Longrightarrow> sum_list (add_at i secs xs) = sum_list xs + secs"
proof -
  assume "0 \<le> i" "i < int (length xs)"
  then have "nat i < length xs" by simp
  then have "sum_list (xs[nat i := xs ! nat i + secs]) = sum_list xs + secs"
  proof (induction xs arbitrary: i)
    case (Cons x xs)
    then show ?case by (cases "nat i") (auto, metis nat_int)
  qed simp
  then show ?thesis using \<open>nat i < length xs\<close> \<open>0 \<le> i\<close> by (simp add: add_at_def)
qed

lemma length_add_at [simp]: "length (add_at i secs xs) = length xs"
  by (simp add: add_at_def)

lemma group_sum_keys: "fst ` set (group_sum rows) \<subseteq> fst ` set rows"
  by (force simp: group_sum_def)

lemma hour_and_weekday_bounds:
  assumes "hour_and_weekday t off = Some (h, w)"
  shows "0 \<le> h" "h < 24" "0 \<le> (w + 6) mod 7" "(w + 6) mod 7 < 7"
  using assms clock_of(1,2) [of "t + off * 60"] by (auto simp: hour_and_weekday_def split: if_splits)

text \<open>Both strips are as long as they say and hold the sum of the placed seconds.\<close>

definition placed :: "((int \<times> int) option \<times> int) list \<Rightarrow> int" where
  "placed rows = sum_list (map snd (filter (\<lambda>(k, _). k \<noteq> None) rows))"

lemma placed_simps [simp]:
  "placed [] = 0" "placed ((k, secs) # rows) = (if k = None then 0 else secs) + placed rows"
  by (simp_all add: placed_def)

lemma zoned_fold:
  assumes "\<And>h w secs. (Some (h, w), secs) \<in> set groups \<Longrightarrow> 0 \<le> h \<and> h < 24" "length hours = 24" "length days = 7"
  shows "case fold (\<lambda>(key, secs) (hours, weekdays).
        case key of None \<Rightarrow> (hours, weekdays)
        | Some (hour, dow) \<Rightarrow> (add_at hour secs hours, add_at ((dow + 6) mod 7) secs weekdays))
      groups (hours, days) of (hs, ws) \<Rightarrow>
    length hs = 24 \<and> length ws = 7 \<and> sum_list hs = sum_list hours + placed groups \<and>
    sum_list ws = sum_list days + placed groups"
  using assms
proof (induction groups arbitrary: hours days)
  case (Cons g groups)
  obtain k secs where g: "g = (k, secs)" by (cases g)
  have rest: "\<And>h w secs. (Some (h, w), secs) \<in> set groups \<Longrightarrow> 0 \<le> h \<and> h < 24"
    using Cons.prems(1) by (meson list.set_intros(2))
  show ?case
  proof (cases k)
    case None
    then show ?thesis using Cons.IH [OF rest, where hours = hours and days = days] Cons.prems(2,3) by (simp add: g)
  next
    case (Some p)
    obtain h w where k: "k = Some (h, w)" using Some by (cases p) auto
    have h: "0 \<le> h" "h < 24" using Cons.prems(1) [of h w secs] by (simp_all add: g k)
    have "sum_list (add_at h secs hours) = sum_list hours + secs" using h Cons.prems(2) by (intro sum_add_at) auto
    moreover have "sum_list (add_at ((w + 6) mod 7) secs days) = sum_list days + secs"
      using Cons.prems(3) by (intro sum_add_at) auto
    moreover note Cons.IH [OF rest, where hours = "add_at h secs hours" and days = "add_at ((w + 6) mod 7) secs days"]
    ultimately show ?thesis using Cons.prems(2,3) by (simp add: g k case_prod_beta)
  qed
qed simp

lemma group_sum_placed: "placed (group_sum rows) = placed rows"
proof -
  have "placed (map (\<lambda>k. (k, sum_list (map snd (filter (\<lambda>(k', _). k' = k) rows)))) ks) = placed rows"
    if "distinct ks" "fst ` set rows \<subseteq> set ks" for ks
    using that
  proof (induction rows)
    case Nil
    show ?case by (induction ks) simp_all
  next
    case (Cons r rows)
    obtain k v where r: "r = (k, v)" by (cases r)
    have step: "placed (map (\<lambda>j. (j, sum_list (map snd (filter (\<lambda>(k', _). k' = j) (r # rows))))) js) =
        placed (map (\<lambda>j. (j, sum_list (map snd (filter (\<lambda>(k', _). k' = j) rows)))) js) +
        (if k \<in> set js \<and> k \<noteq> None then v else 0)" if "distinct js" for js
      using that by (induction js) (auto simp: r)
    from Cons show ?case unfolding step [OF Cons.prems(1)] by (simp add: r)
  qed
  from this [of "remdups (map fst rows)"] show ?thesis by (simp add: group_sum_def)
qed

text \<open>What the strips and the unplaced total speak of: everything but a clock SQLite cannot render.\<close>

fun tellable :: "int \<times> int option \<times> int \<Rightarrow> bool" where
  "tellable (t, off, _) = (case off of None \<Rightarrow> True | Some off \<Rightarrow> renderable (t + off * 60))"

lemma zoned_totals:
  "case zoned_buckets rows of (hs, ws) \<Rightarrow>
     length hs = 24 \<and> length ws = 7 \<and> sum_list ws = sum_list hs \<and>
     sum_list hs + unzoned_seconds rows = sum_list (map (\<lambda>(_, _, secs). secs) (filter tellable rows))"
proof -
  let ?zone = "\<lambda>rows. List.map_filter (\<lambda>(t, off, secs). map_option (\<lambda>off. (hour_and_weekday t off, secs)) off) rows"
  let ?zoned = "?zone rows"
  have keys: "0 \<le> h \<and> h < 24" if "(Some (h, w), secs) \<in> set (group_sum ?zoned)" for h w secs
  proof -
    have "Some (h, w) \<in> fst ` set ?zoned" using that group_sum_keys [of ?zoned] by force
    then obtain t off where "hour_and_weekday t off = Some (h, w)"
      by (auto simp: List.map_filter_def split: prod.splits)
    from hour_and_weekday_bounds [OF this] show ?thesis by simp
  qed
  have "case fold (\<lambda>(key, secs) (hours, weekdays).
        case key of None \<Rightarrow> (hours, weekdays)
        | Some (hour, dow) \<Rightarrow> (add_at hour secs hours, add_at ((dow + 6) mod 7) secs weekdays))
      (group_sum ?zoned) (replicate 24 0, replicate 7 0) of (hs, ws) \<Rightarrow>
    length hs = 24 \<and> length ws = 7 \<and> sum_list hs = sum_list (replicate 24 0) + placed (group_sum ?zoned) \<and>
    sum_list ws = sum_list (replicate 7 0) + placed (group_sum ?zoned)"
    by (rule zoned_fold) (rule keys, assumption, simp_all)
  then have z: "case zoned_buckets rows of (hs, ws) \<Rightarrow> length hs = 24 \<and> length ws = 7 \<and>
      sum_list hs = placed ?zoned \<and> sum_list ws = placed ?zoned"
    by (simp add: zoned_buckets_def group_sum_placed case_prod_beta sum_list_replicate)
  have "placed (?zone rs) + unzoned_seconds rs = sum_list (map (\<lambda>(_, _, secs). secs) (filter tellable rs))" for rs
    by (induction rs) (auto simp: unzoned_seconds_def List.map_filter_simps hour_and_weekday_def split: option.split)
  with z show ?thesis by (simp add: case_prod_beta)
qed

lemma sum_enumerate: "sum_list (map (\<lambda>(i, x). x) (enumerate k xs)) = sum_list xs"
  by (induction xs arbitrary: k) auto

text \<open>
  C34: the hour strip has 24 entries and the weekday strip 7, both show the same total, and with the
  seconds disclosed as unplaced they account for every second of the window's sessions but those
  at an instant no clock of SQLite can show.
\<close>

theorem time_patterns_account_for_every_second:
  "length (tp_hour_of_day (time_patterns_of uid excluded start db)) = 24 \<and>
   length (tp_day_of_week (time_patterns_of uid excluded start db)) = 7 \<and>
   sum_list (map snd (tp_hour_of_day (time_patterns_of uid excluded start db))) =
     sum_list (map (snd \<circ> snd) (tp_day_of_week (time_patterns_of uid excluded start db))) \<and>
   sum_list (map snd (tp_hour_of_day (time_patterns_of uid excluded start db))) +
     tp_unzoned (time_patterns_of uid excluded start db) =
     sum_list (map se_seconds (filter (\<lambda>s. se_user_id s = uid \<and> start \<le> se_started_at s \<and> \<not> excluded (se_book_uuid s) \<and>
         (case se_utc_offset s of None \<Rightarrow> True | Some off \<Rightarrow> renderable (se_started_at s + off * 60)))
       (reading_sessions db @ listening_sessions db)))"
proof -
  let ?rows = "session_local_rows uid excluded start db"
  obtain hs ws where z: "zoned_buckets ?rows = (hs, ws)" by (cases "zoned_buckets ?rows")
  have "map (\<lambda>(_, _, secs). secs) (filter tellable ?rows) = map se_seconds
      (filter (\<lambda>s. se_user_id s = uid \<and> start \<le> se_started_at s \<and> \<not> excluded (se_book_uuid s) \<and>
          (case se_utc_offset s of None \<Rightarrow> True | Some off \<Rightarrow> renderable (se_started_at s + off * 60)))
        (reading_sessions db @ listening_sessions db))"
    by (simp add: session_local_rows_def filter_map filter_filter o_def conj_commute conj_left_commute)
  with zoned_totals [of ?rows] sum_enumerate [of 0 hs] sum_enumerate [of 0 ws] show ?thesis
    by (simp add: time_patterns_of_def Let_def z o_def case_prod_beta)
qed

subsection \<open>The offset\<close>

lemma newest_None: "newest ss = None \<longleftrightarrow> ss = []"
  by (cases ss) (auto split: option.splits)

lemma newest_max: "newest ss = Some r \<Longrightarrow> r \<in> set ss \<and> (\<forall>s \<in> set ss. se_started_at s \<le> se_started_at r)"
proof (induction ss arbitrary: r)
  case (Cons s ss)
  show ?case
  proof (cases "newest ss")
    case None
    then have "ss = []" by (simp add: newest_None)
    with Cons.prems show ?thesis by simp
  next
    case (Some q)
    note IH = Cons.IH [OF this]
    show ?thesis
    proof (cases "se_started_at s < se_started_at q")
      case True
      with Some Cons.prems IH show ?thesis by auto
    next
      case False
      with Some Cons.prems IH show ?thesis by force
    qed
  qed
qed simp

definition plausible :: "int \<Rightarrow> session_entry \<Rightarrow> bool" where
  "plausible uid s \<longleftrightarrow> se_user_id s = uid \<and> (case se_utc_offset s of Some off \<Rightarrow> offset_in_range off | None \<Rightarrow> False)"

lemma offset_probe_cases:
  "case offset_probe uid rows of
     None \<Rightarrow> \<forall>s \<in> set rows. \<not> plausible uid s
   | Some (t, off) \<Rightarrow> (\<exists>s \<in> set rows. plausible uid s \<and> se_started_at s = t \<and> se_utc_offset s = Some off) \<and>
       (\<forall>s \<in> set rows. plausible uid s \<longrightarrow> se_started_at s \<le> t)"
proof -
  have p: "offset_probe uid rows = Option.bind (newest (filter (plausible uid) rows))
      (\<lambda>s. map_option (\<lambda>off. (se_started_at s, off)) (se_utc_offset s))"
    by (simp add: offset_probe_def plausible_def [abs_def])
  show ?thesis
  proof (cases "newest (filter (plausible uid) rows)")
    case None
    then show ?thesis by (simp add: p newest_None filter_empty_conv)
  next
    case (Some s)
    from newest_max [OF Some] have "plausible uid s" "s \<in> set rows"
      "\<forall>r \<in> set rows. plausible uid r \<longrightarrow> se_started_at r \<le> se_started_at s" by auto
    then show ?thesis by (auto simp: p Some plausible_def split: option.splits)
  qed
qed

lemma current_offset_cases:
  "case current_offset_minutes uid db of
      None \<Rightarrow> \<forall>s \<in> set (reading_sessions db @ listening_sessions db). \<not> plausible uid s
    | Some off \<Rightarrow> \<exists>s \<in> set (reading_sessions db @ listening_sessions db). plausible uid s \<and> se_utc_offset s = Some off \<and>
        (\<forall>r \<in> set (reading_sessions db @ listening_sessions db). plausible uid r \<longrightarrow> se_started_at r \<le> se_started_at s)"
proof -
  let ?all = "set (reading_sessions db @ listening_sessions db)"
  have all: "?all = set (reading_sessions db) \<union> set (listening_sessions db)" by simp
  show ?thesis
  proof (cases "offset_probe uid (reading_sessions db)")
    case None
    with offset_probe_cases [where uid = uid and rows = "reading_sessions db"]
    have r: "\<forall>s \<in> set (reading_sessions db). \<not> plausible uid s" by simp
    show ?thesis
    proof (cases "offset_probe uid (listening_sessions db)")
      case None': None
      with offset_probe_cases [where uid = uid and rows = "listening_sessions db"] r None
      show ?thesis unfolding all by (simp add: current_offset_minutes_def ball_Un)
    next
      case (Some c)
      obtain t off where c: "c = (t, off)" by (cases c)
      from offset_probe_cases [where uid = uid and rows = "listening_sessions db"] obtain s
        where "s \<in> set (listening_sessions db)" "plausible uid s" "se_utc_offset s = Some off"
          "\<forall>r \<in> set (listening_sessions db). plausible uid r \<longrightarrow> se_started_at r \<le> se_started_at s"
        by (auto simp: Some c)
      with r None Some c show ?thesis unfolding all by (simp add: current_offset_minutes_def) blast
    qed
  next
    case (Some b)
    obtain t off where b: "b = (t, off)" by (cases b)
    from offset_probe_cases [where uid = uid and rows = "reading_sessions db"] obtain s
      where s: "s \<in> set (reading_sessions db)" "plausible uid s" "se_utc_offset s = Some off" "se_started_at s = t"
        "\<forall>r \<in> set (reading_sessions db). plausible uid r \<longrightarrow> se_started_at r \<le> t"
      by (auto simp: Some b)
    show ?thesis
    proof (cases "offset_probe uid (listening_sessions db)")
      case None
      with offset_probe_cases [where uid = uid and rows = "listening_sessions db"] 
      have "\<forall>s \<in> set (listening_sessions db). \<not> plausible uid s" by simp
      with s Some None b show ?thesis unfolding all by (simp add: current_offset_minutes_def) blast
    next
      case (Some c)
      obtain t' off' where c: "c = (t', off')" by (cases c)
      from offset_probe_cases [where uid = uid and rows = "listening_sessions db"] obtain s'
        where s': "s' \<in> set (listening_sessions db)" "plausible uid s'" "se_utc_offset s' = Some off'" "se_started_at s' = t'"
          "\<forall>r \<in> set (listening_sessions db). plausible uid r \<longrightarrow> se_started_at r \<le> t'"
        by (auto simp: Some c)
      show ?thesis
      proof (cases "t < t'")
        case True
        then have "current_offset_minutes uid db = Some off'"
          using Some \<open>offset_probe uid (reading_sessions db) = Some b\<close> by (simp add: current_offset_minutes_def b c)
        moreover have "\<forall>r \<in> ?all. plausible uid r \<longrightarrow> se_started_at r \<le> se_started_at s'"
          using s(5) s'(4,5) True unfolding all by fastforce
        moreover have "s' \<in> ?all" using s'(1) by simp
        ultimately show ?thesis using s'(2,3) by auto
      next
        case False
        then have "current_offset_minutes uid db = Some off"
          using Some \<open>offset_probe uid (reading_sessions db) = Some b\<close> by (simp add: current_offset_minutes_def b c)
        moreover have "\<forall>r \<in> ?all. plausible uid r \<longrightarrow> se_started_at r \<le> se_started_at s"
          using s(4,5) s'(5) False unfolding all by fastforce
        moreover have "s \<in> ?all" using s(1) by simp
        ultimately show ?thesis using s(2,3) by auto
      qed
    qed
  qed
qed

text \<open>
  every day boundary is cut on a real offset: what the client declares if that is one, else the
  offset of a session of the reader than which no session with a plausible offset is later, else UTC.
\<close>

theorem offset_is_declared_or_latest:
  "offset_in_range (resolve_offset_minutes uid claimed db) \<and>
   (case claimed of
      Some off \<Rightarrow> if offset_in_range off then resolve_offset_minutes uid claimed db = off
        else resolve_offset_minutes uid claimed db = resolve_offset_minutes uid None db
    | None \<Rightarrow>
        if \<exists>s \<in> set (reading_sessions db @ listening_sessions db). plausible uid s
        then \<exists>s \<in> set (reading_sessions db @ listening_sessions db). plausible uid s \<and>
          se_utc_offset s = Some (resolve_offset_minutes uid None db) \<and>
          (\<forall>r \<in> set (reading_sessions db @ listening_sessions db). plausible uid r \<longrightarrow> se_started_at r \<le> se_started_at s)
        else resolve_offset_minutes uid None db = 0)"
proof -
  let ?all = "set (reading_sessions db @ listening_sessions db)"
  note cur = current_offset_cases [where uid = uid and db = db]
  have ok: "offset_in_range off" if "plausible uid s" "se_utc_offset s = Some off" for s off
    using that by (simp add: plausible_def)
  have zero: "offset_in_range 0" by (simp add: offset_in_range_def UTC_OFFSET_MIN_MINUTES_def UTC_OFFSET_MAX_MINUTES_def)
  show ?thesis
    using cur ok zero
    by (cases claimed; cases "current_offset_minutes uid db") (auto simp: resolve_offset_minutes_def)
qed

end
