(* ===== verification/Sittings.thy ===== *)
theory Sittings
  imports Calendar Users
begin

text \<open>
  What the stats page shows of a reader's sessions (\<open>db/src/stats\<close>): the checkpoint rows stitched
  into sittings (sessionize.rs), one book's insights (book.rs), the paged session log and its cursor
  (sessions.rs, \<open>shared/src/stats.rs\<close>), streaks (streak.rs), who may see whose figures
  (household.rs) and the cache in front of them (mod.rs). Queries are functions of the tables;
  whether a book is excluded from the reader's stats is a predicate, the titles of the library and
  the figures a summary computes are arguments.
\<close>

subsection \<open>Sittings (sessionize.rs)\<close>

record sit_row =
  sw_book :: ustr
  sw_started :: int
  sw_ended :: int
  sw_secs :: int
  sw_audio :: int

record sitting =
  si_book :: ustr
  si_started :: int
  si_ended :: int
  si_secs :: int
  si_min_audio :: int
  si_max_audio :: int

definition MIN_SITTING_SECS :: int where "MIN_SITTING_SECS = 60"

text \<open>
  The inner window: \<open>brk\<close> of the row at a place of its partition, against the latest end of the rows
  before it. The first row compares with NULL and takes the \<open>ELSE\<close>.
\<close>

definition brk :: "sit_row list \<Rightarrow> nat \<Rightarrow> int" where
  "brk rows i =
     (if i \<noteq> 0 \<and> sw_started (rows ! i) - Max (sw_ended ` set (take i rows)) > IDLE_GAP_SECS then 1 else 0)"

text \<open>The outer window numbers the sittings with the running sum of the breaks.\<close>

definition sitting_number :: "sit_row list \<Rightarrow> nat \<Rightarrow> int" where
  "sitting_number rows i = sum_list (map (brk rows) [0..<Suc i])"

text \<open>One row of the outer \<open>GROUP BY\<close>.\<close>

definition sitting_of :: "sit_row list \<Rightarrow> sitting" where
  "sitting_of rows =
     \<lparr>si_book = sw_book (hd rows), si_started = Min (sw_started ` set rows), si_ended = Max (sw_ended ` set rows),
      si_secs = sum_list (map sw_secs rows), si_min_audio = Min (sw_audio ` set rows),
      si_max_audio = Max (sw_audio ` set rows)\<rparr>"

definition sittings_of_partition :: "sit_row list \<Rightarrow> sitting list" where
  "sittings_of_partition rows =
     (let numbers = map (sitting_number rows) [0..<length rows]
      in map (\<lambda>n. sitting_of (map fst (filter (\<lambda>(_, k). k = n) (zip rows numbers)))) (remdups numbers))"

definition stitched :: "sit_row list \<Rightarrow> sitting list" where
  "stitched inner =
     concat (map (\<lambda>book. sittings_of_partition
         (sort_key (\<lambda>r. (sw_started r, sw_ended r)) (filter (\<lambda>r. sw_book r = book) inner)))
       (remdups (map sw_book inner)))"

definition sit_row_of :: "int \<Rightarrow> session_entry \<Rightarrow> sit_row" where
  "sit_row_of audio s =
     \<lparr>sw_book = se_book_uuid s, sw_started = se_started_at s, sw_ended = se_ended_at s,
      sw_secs = se_seconds s, sw_audio = audio\<rparr>"

subsection \<open>Days of activity (book.rs, compute.rs)\<close>

text \<open>
  \<open>Row::get\<close> panics on a NULL it has to decode into a string, so a query that reads a day either
  returns or panics. \<open>sql_day\<close> is the column \<open>local_day\<close> builds: NULL where SQLite has no date.
\<close>

datatype 'a outcome = Panics | Returns 'a

definition sql_day :: "int \<Rightarrow> int \<Rightarrow> date option" where
  "sql_day off t = (if renderable (t + shift off) then Some (local_day off t) else None)"

text \<open>\<open>SELECT day, SUM(secs) \<dots> GROUP BY day ORDER BY day\<close>, decoded row by row.\<close>

definition day_activity :: "int \<Rightarrow> sit_row list \<Rightarrow> (date \<times> int) list outcome" where
  "day_activity off rows =
     (let days = group_sum (map (\<lambda>r. (sql_day off (sw_started r), sw_secs r)) rows)
      in if None \<in> fst ` set days then Panics
         else Returns (sort_key fst (map (\<lambda>(day, secs). (the day, secs)) days)))"

text \<open>The rows of one reader's two session tables from \<open>start\<close> on, without the excluded books.\<close>

definition kept_sessions :: "(ustr \<Rightarrow> bool) \<Rightarrow> int \<Rightarrow> int \<Rightarrow> reading_db \<Rightarrow> sit_row list" where
  "kept_sessions excluded uid start db =
     (let kept = filter (\<lambda>s. se_user_id s = uid \<and> start \<le> se_started_at s \<and> \<not> excluded (se_book_uuid s))
      in map (sit_row_of 0) (kept (reading_sessions db)) @ map (sit_row_of 1) (kept (listening_sessions db)))"

definition heatmap :: "(ustr \<Rightarrow> bool) \<Rightarrow> int \<Rightarrow> int \<Rightarrow> int \<Rightarrow> reading_db \<Rightarrow> (date \<times> int) list outcome" where
  "heatmap excluded uid start off db = day_activity off (kept_sessions excluded uid start db)"

definition listening_daily :: "(ustr \<Rightarrow> bool) \<Rightarrow> int \<Rightarrow> int \<Rightarrow> int \<Rightarrow> reading_db \<Rightarrow> (date \<times> int) list outcome" where
  "listening_daily excluded uid start off db =
     day_activity off (filter (\<lambda>r. sw_audio r = 1) (kept_sessions excluded uid start db))"

subsection \<open>One book's insights (book.rs)\<close>

definition BOOK_SESSIONS :: "int \<Rightarrow> ustr \<Rightarrow> reading_db \<Rightarrow> sit_row list" where
  "BOOK_SESSIONS uid book db =
     map (sit_row_of 0) (filter (\<lambda>s. se_user_id s = uid \<and> se_book_uuid s = book) (reading_sessions db)) @
     map (sit_row_of 1) (filter (\<lambda>s. se_user_id s = uid \<and> se_book_uuid s = book) (listening_sessions db))"

record insights =
  in_started_at :: int
  in_seconds_total :: int
  in_sessions :: int
  in_sitting_seconds :: int
  in_longest_seconds :: int
  in_longest_started_at :: int
  in_daily :: "(date \<times> int) list"
  in_as_of_day :: date

definition counted :: "sitting list \<Rightarrow> sitting list" where
  "counted = filter (\<lambda>s. MIN_SITTING_SECS \<le> si_secs s)"

text \<open>\<open>ORDER BY secs DESC, started_at ASC LIMIT 1\<close>.\<close>

definition longest_sitting :: "sitting list \<Rightarrow> sitting" where
  "longest_sitting ss = hd (sort_key (\<lambda>s. (- si_secs s, si_started s)) ss)"

definition book_insights ::
  "library_db \<Rightarrow> int \<Rightarrow> int \<Rightarrow> ustr \<Rightarrow> int option \<Rightarrow> reading_db \<Rightarrow> insights option outcome" where
  "book_insights lib clk uid uuid claimed db =
     (let offset = resolve_offset_minutes uid claimed db
      in case resolve_canonical_book_uuid lib uuid of
        None \<Rightarrow> Returns None
      | Some book \<Rightarrow>
          (let sittings = stitched (BOOK_SESSIONS uid book db);
               longest = longest_sitting (counted sittings)
           in if counted sittings = [] then Returns None
              else case day_activity offset (BOOK_SESSIONS uid book db) of
                Panics \<Rightarrow> Panics
              | Returns daily \<Rightarrow> Returns (Some
                  \<lparr>in_started_at = Min (si_started ` set sittings),
                   in_seconds_total = sum_list (map si_secs sittings),
                   in_sessions = int (length (counted sittings)),
                   in_sitting_seconds = sum_list (map si_secs (counted sittings)),
                   in_longest_seconds = si_secs longest,
                   in_longest_started_at = si_started longest,
                   in_daily = daily,
                   in_as_of_day = fst (today_of offset clk)\<rparr>)))"

subsection \<open>Streaks (streak.rs)\<close>

record streak_figures =
  sk_active_days :: int
  sk_longest_days :: int
  sk_current_days :: int

definition active_days :: "(ustr \<Rightarrow> bool) \<Rightarrow> int \<Rightarrow> int \<Rightarrow> int \<Rightarrow> reading_db \<Rightarrow> int list" where
  "active_days excluded uid start off db =
     sort (remdups (map (\<lambda>r. local_day_number off (sw_started r)) (kept_sessions excluded uid start db)))"

text \<open>The pairs of neighbours \<open>windows(2)\<close> yields.\<close>

definition windows2 :: "'a list \<Rightarrow> ('a \<times> 'a) list" where
  "windows2 xs = zip xs (tl xs)"

definition longest_run :: "int list \<Rightarrow> int" where
  "longest_run days =
     (let start = (if days = [] then 0 else 1)
      in fst (fold (\<lambda>(a, b) (longest, run).
            let run' = (if b - a = 1 then run + 1 else 1) in (max longest run', run'))
          (windows2 days) (start, start)))"

text \<open>The days up to \<open>rposition(d \<le> today)\<close>, and the pairs walked backwards to the first gap.\<close>

definition upto_today :: "int \<Rightarrow> int list \<Rightarrow> int list" where
  "upto_today today days = rev (dropWhile (\<lambda>d. \<not> d \<le> today) (rev days))"

definition current_run :: "int list \<Rightarrow> int \<Rightarrow> int" where
  "current_run days today =
     (let days = upto_today today days
      in if days = [] then 0
         else if last days < today - 1 then 0
         else 1 + int (length (takeWhile (\<lambda>(a, b). b - a = 1) (rev (windows2 days)))))"

definition streak :: "(ustr \<Rightarrow> bool) \<Rightarrow> int \<Rightarrow> int \<Rightarrow> int \<Rightarrow> int \<Rightarrow> reading_db \<Rightarrow> streak_figures" where
  "streak excluded uid start today off db =
     (let windowed = active_days excluded uid start off db;
          all_time = (if start = 0 then None else Some (active_days excluded uid 0 off db))
      in \<lparr>sk_active_days = int (length windowed), sk_longest_days = longest_run windowed,
          sk_current_days = current_run (case all_time of Some days \<Rightarrow> days | None \<Rightarrow> windowed) today\<rparr>)"

subsection \<open>The session log's cursor (shared/src/stats.rs)\<close>

record session_cursor =
  sc_started_at :: int
  sc_book_uuid :: ustr

definition encode_cursor :: "session_cursor \<Rightarrow> ustr" where
  "encode_cursor c = show_int (sc_started_at c) @ 58 # sc_book_uuid c"

text \<open>\<open>str::parse\<close> for an \<open>i64\<close>: an optional sign, at least one ASCII digit, a value that fits.\<close>

definition parse_i64 :: "ustr \<Rightarrow> int option" where
  "parse_i64 s =
     (case s of [] \<Rightarrow> None
      | c # cs \<Rightarrow>
          if c = 45 then
            (if cs \<noteq> [] \<and> list_all is_ascii_digit cs \<and> digits_value cs \<le> 2 ^ 63 then Some (- int (digits_value cs)) else None)
          else map_option int (parse_digits 63 (if c = 43 then cs else s)))"

definition parse_cursor :: "ustr \<Rightarrow> session_cursor option" where
  "parse_cursor raw =
     (case split_once 58 raw of
        None \<Rightarrow> None
      | Some (started, uuid) \<Rightarrow>
          if uuid = [] then None
          else map_option (\<lambda>t. \<lparr>sc_started_at = t, sc_book_uuid = uuid\<rparr>) (parse_i64 started))"

subsection \<open>The session log (sessions.rs)\<close>

datatype session_format = Reading_Format | Mixed | Listening

record log_entry =
  le_book_uuid :: ustr
  le_title :: ustr
  le_format :: session_format
  le_started_at :: int
  le_ended_at :: int
  le_seconds :: int
  le_started_at_iso :: "ustr option"
  le_ended_at_iso :: "ustr option"

record log_page =
  lp_entries :: "log_entry list"
  lp_next_before :: "ustr option"

definition SESSION_LOG_DEFAULT_LIMIT :: int where "SESSION_LOG_DEFAULT_LIMIT = 25"
definition SESSION_LOG_MAX_LIMIT :: int where "SESSION_LOG_MAX_LIMIT = 100"

definition session_format_of :: "int \<Rightarrow> int \<Rightarrow> session_format" where
  "session_format_of min_audio max_audio =
     (if min_audio = 0 \<and> max_audio = 0 then Reading_Format else if min_audio = 0 then Mixed else Listening)"

text \<open>\<open>is_excluded\<close> is the rule of the reader whose log it is; a book's own log does not ask it.\<close>

definition user_session_rows :: "(ustr \<Rightarrow> bool) \<Rightarrow> bool \<Rightarrow> int \<Rightarrow> reading_db \<Rightarrow> sit_row list" where
  "user_session_rows excluded kept_only uid db =
     (let mine = filter (\<lambda>s. se_user_id s = uid \<and> (kept_only \<longrightarrow> \<not> excluded (se_book_uuid s)))
      in map (sit_row_of 0) (mine (reading_sessions db)) @ map (sit_row_of 1) (mine (listening_sessions db)))"

definition newest_first :: "sitting list \<Rightarrow> sitting list" where
  "newest_first ss = rev (sort_key (\<lambda>s. (si_started s, si_book s)) ss)"

text \<open>\<open>page_sql\<close> run: the keyset compares the pair the order is by.\<close>

definition page_rows ::
  "(ustr \<Rightarrow> bool) \<Rightarrow> int \<Rightarrow> ustr option \<Rightarrow> session_cursor option \<Rightarrow> int \<Rightarrow> reading_db \<Rightarrow> sitting list" where
  "page_rows excluded uid book before cap db =
     (let rows = (case book of
            Some uuid \<Rightarrow> filter (\<lambda>r. sw_book r = uuid) (user_session_rows excluded False uid db)
          | None \<Rightarrow> user_session_rows excluded True uid db)
      in take (nat cap) (newest_first
           (filter (\<lambda>s. MIN_SITTING_SECS \<le> si_secs s \<and>
               (case before of None \<Rightarrow> True
                | Some c \<Rightarrow> si_started s < sc_started_at c \<or>
                    si_started s = sc_started_at c \<and> si_book s < sc_book_uuid c))
             (stitched rows))))"

definition log_entry_of :: "(ustr \<Rightarrow> ustr option) \<Rightarrow> sitting \<Rightarrow> log_entry" where
  "log_entry_of titles s =
     \<lparr>le_book_uuid = si_book s,
      le_title = (case titles (si_book s) of Some t \<Rightarrow> t | None \<Rightarrow> str ''Untitled''),
      le_format = session_format_of (si_min_audio s) (si_max_audio s),
      le_started_at = si_started s, le_ended_at = si_ended s, le_seconds = si_secs s,
      le_started_at_iso = Some (to_iso8601 (si_started s)), le_ended_at_iso = Some (to_iso8601 (si_ended s))\<rparr>"

definition cursor_of :: "log_entry \<Rightarrow> session_cursor" where
  "cursor_of e = \<lparr>sc_started_at = le_started_at e, sc_book_uuid = le_book_uuid e\<rparr>"

definition session_log ::
  "library_db \<Rightarrow> (ustr \<Rightarrow> ustr option) \<Rightarrow> (ustr \<Rightarrow> bool) \<Rightarrow> int \<Rightarrow> ustr option \<Rightarrow> session_cursor option \<Rightarrow> int \<Rightarrow>
   reading_db \<Rightarrow> log_page" where
  "session_log lib titles excluded uid book before limit db =
     (let cap = max 1 (min SESSION_LOG_MAX_LIMIT limit);
          page = (\<lambda>canonical.
            let rows = page_rows excluded uid canonical before (cap + 1) db;
                has_more = int (length rows) > cap;
                entries = take (nat cap) (map (log_entry_of titles) rows)
            in \<lparr>lp_entries = entries,
                lp_next_before = (if has_more \<and> entries \<noteq> [] then Some (encode_cursor (cursor_of (last entries))) else None)\<rparr>)
      in case book of
           None \<Rightarrow> page None
         | Some uuid \<Rightarrow>
             (case resolve_canonical_book_uuid lib uuid of
                None \<Rightarrow> \<lparr>lp_entries = [], lp_next_before = None\<rparr>
              | Some resolved \<Rightarrow> page (Some resolved)))"

subsection \<open>Whose figures (household.rs, backend/stats.rs)\<close>

datatype viewer_stats_error = NotSharing

definition may_view_stats :: "int \<Rightarrow> int \<Rightarrow> auth_db \<Rightarrow> bool" where
  "may_view_stats viewer target adb = (viewer = target \<or> get_share_stats target adb)"

text \<open>What the log's queries read besides the session tables.\<close>

record log_env =
  lg_lib :: library_db
  lg_titles :: "ustr \<Rightarrow> ustr option"
  lg_excluded :: "int \<Rightarrow> ustr \<Rightarrow> bool"
  lg_auth :: auth_db

definition session_log_for_viewer ::
  "log_env \<Rightarrow> int \<Rightarrow> int option \<Rightarrow> ustr option \<Rightarrow> session_cursor option \<Rightarrow> int \<Rightarrow> reading_db \<Rightarrow>
   viewer_stats_error + log_page" where
  "session_log_for_viewer env viewer target book before limit db =
     map_sum id (\<lambda>uid. session_log (lg_lib env) (lg_titles env) (lg_excluded env uid) uid book before limit db)
       (case target of
          Some t \<Rightarrow> if t \<noteq> viewer then (if may_view_stats viewer t (lg_auth env) then Inr t else Inl NotSharing) else Inr viewer
        | None \<Rightarrow> Inr viewer)"

record log_query =
  lq_user_id :: "int option"
  lq_book :: "ustr option"
  lq_before :: "ustr option"
  lq_limit :: "int option"

datatype log_response = Log_Page log_page | Bad_Cursor | Not_Sharing

definition get_session_log :: "log_env \<Rightarrow> int \<Rightarrow> log_query \<Rightarrow> reading_db \<Rightarrow> log_response" where
  "get_session_log env user q db =
     (let answer = (\<lambda>before.
        case session_log_for_viewer env user (lq_user_id q) (lq_book q) before
            (case lq_limit q of Some l \<Rightarrow> l | None \<Rightarrow> SESSION_LOG_DEFAULT_LIMIT) db of
          Inl NotSharing \<Rightarrow> Not_Sharing
        | Inr page \<Rightarrow> Log_Page page)
      in case lq_before q of
           None \<Rightarrow> answer None
         | Some raw \<Rightarrow> (case parse_cursor raw of Some c \<Rightarrow> answer (Some c) | None \<Rightarrow> Bad_Cursor))"

text \<open>The figures of a summary are an argument: the reader's, over a window, on an offset.\<close>

definition stats_for_viewer ::
  "(int \<Rightarrow> stats_range \<Rightarrow> int \<Rightarrow> 's) \<Rightarrow> auth_db \<Rightarrow> int \<Rightarrow> int option \<Rightarrow> stats_range \<Rightarrow> int option \<Rightarrow>
   reading_db \<Rightarrow> viewer_stats_error + 's" where
  "stats_for_viewer user_stats adb viewer target rng claimed db =
     (case target of
        Some t \<Rightarrow>
          if t \<noteq> viewer then
            (if \<not> may_view_stats viewer t adb then Inl NotSharing
             else Inr (user_stats t rng (resolve_offset_minutes t (Some (resolve_offset_minutes viewer claimed db)) db)))
          else Inr (user_stats viewer rng (resolve_offset_minutes viewer claimed db))
      | None \<Rightarrow> Inr (user_stats viewer rng (resolve_offset_minutes viewer claimed db)))"

definition recent_progress_for_viewer ::
  "(int \<Rightarrow> int \<Rightarrow> progress_format option \<Rightarrow> 'p list) \<Rightarrow> auth_db \<Rightarrow> int \<Rightarrow> int option \<Rightarrow> int \<Rightarrow>
   progress_format option \<Rightarrow> viewer_stats_error + 'p list" where
  "recent_progress_for_viewer resume_points adb viewer target limit fmt =
     map_sum id (\<lambda>uid. resume_points uid limit fmt)
       (case target of
          Some t \<Rightarrow> if t \<noteq> viewer then (if may_view_stats viewer t adb then Inr t else Inl NotSharing) else Inr viewer
        | None \<Rightarrow> Inr viewer)"

subsection \<open>The cache (mod.rs)\<close>

type_synonym 's stats_cache = "(int \<times> stats_range \<times> int) \<rightharpoonup> int \<times> 's"

definition STATS_TTL_SECS :: int where "STATS_TTL_SECS = 60"

definition cache_get :: "int \<Rightarrow> stats_range \<Rightarrow> int \<Rightarrow> int \<Rightarrow> 's stats_cache \<Rightarrow> 's option" where
  "cache_get uid rng off clk c =
     (case c (uid, rng, off) of
        None \<Rightarrow> None
      | Some (stored, summary) \<Rightarrow> if clk - stored < STATS_TTL_SECS then Some summary else None)"

definition cache_put :: "int \<Rightarrow> stats_range \<Rightarrow> int \<Rightarrow> int \<Rightarrow> 's \<Rightarrow> 's stats_cache \<Rightarrow> 's stats_cache" where
  "cache_put uid rng off clk summary c =
     (\<lambda>k. case c k of
        None \<Rightarrow> None
      | Some (stored, s) \<Rightarrow> if clk - stored < STATS_TTL_SECS then Some (stored, s) else None)((uid, rng, off) \<mapsto> (clk, summary))"

definition invalidate_user :: "int \<Rightarrow> 's stats_cache \<Rightarrow> 's stats_cache" where
  "invalidate_user uid c = (\<lambda>k. if fst k \<noteq> uid then c k else None)"

text \<open>
  \<open>user_stats_at\<close> in the two halves other requests can come between: the hit, or the figures of
  the database as it is; and the store of what a miss computed.
\<close>

definition user_stats_read ::
  "('d \<Rightarrow> int \<Rightarrow> stats_range \<Rightarrow> int \<Rightarrow> 's) \<Rightarrow> int \<Rightarrow> stats_range \<Rightarrow> int \<Rightarrow> int \<Rightarrow> 'd \<Rightarrow> 's stats_cache \<Rightarrow> bool \<times> 's" where
  "user_stats_read compute uid rng off clk db c =
     (case cache_get uid rng off clk c of Some hit \<Rightarrow> (True, hit) | None \<Rightarrow> (False, compute db uid rng off))"

definition user_stats_at ::
  "('d \<Rightarrow> int \<Rightarrow> stats_range \<Rightarrow> int \<Rightarrow> 's) \<Rightarrow> int \<Rightarrow> stats_range \<Rightarrow> int \<Rightarrow> int \<Rightarrow> 'd \<Rightarrow> 's stats_cache \<Rightarrow> 's \<times> 's stats_cache" where
  "user_stats_at compute uid rng off clk db c =
     (case user_stats_read compute uid rng off clk db c of
        (True, hit) \<Rightarrow> (hit, c)
      | (False, summary) \<Rightarrow> (summary, cache_put uid rng off clk summary c))"

end
