(* ===== verification/Sitting_Rules.thy ===== *)
theory Sitting_Rules
  imports Sittings "HOL-Library.Multiset"
begin

text \<open>
  What the sessions pages promise: the windowed query finds the islands of activity, following the
  log's cursors yields every sitting once, streaks are the longest runs there are, no one's sessions
  show in another's log unless they share, and what breaks: a session dated past the year 9999, and a
  summary stored after the change it should show.
\<close>

subsection \<open>The windowed query walks the rows\<close>

text \<open>
  One pass over the sorted rows: a row that starts more than the idle gap after everything before it
  ended opens a sitting.
\<close>

fun walk :: "int \<Rightarrow> sit_row list \<Rightarrow> sit_row list \<Rightarrow> sit_row list list" where
  "walk e cur [] = [cur]"
| "walk e cur (r # rs) =
     (if sw_started r - e > IDLE_GAP_SECS then cur # walk (max e (sw_ended r)) [r] rs
      else walk (max e (sw_ended r)) (cur @ [r]) rs)"

fun sit_down :: "sit_row list \<Rightarrow> sit_row list list" where
  "sit_down [] = []"
| "sit_down (r # rs) = walk (sw_ended r) [r] rs"

fun numbers :: "int \<Rightarrow> int \<Rightarrow> sit_row list \<Rightarrow> int list" where
  "numbers e k [] = []"
| "numbers e k (r # rs) =
     (let k' = (if sw_started r - e > IDLE_GAP_SECS then k + 1 else k)
      in k' # numbers (max e (sw_ended r)) k' rs)"

lemma sitting_number_numbers:
  "xs \<noteq> [] \<Longrightarrow>
   map (sitting_number (xs @ rs)) [length xs..<length xs + length rs] =
   numbers (Max (sw_ended ` set xs)) (sitting_number (xs @ rs) (length xs - 1)) rs"
proof (induction rs arbitrary: xs)
  case (Cons r rs)
  let ?all = "xs @ r # rs"
  have number: "sitting_number ?all (length xs) = sitting_number ?all (length xs - 1) + brk ?all (length xs)"
    using Cons.prems by (cases "length xs") (simp_all add: sitting_number_def)
  have b: "brk ?all (length xs) = (if sw_started r - Max (sw_ended ` set xs) > IDLE_GAP_SECS then 1 else 0)"
    using Cons.prems by (simp add: brk_def)
  have "Max (sw_ended ` set (xs @ [r])) = max (Max (sw_ended ` set xs)) (sw_ended r)"
    using Cons.prems by (simp add: max.commute)
  with Cons.IH [of "xs @ [r]"]
  have "map (sitting_number ?all) [Suc (length xs)..<length xs + length (r # rs)] =
      numbers (max (Max (sw_ended ` set xs)) (sw_ended r)) (sitting_number ?all (length xs)) rs"
    by simp
  moreover have "[length xs..<length xs + length (r # rs)] = length xs # [Suc (length xs)..<length xs + length (r # rs)]"
    by (rule upt_conv_Cons) simp
  ultimately show ?case by (simp add: number b Let_def)
qed simp

lemma sitting_numbers: "map (sitting_number (r # rs)) [0..<length (r # rs)] = 0 # numbers (sw_ended r) 0 rs"
proof -
  have "map (sitting_number (r # rs)) [1..<1 + length rs] = numbers (sw_ended r) (sitting_number (r # rs) 0) rs"
    using sitting_number_numbers [of "[r]" rs] by simp
  moreover have "sitting_number (r # rs) 0 = 0" by (simp add: sitting_number_def brk_def)
  moreover have "[0..<length (r # rs)] = 0 # [1..<1 + length rs]"
    using upt_conv_Cons [of 0 "length (r # rs)"] by simp
  ultimately show ?thesis by simp
qed

definition groups :: "('a \<times> int) list \<Rightarrow> 'a list list" where
  "groups zs = map (\<lambda>n. map fst (filter (\<lambda>(_, k). k = n) zs)) (remdups (map snd zs))"

lemma remdups_block: "xs \<noteq> [] \<Longrightarrow> k \<notin> set ys \<Longrightarrow> remdups (map (\<lambda>_. k) xs @ ys) = k # remdups ys"
proof (induction xs)
  case (Cons x xs)
  then show ?case by (cases "xs = []") (auto simp: image_constant_conv)
qed simp

lemma groups_block:
  assumes "cur \<noteq> []" "\<And>n. n \<in> set (map snd zs) \<Longrightarrow> k < n"
  shows "groups (map (\<lambda>r. (r, k)) cur @ zs) = cur # groups zs"
proof -
  have k: "k \<notin> set (map snd zs)" using assms(2) by blast
  have none: "filter (\<lambda>(_, j). j = k) zs = []" using assms(2) by (force simp: filter_empty_conv)
  have own: "map fst (filter (\<lambda>(_, j). j = k) (map (\<lambda>r. (r, k)) cur)) = cur" by (induction cur) auto
  have other: "filter (\<lambda>(_, j). j = n) (map (\<lambda>r. (r, k)) cur) = []" if "n \<in> set (map snd zs)" for n
    using assms(2) [OF that] by (auto simp: filter_empty_conv)
  show ?thesis
    using remdups_block [OF assms(1) k] by (auto simp: groups_def o_def none own other)
qed

lemma numbers_above: "n \<in> set (numbers e k rs) \<Longrightarrow> k \<le> n"
  by (induction rs arbitrary: e k) (fastforce simp: Let_def split: if_splits)+

lemma length_numbers [simp]: "length (numbers e k rs) = length rs"
  by (induction rs arbitrary: e k) (simp_all add: Let_def)

lemma groups_walk:
  "cur \<noteq> [] \<Longrightarrow> groups (map (\<lambda>r. (r, k)) cur @ zip rs (numbers e k rs)) = walk e cur rs"
proof (induction rs arbitrary: e k cur)
  case Nil
  then show ?case using groups_block [of cur "[]" k] by (simp add: groups_def)
next
  case (Cons r rs)
  show ?case
  proof (cases "sw_started r - e > IDLE_GAP_SECS")
    case True
    have "k < n" if "n \<in> set (map snd (zip (r # rs) (numbers e k (r # rs))))" for n
    proof -
      from that have "n = k + 1 \<or> n \<in> set (numbers (max e (sw_ended r)) (k + 1) rs)"
        using True by (auto simp: Let_def dest: set_zip_rightD)
      then show ?thesis using numbers_above by force
    qed
    from groups_block [where cur = cur and k = k and zs = "zip (r # rs) (numbers e k (r # rs))", OF Cons.prems this]
      Cons.IH [of "[r]" "k + 1" "max e (sw_ended r)"] True
    show ?thesis by (simp add: Let_def)
  next
    case False
    with Cons.IH [of "cur @ [r]" k "max e (sw_ended r)"] show ?thesis by (simp add: Let_def)
  qed
qed

lemma sittings_of_partition_walk: "sittings_of_partition rows = map sitting_of (sit_down rows)"
proof (cases rows)
  case (Cons r rs)
  have "sittings_of_partition rows = map sitting_of (groups (zip rows (map (sitting_number rows) [0..<length rows])))"
    by (simp add: sittings_of_partition_def groups_def Let_def o_def)
  also have "zip rows (map (sitting_number rows) [0..<length rows]) = map (\<lambda>r. (r, 0)) [r] @ zip rs (numbers (sw_ended r) 0 rs)"
    unfolding Cons sitting_numbers by simp
  also have "groups \<dots> = sit_down rows" by (simp add: groups_walk Cons del: list.map)
  finally show ?thesis .
qed (simp add: sittings_of_partition_def)

subsection \<open>Islands of activity\<close>

text \<open>
  Two rows of a book belong together directly if neither starts more than the idle gap after the
  other ended, and a sitting is everything linked to a row through such neighbours.
\<close>

definition near :: "sit_row \<Rightarrow> sit_row \<Rightarrow> bool" where
  "near a b \<longleftrightarrow> sw_book a = sw_book b \<and>
     sw_started a - sw_ended b \<le> IDLE_GAP_SECS \<and> sw_started b - sw_ended a \<le> IDLE_GAP_SECS"

definition linked :: "sit_row list \<Rightarrow> (sit_row \<times> sit_row) set" where
  "linked rows = {(a, b). a \<in> set rows \<and> b \<in> set rows \<and> near a b}"

definition island :: "sit_row list \<Rightarrow> sit_row \<Rightarrow> sit_row list" where
  "island rows a = filter (\<lambda>r. (a, r) \<in> (linked rows)\<^sup>*) rows"

definition timely :: "sit_row \<Rightarrow> bool" where
  "timely r \<longleftrightarrow> sw_started r \<le> sw_ended r"

definition hangs_together :: "sit_row list \<Rightarrow> bool" where
  "hangs_together rows \<longleftrightarrow> (\<forall>a \<in> set rows. \<forall>b \<in> set rows. (a, b) \<in> (linked rows)\<^sup>*)"

definition apart :: "sit_row list \<Rightarrow> sit_row list \<Rightarrow> bool" where
  "apart g h \<longleftrightarrow> (\<forall>a \<in> set g. \<forall>b \<in> set h. sw_started b - sw_ended a > IDLE_GAP_SECS)"

lemma linked_mono: "set xs \<subseteq> set ys \<Longrightarrow> (a, b) \<in> (linked xs)\<^sup>* \<Longrightarrow> (a, b) \<in> (linked ys)\<^sup>*"
proof -
  assume "set xs \<subseteq> set ys"
  then have "linked xs \<subseteq> linked ys" by (auto simp: linked_def)
  then show "(a, b) \<in> (linked xs)\<^sup>* \<Longrightarrow> (a, b) \<in> (linked ys)\<^sup>*" using rtrancl_mono by blast
qed

lemma near_sym: "near a b \<Longrightarrow> near b a"
  by (simp add: near_def)

lemma hangs_together_snoc:
  assumes "hangs_together xs" "m \<in> set xs" "near m r"
  shows "hangs_together (xs @ [r])"
proof -
  let ?R = "(linked (xs @ [r]))\<^sup>*"
  have old: "(a, b) \<in> ?R" if "a \<in> set xs" "b \<in> set xs" for a b
    using assms(1) that linked_mono [of xs "xs @ [r]"] by (simp add: hangs_together_def subset_insertI)
  have "(m, r) \<in> ?R" "(r, m) \<in> ?R"
    using assms(2,3) near_sym [OF assms(3)] by (auto simp: linked_def intro!: r_into_rtrancl)
  then have "(a, r) \<in> ?R \<and> (r, a) \<in> ?R" if "a \<in> set xs" for a
    using old [OF that assms(2)] old [OF assms(2) that] by (meson rtrancl_trans)
  with old show ?thesis unfolding hangs_together_def by simp
qed

lemma walk_islands:
  assumes "cur \<noteq> []" "sorted (map sw_started (cur @ rs))" "\<forall>r \<in> set (cur @ rs). timely r \<and> sw_book r = book"
    "e = Max (sw_ended ` set cur)" "hangs_together cur"
  shows "concat (walk e cur rs) = cur @ rs \<and> (\<forall>g \<in> set (walk e cur rs). g \<noteq> [] \<and> hangs_together g) \<and>
    sorted_wrt apart (walk e cur rs)"
  using assms
proof (induction rs arbitrary: e cur)
  case (Cons r rs)
  have ended: "sw_ended a \<le> e" if "a \<in> set cur" for a using that Cons.prems(4) by simp
  have later: "sw_started r \<le> sw_started b" if "b \<in> set rs" for b
    using Cons.prems(2) that by (auto simp: sorted_append)
  have r: "timely r" "sw_book r = book" using Cons.prems(3) by simp_all
  show ?case
  proof (cases "sw_started r - e > IDLE_GAP_SECS")
    case True
    have e: "max e (sw_ended r) = Max (sw_ended ` set [r])"
      using True r(1) by (simp add: timely_def IDLE_GAP_SECS_def)
    have "hangs_together [r]" by (simp add: hangs_together_def)
    with Cons.IH [of "[r]", OF _ _ _ e] Cons.prems(2,3)
    have IH: "concat (walk (max e (sw_ended r)) [r] rs) = r # rs"
      "\<forall>g \<in> set (walk (max e (sw_ended r)) [r] rs). g \<noteq> [] \<and> hangs_together g"
      "sorted_wrt apart (walk (max e (sw_ended r)) [r] rs)"
      by (simp_all add: sorted_append)
    have "apart cur g" if "g \<in> set (walk (max e (sw_ended r)) [r] rs)" for g
      unfolding apart_def
    proof (intro ballI)
      fix a b assume a: "a \<in> set cur" and b: "b \<in> set g"
      have "b \<in> set (r # rs)" using IH(1) that b by (metis UN_I set_concat)
      then have "sw_started r \<le> sw_started b" using later by auto
      with ended [OF a] True show "IDLE_GAP_SECS < sw_started b - sw_ended a" by linarith
    qed
    with IH True Cons.prems(1,5) show ?thesis by simp
  next
    case False
    obtain m where m: "m \<in> set cur" "sw_ended m = e"
      using Cons.prems(1,4) Max_in [of "sw_ended ` set cur"] by fastforce
    have "sw_started m \<le> sw_started r" using Cons.prems(2) m(1) by (auto simp: sorted_append)
    moreover have "sw_book m = book" using Cons.prems(3) m(1) by simp
    ultimately have "near m r" using False r m(2) by (simp add: near_def timely_def IDLE_GAP_SECS_def)
    from hangs_together_snoc [OF Cons.prems(5) m(1) this] have "hangs_together (cur @ [r])" .
    moreover have "max e (sw_ended r) = Max (sw_ended ` set (cur @ [r]))"
      using Cons.prems(1,4) by (simp add: max.commute)
    ultimately show ?thesis
      using Cons.IH [of "cur @ [r]" "max e (sw_ended r)"] Cons.prems(2,3) False by simp
  qed
qed simp

lemma sit_down_islands:
  assumes "sorted (map sw_started rows)" "\<forall>r \<in> set rows. timely r \<and> sw_book r = book"
  shows "concat (sit_down rows) = rows" "\<And>g. g \<in> set (sit_down rows) \<Longrightarrow> g \<noteq> [] \<and> hangs_together g"
    "sorted_wrt apart (sit_down rows)"
proof -
  have "concat (sit_down rows) = rows \<and> (\<forall>g \<in> set (sit_down rows). g \<noteq> [] \<and> hangs_together g) \<and> sorted_wrt apart (sit_down rows)"
  proof (cases rows)
    case (Cons r rs)
    have "hangs_together [r]" by (simp add: hangs_together_def)
    with walk_islands [of "[r]" rs book "sw_ended r"] assms show ?thesis by (simp add: Cons)
  qed simp
  then show "concat (sit_down rows) = rows" "\<And>g. g \<in> set (sit_down rows) \<Longrightarrow> g \<noteq> [] \<and> hangs_together g"
    "sorted_wrt apart (sit_down rows)" by blast+
qed

text \<open>A row's island is its group.\<close>

lemma rtrancl_stays: "(a, b) \<in> R\<^sup>* \<Longrightarrow> a \<in> S \<Longrightarrow> (\<And>x y. x \<in> S \<Longrightarrow> (x, y) \<in> R \<Longrightarrow> y \<in> S) \<Longrightarrow> b \<in> S"
  by (induction rule: rtrancl_induct) auto

lemma island_is_group:
  assumes "sorted (map sw_started rows)" "\<forall>r \<in> set rows. timely r \<and> sw_book r = book"
    and g: "g \<in> set (sit_down rows)" and a: "a \<in> set g"
  shows "(a, b) \<in> (linked rows)\<^sup>* \<longleftrightarrow> b \<in> set g"
proof
  note sd = sit_down_islands [OF assms(1,2)]
  have sub: "set g \<subseteq> set rows" using sd(1) g by (metis UN_upper set_concat)
  show "b \<in> set g \<Longrightarrow> (a, b) \<in> (linked rows)\<^sup>*"
    using sd(2) [OF g] a linked_mono [OF sub] unfolding hangs_together_def by blast
  assume "(a, b) \<in> (linked rows)\<^sup>*"
  then show "b \<in> set g" using a
  proof (rule rtrancl_stays)
    fix x y assume x: "x \<in> set g" and xy: "(x, y) \<in> linked rows"
    then have y: "y \<in> set rows" "near x y" by (auto simp: linked_def)
    from y(1) sd(1) obtain h where h: "h \<in> set (sit_down rows)" "y \<in> set h" by (metis UN_E set_concat)
    show "y \<in> set g"
    proof (rule ccontr)
      assume "y \<notin> set g"
      with h have "g \<noteq> h" by blast
      with g h(1) sd(3) have "apart g h \<or> apart h g"
        by (metis (no_types) in_set_conv_nth linorder_neqE_nat sorted_wrt_iff_nth_less)
      with x h(2) y(2) show False unfolding apart_def near_def by fastforce
    qed
  qed
qed

lemma sum_list_by_key:
  fixes f :: "'a \<Rightarrow> 'k" and v :: "'a \<Rightarrow> int"
  assumes "distinct ks" "f ` set rows \<subseteq> set ks"
  shows "(\<Sum>k \<leftarrow> ks. sum_list (map v (filter (\<lambda>r. f r = k) rows))) = sum_list (map v rows)"
  using assms
proof (induction rows)
  case (Cons r rows)
  have step: "(\<Sum>k \<leftarrow> js. sum_list (map v (filter (\<lambda>x. f x = k) (r # rows)))) =
      (\<Sum>k \<leftarrow> js. sum_list (map v (filter (\<lambda>x. f x = k) rows))) + (if f r \<in> set js then v r else 0)" if "distinct js" for js
    using that by (induction js) auto
  from Cons show ?case unfolding step [OF Cons.prems(1)] by simp
qed simp

abbreviation book_rows :: "sit_row list \<Rightarrow> ustr \<Rightarrow> sit_row list" where
  "book_rows inner book \<equiv> sort_key (\<lambda>r. (sw_started r, sw_ended r)) (filter (\<lambda>r. sw_book r = book) inner)"

lemma stitched_walk:
  "stitched inner = concat (map (\<lambda>book. map sitting_of (sit_down (book_rows inner book))) (remdups (map sw_book inner)))"
  by (simp add: stitched_def sittings_of_partition_walk)

lemma book_rows_facts:
  assumes "\<forall>r \<in> set inner. timely r"
  shows "sorted (map sw_started (book_rows inner book))"
    "\<forall>r \<in> set (book_rows inner book). timely r \<and> sw_book r = book"
proof -
  have "sorted (map (\<lambda>r. (sw_started r, sw_ended r)) (book_rows inner book))" by (rule sorted_sort_key)
  then show "sorted (map sw_started (book_rows inner book))"
    unfolding sorted_map by (rule sorted_wrt_mono_rel [rotated]) auto
  show "\<forall>r \<in> set (book_rows inner book). timely r \<and> sw_book r = book" using assms by simp
qed

lemma linked_book_rows:
  assumes "a \<in> set inner" "sw_book a = book"
  shows "(a, b) \<in> (linked inner)\<^sup>* \<longleftrightarrow> (a, b) \<in> (linked (book_rows inner book))\<^sup>*"
proof
  show "(a, b) \<in> (linked (book_rows inner book))\<^sup>* \<Longrightarrow> (a, b) \<in> (linked inner)\<^sup>*"
    by (rule linked_mono) auto
  assume "(a, b) \<in> (linked inner)\<^sup>*"
  then have "(a, b) \<in> (linked (book_rows inner book))\<^sup>* \<and> sw_book b = book"
  proof (induction rule: rtrancl_induct)
    case (step y z)
    then have "(y, z) \<in> linked (book_rows inner book)" "sw_book z = book" by (auto simp: linked_def near_def)
    with step.IH show ?case by (meson rtrancl.rtrancl_into_rtrancl)
  qed (simp add: assms(2))
  then show "(a, b) \<in> (linked (book_rows inner book))\<^sup>*" ..
qed

lemma filter_own_group:
  assumes "sorted_wrt apart gs" "\<forall>g \<in> set gs. \<forall>r \<in> set g. timely r" "g \<in> set gs"
  shows "filter (\<lambda>r. r \<in> set g) (concat gs) = g"
  using assms
proof (induction gs)
  case (Cons h gs)
  have disjoint: "x \<notin> set k" if "k \<in> set gs" "x \<in> set h" for k x
  proof
    assume "x \<in> set k"
    with Cons.prems(1) that have "sw_started x - sw_ended x > IDLE_GAP_SECS" by (auto simp: apart_def)
    moreover have "timely x" using Cons.prems(2) that(2) by auto
    ultimately show False by (simp add: timely_def IDLE_GAP_SECS_def)
  qed
  show ?case
  proof (cases "g \<in> set gs")
    case True
    then have "filter (\<lambda>r. r \<in> set g) h = []" using disjoint by (auto simp: filter_empty_conv)
    with True Cons show ?thesis by simp
  next
    case False
    with Cons.prems(3) have "g = h" by simp
    moreover have "filter (\<lambda>r. r \<in> set h) (concat gs) = []" using disjoint by (auto simp: filter_empty_conv)
    ultimately show ?thesis by simp
  qed
qed simp

lemma sitting_of_cong:
  assumes "mset xs = mset ys" "\<forall>r \<in> set ys. sw_book r = book" "ys \<noteq> []"
  shows "sitting_of xs = sitting_of ys"
proof -
  have set: "set xs = set ys" using assms(1) by (rule mset_eq_setD)
  then have "xs \<noteq> []" using assms(3) by auto
  then have "sw_book (hd xs) = sw_book (hd ys)" using assms(2,3) set by (metis hd_in_set)
  moreover have "sum_list (map sw_secs xs) = sum_list (map sw_secs ys)"
    using assms(1) by (metis mset_map sum_mset_sum_list)
  ultimately show ?thesis by (simp add: sitting_of_def set)
qed

lemma group_rows:
  assumes "\<forall>r \<in> set inner. timely r" "g \<in> set (sit_down (book_rows inner book))"
  shows "g \<noteq> []" "\<And>r. r \<in> set g \<Longrightarrow> r \<in> set inner \<and> sw_book r = book \<and> timely r"
proof -
  note bf = book_rows_facts [OF assms(1), of book]
  show "g \<noteq> []" using sit_down_islands(2) [OF bf assms(2)] by blast
  fix r assume "r \<in> set g"
  with assms(2) have "r \<in> set (concat (sit_down (book_rows inner book)))" by auto
  then have "r \<in> set (book_rows inner book)" unfolding sit_down_islands(1) [OF bf] .
  then show "r \<in> set inner \<and> sw_book r = book \<and> timely r" using assms(1) by simp
qed

lemma island_sitting:
  assumes "\<forall>r \<in> set inner. timely r" "g \<in> set (sit_down (book_rows inner book))" "a \<in> set g"
  shows "sitting_of (island inner a) = sitting_of g"
proof -
  note bf = book_rows_facts [OF assms(1), of book]
  note sd = sit_down_islands [OF bf]
  note rows = group_rows(2) [OF assms(1,2)]
  have a: "a \<in> set inner" "sw_book a = book" using rows [OF assms(3)] by blast+
  have "island inner a = filter (\<lambda>r. r \<in> set g) inner"
    unfolding island_def linked_book_rows [OF a] island_is_group [OF bf assms(2,3)] ..
  moreover have "filter (\<lambda>r. r \<in> set g) inner = filter (\<lambda>r. r \<in> set g) (filter (\<lambda>r. sw_book r = book) inner)"
    unfolding filter_filter by (rule filter_cong [OF refl]) (use rows in blast)
  ultimately have "mset (island inner a) = mset (filter (\<lambda>r. r \<in> set g) (book_rows inner book))"
    by (simp only: mset_filter mset_sort)
  moreover have "filter (\<lambda>r. r \<in> set g) (book_rows inner book) = g"
  proof -
    have "\<forall>h \<in> set (sit_down (book_rows inner book)). \<forall>r \<in> set h. timely r"
      by (intro ballI) (use group_rows(2) [OF assms(1)] in blast)
    from filter_own_group [OF sd(3) this assms(2)] show ?thesis unfolding sd(1) .
  qed
  ultimately have "mset (island inner a) = mset g" by simp
  moreover have "\<forall>r \<in> set g. sw_book r = book" using rows by blast
  ultimately show ?thesis using group_rows(1) [OF assms(1,2)] by (rule sitting_of_cong)
qed

text \<open>The sittings of a book come in the order of their starts.\<close>

lemma sitting_starts_ascend:
  assumes "sorted_wrt apart gs" "\<forall>g \<in> set gs. g \<noteq> [] \<and> (\<forall>r \<in> set g. timely r)"
  shows "sorted_wrt (<) (map (\<lambda>g. si_started (sitting_of g)) gs)"
  using assms
proof (induction gs)
  case (Cons g gs)
  have "Min (sw_started ` set g) < Min (sw_started ` set h)" if h: "h \<in> set gs" for h
  proof -
    obtain a where a: "a \<in> set g" using Cons.prems(2) by (metis hd_in_set list.set_intros(1))
    obtain b where b: "b \<in> set h" "sw_started b = Min (sw_started ` set h)"
      using Cons.prems(2) h Min_in [of "sw_started ` set h"] by (metis (no_types, lifting) List.finite_set finite_imageI
        image_iff image_is_empty list.set_intros(2) set_empty)
    have "sw_started b - sw_ended a > IDLE_GAP_SECS" using Cons.prems(1) h a b(1) by (simp add: apart_def)
    moreover have "timely a" using Cons.prems(2) a by simp
    moreover have "Min (sw_started ` set g) \<le> sw_started a" using a by simp
    ultimately show ?thesis using b(2) by (simp add: timely_def IDLE_GAP_SECS_def)
  qed
  with Cons show ?case by (simp add: sitting_of_def)
qed simp

lemma book_sittings:
  assumes "\<forall>r \<in> set inner. timely r"
  shows "\<And>g. g \<in> set (sit_down (book_rows inner book)) \<Longrightarrow> si_book (sitting_of g) = book"
    "distinct (map (\<lambda>g. si_started (sitting_of g)) (sit_down (book_rows inner book)))"
proof -
  show "si_book (sitting_of g) = book" if g: "g \<in> set (sit_down (book_rows inner book))" for g
  proof -
    have "hd g \<in> set g" using group_rows(1) [OF assms g] by (rule hd_in_set)
    from group_rows(2) [OF assms g this] show ?thesis by (simp add: sitting_of_def)
  qed
  have "\<forall>g \<in> set (sit_down (book_rows inner book)). g \<noteq> [] \<and> (\<forall>r \<in> set g. timely r)"
    by (intro ballI conjI) (use group_rows [OF assms] in blast)+
  from sitting_starts_ascend [OF sit_down_islands(3) [OF book_rows_facts [OF assms, of book]] this]
  show "distinct (map (\<lambda>g. si_started (sitting_of g)) (sit_down (book_rows inner book)))"
    unfolding strict_sorted_iff by blast
qed

abbreviation sitting_keys :: "sit_row list \<Rightarrow> ustr \<Rightarrow> (int \<times> ustr) list" where
  "sitting_keys inner book \<equiv>
     map (\<lambda>s. (si_started s, si_book s)) (map sitting_of (sit_down (book_rows inner book)))"

lemma sitting_keys_distinct:
  assumes "\<forall>r \<in> set inner. timely r"
  shows "k \<in> set (sitting_keys inner book) \<Longrightarrow> snd k = book" "distinct (sitting_keys inner book)"
proof -
  show "k \<in> set (sitting_keys inner book) \<Longrightarrow> snd k = book"
    using book_sittings(1) [OF assms] by (auto simp del: set_sort)
  have fst: "map fst (sitting_keys inner book) = map (\<lambda>g. si_started (sitting_of g)) (sit_down (book_rows inner book))"
    by (simp only: map_map o_def fst_conv)
  show "distinct (sitting_keys inner book)"
    by (rule distinct_map [THEN iffD1, THEN conjunct1, of fst]) (subst fst, rule book_sittings(2) [OF assms])
qed

lemma stitched_keys_distinct:
  assumes "\<forall>r \<in> set inner. timely r"
  shows "distinct (map (\<lambda>s. (si_started s, si_book s)) (stitched inner))"
proof -
  have "distinct (concat (map (sitting_keys inner) books))" if "distinct books" for books
    using that
  proof (induction books)
    case (Cons book books)
    have "set (sitting_keys inner book) \<inter> set (concat (map (sitting_keys inner) books)) = {}"
    proof -
      have False if k: "k \<in> set (sitting_keys inner book)" "k \<in> set (concat (map (sitting_keys inner) books))" for k
      proof -
        from k(2) obtain b where b: "b \<in> set books" "k \<in> set (sitting_keys inner b)" by (auto simp del: set_sort)
        with sitting_keys_distinct(1) [OF assms k(1)] sitting_keys_distinct(1) [OF assms b(2)] Cons.prems
        show False by simp
      qed
      then show ?thesis by blast
    qed
    moreover have "distinct (concat (map (sitting_keys inner) books))" using Cons by simp
    ultimately show ?case
      using sitting_keys_distinct(2) [OF assms, of book] unfolding list.map concat.simps distinct_append by blast
  qed simp
  from this [of "remdups (map sw_book inner)"] show ?thesis
    unfolding stitched_walk map_concat map_map o_def by simp
qed

lemma stitched_sittings:
  assumes "\<forall>r \<in> set inner. timely r"
  shows "set (stitched inner) = (\<lambda>a. sitting_of (island inner a)) ` set inner"
proof
  show "set (stitched inner) \<subseteq> (\<lambda>a. sitting_of (island inner a)) ` set inner"
  proof
    fix s assume "s \<in> set (stitched inner)"
    then obtain book g where g: "g \<in> set (sit_down (book_rows inner book))" "s = sitting_of g"
      by (auto simp: stitched_walk)
    note sd = sit_down_islands [OF book_rows_facts [OF assms, of book]]
    from sd(2) [OF g(1)] have a: "hd g \<in> set g" by simp
    then have "hd g \<in> set (concat (sit_down (book_rows inner book)))" using g(1) by auto
    then have "hd g \<in> set inner" unfolding sd(1) by simp
    with island_sitting [OF assms g(1) a] g(2) show "s \<in> (\<lambda>a. sitting_of (island inner a)) ` set inner" by force
  qed
  show "(\<lambda>a. sitting_of (island inner a)) ` set inner \<subseteq> set (stitched inner)"
  proof (clarify)
    fix a assume a: "a \<in> set inner"
    note sd = sit_down_islands [OF book_rows_facts [OF assms, of "sw_book a"]]
    from a have "a \<in> set (concat (sit_down (book_rows inner (sw_book a))))" unfolding sd(1) by simp
    then obtain g where g: "g \<in> set (sit_down (book_rows inner (sw_book a)))" "a \<in> set g" by auto
    from island_sitting [OF assms this] g(1) a show "sitting_of (island inner a) \<in> set (stitched inner)"
      by (force simp: stitched_walk)
  qed
qed

lemma stitched_seconds:
  assumes "\<forall>r \<in> set inner. timely r"
  shows "sum_list (map si_secs (stitched inner)) = sum_list (map sw_secs inner)"
proof -
  have groups: "sum_list (map si_secs (map sitting_of gs)) = sum_list (map sw_secs (concat gs))" for gs
    by (induction gs) (simp_all add: sitting_of_def)
  have book: "sum_list (map si_secs (map sitting_of (sit_down (book_rows inner b)))) =
      sum_list (map sw_secs (filter (\<lambda>r. sw_book r = b) inner))" for b
  proof -
    have "mset (map sw_secs (book_rows inner b)) = mset (map sw_secs (filter (\<lambda>r. sw_book r = b) inner))"
      by (simp only: mset_map mset_sort)
    then have "sum_list (map sw_secs (book_rows inner b)) = sum_list (map sw_secs (filter (\<lambda>r. sw_book r = b) inner))"
      by (metis sum_mset_sum_list)
    then show ?thesis unfolding groups sit_down_islands(1) [OF book_rows_facts [OF assms, of b]] .
  qed
  have "sum_list (map si_secs (concat (map (\<lambda>b. map sitting_of (sit_down (book_rows inner b))) books))) =
      (\<Sum>b \<leftarrow> books. sum_list (map sw_secs (filter (\<lambda>r. sw_book r = b) inner)))" for books
  proof (induction books)
    case (Cons b books)
    show ?case unfolding list.map concat.simps map_append sum_list_append sum_list.Cons book Cons.IH ..
  qed simp
  then show ?thesis
    unfolding stitched_walk
    using sum_list_by_key [of "remdups (map sw_book inner)" sw_book inner sw_secs] by simp
qed

text \<open>
  C10: over rows that do not end before they start the two nested windows count exactly the islands of
  activity: the sittings shown are those of the rows linked to each row, whatever the order the rows
  come in and however they overlap, no two sittings of a book start together, and every second of
  every row is in one of them.
\<close>

theorem sittings_are_islands:
  assumes "list_all timely rows"
  shows "set (stitched rows) = (\<lambda>a. sitting_of (island rows a)) ` set rows \<and>
    distinct (map (\<lambda>s. (si_started s, si_book s)) (stitched rows)) \<and>
    sum_list (map si_secs (stitched rows)) = sum_list (map sw_secs rows)"
proof -
  from assms have "\<forall>r \<in> set rows. timely r" by (simp add: list_all_iff)
  then show ?thesis using stitched_sittings stitched_keys_distinct stitched_seconds by blast
qed

definition sample_rows :: "sit_row list" where
  "sample_rows =
     [\<lparr>sw_book = [65], sw_started = 5000, sw_ended = 5060, sw_secs = 60, sw_audio = 0\<rparr>,
      \<lparr>sw_book = [65], sw_started = 0, sw_ended = 3000, sw_secs = 2500, sw_audio = 1\<rparr>,
      \<lparr>sw_book = [65], sw_started = 60, sw_ended = 120, sw_secs = 60, sw_audio = 0\<rparr>,
      \<lparr>sw_book = [65], sw_started = 3900, sw_ended = 3960, sw_secs = 60, sw_audio = 0\<rparr>]"

theorem sittings_are_islands_witness:
  "map si_secs (stitched sample_rows) = [2620, 60] \<and>
   sum_list (map si_secs (stitched sample_rows)) = sum_list (map sw_secs sample_rows)"
proof -
  have "list_all timely sample_rows" by code_simp
  note sittings_are_islands [OF this]
  moreover have "map si_secs (stitched sample_rows) = [2620, 60]" by code_simp
  ultimately show ?thesis by blast
qed

subsection \<open>The log, page after page\<close>

lemma parse_i64_show_int: "- (2 ^ 63) \<le> t \<Longrightarrow> t < 2 ^ 63 \<Longrightarrow> parse_i64 (show_int t) = Some t"
proof -
  assume t: "- (2 ^ 63) \<le> t" "t < 2 ^ 63"
  show ?thesis
  proof (cases "t < 0")
    case True
    then have "digits_value (show_nat (nat (- t))) \<le> 2 ^ 63" using t(1) by simp
    with True show ?thesis by (simp add: parse_i64_def show_int_def show_nat_digits)
  next
    case False
    obtain c cs where s: "show_nat (nat t) = c # cs" by (cases "show_nat (nat t)") auto
    have c: "c \<noteq> 43" "c \<noteq> 45" using show_nat_digit [of c "nat t"] s by (auto simp: is_ascii_digit_def)
    have "nat t < 2 ^ 63" using t(2) False by (simp add: nat_less_iff)
    from parse_digits_show_nat [OF this] s c False show ?thesis by (simp add: parse_i64_def show_int_def)
  qed
qed

lemma parse_encode_cursor:
  assumes "- (2 ^ 63) \<le> sc_started_at c" "sc_started_at c < 2 ^ 63" "sc_book_uuid c \<noteq> []"
  shows "parse_cursor (encode_cursor c) = Some c"
proof -
  have "58 \<notin> set (show_nat n)" for n using show_nat_digit [of 58 n] by (auto simp: is_ascii_digit_def)
  then have "58 \<notin> set (show_int (sc_started_at c))" by (simp add: show_int_def)
  with assms show ?thesis by (simp add: parse_cursor_def encode_cursor_def parse_i64_show_int)
qed

abbreviation sitting_key :: "sitting \<Rightarrow> int \<times> ustr" where
  "sitting_key s \<equiv> (si_started s, si_book s)"

abbreviation sitting_cursor :: "sitting \<Rightarrow> session_cursor" where
  "sitting_cursor s \<equiv> \<lparr>sc_started_at = si_started s, sc_book_uuid = si_book s\<rparr>"

lemma newest_first_filter: "newest_first (filter P ss) = filter P (newest_first ss)"
  by (simp add: newest_first_def filter_sort rev_filter [symmetric])

lemma newest_first_descends:
  assumes "distinct (map sitting_key ss)"
  shows "sorted_wrt (\<lambda>a b. sitting_key b < sitting_key a) (newest_first ss)"
proof -
  have "distinct (map sitting_key (sort_key sitting_key ss))"
    using assms by (simp add: distinct_map)
  moreover have "sorted (map sitting_key (sort_key sitting_key ss))" by (rule sorted_sort_key)
  ultimately have "sorted_wrt (<) (map sitting_key (sort_key sitting_key ss))" by (simp add: strict_sorted_iff)
  then show ?thesis unfolding newest_first_def sorted_wrt_rev sorted_wrt_map .
qed

lemma filter_below_descending:
  "sorted_wrt (\<lambda>a b. f b < f a) xs \<Longrightarrow> i < length xs \<Longrightarrow> filter (\<lambda>x. f x < (f (xs ! i) :: 'b :: linorder)) xs = drop (Suc i) xs"
proof (induction xs arbitrary: i)
  case (Cons x xs)
  show ?case
  proof (cases i)
    case 0
    then show ?thesis using Cons.prems(1) by (auto intro: filter_True)
  next
    case (Suc j)
    then have "f (xs ! j) < f x" using Cons.prems by simp
    with Suc Cons show ?thesis by (auto dest: order.asym)
  qed
qed simp

text \<open>What a whole log holds, and what a page past a place of it holds.\<close>

definition log_rows :: "(ustr \<Rightarrow> bool) \<Rightarrow> int \<Rightarrow> ustr option \<Rightarrow> reading_db \<Rightarrow> sit_row list" where
  "log_rows excluded uid book db =
     (case book of
        Some uuid \<Rightarrow> filter (\<lambda>r. sw_book r = uuid) (user_session_rows excluded False uid db)
      | None \<Rightarrow> user_session_rows excluded True uid db)"

definition whole_log :: "(ustr \<Rightarrow> bool) \<Rightarrow> int \<Rightarrow> ustr option \<Rightarrow> reading_db \<Rightarrow> sitting list" where
  "whole_log excluded uid book db = newest_first (counted (stitched (log_rows excluded uid book db)))"

definition place :: "sitting list \<Rightarrow> nat \<Rightarrow> session_cursor option" where
  "place L k = (if k = 0 then None else Some (sitting_cursor (L ! (k - 1))))"

lemma page_rows_from:
  assumes L: "L = whole_log excluded uid book db" and timely: "list_all timely (log_rows excluded uid book db)"
    and k: "k \<le> length L"
  shows "page_rows excluded uid book (place L k) cap db = take (nat cap) (drop k L)"
proof -
  let ?below = "\<lambda>before s. case before of None \<Rightarrow> True
    | Some c \<Rightarrow> si_started s < sc_started_at c \<or> si_started s = sc_started_at c \<and> si_book s < sc_book_uuid c"
  have "page_rows excluded uid book before cap db = take (nat cap) (filter (?below before) L)" for before
    unfolding page_rows_def L whole_log_def counted_def log_rows_def Let_def newest_first_filter
    by (simp add: conj_commute)
  moreover have "filter (?below (place L k)) L = drop k L"
  proof (cases k)
    case 0
    then show ?thesis by (simp add: place_def)
  next
    case (Suc i)
    have "distinct (map sitting_key (counted (stitched (log_rows excluded uid book db))))"
      unfolding counted_def by (rule distinct_map_filter) (rule stitched_keys_distinct, use timely in \<open>simp add: list_all_iff\<close>)
    from newest_first_descends [OF this] have "sorted_wrt (\<lambda>a b. sitting_key b < sitting_key a) L"
      unfolding L whole_log_def .
    from filter_below_descending [OF this] Suc k have "filter (\<lambda>s. sitting_key s < sitting_key (L ! i)) L = drop (Suc i) L"
      by simp
    moreover have "(sitting_key s < sitting_key (L ! i)) \<longleftrightarrow> si_started s < si_started (L ! i) \<or>
        si_started s = si_started (L ! i) \<and> si_book s < si_book (L ! i)" for s by auto
    ultimately show ?thesis by (simp add: place_def Suc)
  qed
  ultimately show ?thesis by simp
qed

lemma log_page_from:
  fixes limit :: int
  assumes L: "L = whole_log excluded uid book db" and timely: "list_all timely (log_rows excluded uid book db)"
    and k: "k \<le> length L" and canonical: "case given of None \<Rightarrow> book = None | Some u \<Rightarrow> resolve_canonical_book_uuid lib u = book \<and> book \<noteq> None"
  defines "m \<equiv> nat (max 1 (min SESSION_LOG_MAX_LIMIT limit))"
  shows "session_log lib titles excluded uid given (place L k) limit db =
    \<lparr>lp_entries = map (log_entry_of titles) (take m (drop k L)),
     lp_next_before = (if length L - k > m then Some (encode_cursor (sitting_cursor (L ! (k + m - 1)))) else None)\<rparr>"
proof -
  define cap where "cap = max 1 (min SESSION_LOG_MAX_LIMIT limit)"
  have m: "1 \<le> m" "int m = cap" "nat cap = m" by (simp_all add: m_def cap_def)
  have "nat (cap + 1) = Suc m" using m by linarith
  then have rows: "page_rows excluded uid book (place L k) (cap + 1) db = take (Suc m) (drop k L)"
    unfolding page_rows_from [OF L timely k] by simp
  have more: "int (length (take (Suc m) (drop k L))) > cap \<longleftrightarrow> length L - k > m"
    unfolding m(2) [symmetric] by auto
  have entries: "take (nat cap) (map (log_entry_of titles) (take (Suc m) (drop k L))) = map (log_entry_of titles) (take m (drop k L))"
    unfolding m(3) by (simp add: take_map)
  have cursor: "(if length L - k > m \<and> map (log_entry_of titles) (take m (drop k L)) \<noteq> []
        then Some (encode_cursor (cursor_of (last (map (log_entry_of titles) (take m (drop k L)))))) else None) =
      (if length L - k > m then Some (encode_cursor (sitting_cursor (L ! (k + m - 1)))) else None)"
  proof (cases "length L - k > m")
    case True
    have ne: "take m (drop k L) \<noteq> []" using True m(1) by auto
    have "length (take m (drop k L)) = m" using True by simp
    then have "last (take m (drop k L)) = drop k L ! (m - 1)" using ne m(1) by (simp add: last_conv_nth)
    also have "\<dots> = L ! (k + (m - 1))" using True by (intro nth_drop) simp
    also have "k + (m - 1) = k + m - 1" using m(1) by simp
    finally have "last (take m (drop k L)) = L ! (k + m - 1)" .
    then have "cursor_of (last (map (log_entry_of titles) (take m (drop k L)))) = sitting_cursor (L ! (k + m - 1))"
      by (simp only: last_map [OF ne] cursor_of_def log_entry_of_def log_entry.simps)
    then show ?thesis using True ne by simp
  qed simp
  have page: "(let rows = page_rows excluded uid book (place L k) (cap + 1) db;
         has_more = int (length rows) > cap;
         entries = take (nat cap) (map (log_entry_of titles) rows)
     in \<lparr>lp_entries = entries,
         lp_next_before = (if has_more \<and> entries \<noteq> [] then Some (encode_cursor (cursor_of (last entries))) else None)\<rparr>) =
    \<lparr>lp_entries = map (log_entry_of titles) (take m (drop k L)),
     lp_next_before = (if length L - k > m then Some (encode_cursor (sitting_cursor (L ! (k + m - 1)))) else None)\<rparr>"
    unfolding rows Let_def more entries cursor ..
  show ?thesis
  proof (cases given)
    case None
    with canonical have "book = None" by simp
    from page [unfolded Let_def this] show ?thesis
      unfolding session_log_def cap_def [symmetric] None Let_def option.case .
  next
    case (Some u)
    with canonical obtain b where b: "resolve_canonical_book_uuid lib u = Some b" "book = Some b" by auto
    from page [unfolded Let_def b(2)] show ?thesis
      unfolding session_log_def cap_def [symmetric] Some Let_def b(1) option.case .
  qed
qed

text \<open>A client that follows \<open>next_before\<close>, for at most so many requests.\<close>

fun follow_log :: "nat \<Rightarrow> log_env \<Rightarrow> int \<Rightarrow> log_query \<Rightarrow> reading_db \<Rightarrow> log_entry list option" where
  "follow_log 0 env user q db = None"
| "follow_log (Suc n) env user q db =
     (case get_session_log env user q db of
        Log_Page p \<Rightarrow>
          (case lp_next_before p of
             None \<Rightarrow> Some (lp_entries p)
           | Some raw \<Rightarrow> map_option ((@) (lp_entries p)) (follow_log n env user (q\<lparr>lq_before := Some raw\<rparr>) db))
      | Bad_Cursor \<Rightarrow> None
      | Not_Sharing \<Rightarrow> None)"

definition well_logged :: "session_entry \<Rightarrow> bool" where
  "well_logged s \<longleftrightarrow> se_started_at s \<le> se_ended_at s \<and> se_book_uuid s \<noteq> [] \<and>
     - (2 ^ 63) \<le> se_started_at s \<and> se_started_at s < 2 ^ 63"

lemma log_rows_well:
  assumes "list_all well_logged (reading_sessions db @ listening_sessions db)" "r \<in> set (log_rows excluded uid book db)"
  shows "timely r \<and> sw_book r \<noteq> [] \<and> - (2 ^ 63) \<le> sw_started r \<and> sw_started r < 2 ^ 63"
proof -
  obtain s a where "s \<in> set (reading_sessions db @ listening_sessions db)" "r = sit_row_of a s"
    using assms(2) by (auto simp: log_rows_def user_session_rows_def Let_def split: option.splits)
  with assms(1) show ?thesis by (auto simp: list_all_iff well_logged_def timely_def sit_row_of_def)
qed

lemma stitched_from_row:
  assumes "\<forall>r \<in> set rows. timely r" "s \<in> set (stitched rows)"
  shows "\<exists>r \<in> set rows. si_started s = sw_started r \<and> si_book s = sw_book r"
proof -
  from assms(2) obtain book g where g: "g \<in> set (sit_down (book_rows rows book))" "s = sitting_of g"
    by (auto simp: stitched_walk)
  note gr = group_rows [OF assms(1) g(1)]
  have "Min (sw_started ` set g) \<in> sw_started ` set g" using gr(1) by (intro Min_in) auto
  then obtain r where r: "r \<in> set g" "si_started s = sw_started r" by (auto simp: g(2) sitting_of_def)
  moreover have "si_book s = book" using gr(2) [OF hd_in_set [OF gr(1)]] by (simp add: g(2) sitting_of_def)
  ultimately show ?thesis using gr(2) [OF r(1)] by auto
qed

lemma follow_from:
  assumes well: "list_all well_logged (reading_sessions db @ listening_sessions db)"
    and reader: "reader = (case lq_user_id q of Some t \<Rightarrow> t | None \<Rightarrow> user)"
    and allowed: "reader = user \<or> get_share_stats reader (lg_auth env)"
    and book: "case lq_book q of None \<Rightarrow> book = None
      | Some u \<Rightarrow> resolve_canonical_book_uuid (lg_lib env) u = book \<and> book \<noteq> None"
    and L: "L = whole_log (lg_excluded env reader) reader book db"
  shows "k \<le> length L \<Longrightarrow> lq_before q = map_option encode_cursor (place L k) \<Longrightarrow> length L - k < n \<Longrightarrow>
    follow_log n env user q db = Some (map (log_entry_of (lg_titles env)) (drop k L))"
  using reader book
proof (induction n arbitrary: k q)
  case (Suc n)
  let ?rows = "log_rows (lg_excluded env reader) reader book db"
  define limit where "limit = (case lq_limit q of Some l \<Rightarrow> l | None \<Rightarrow> SESSION_LOG_DEFAULT_LIMIT)"
  define m where "m = nat (max 1 (min SESSION_LOG_MAX_LIMIT limit))"
  have m: "1 \<le> m" by (simp add: m_def)
  have rows: "\<forall>r \<in> set ?rows. timely r" using log_rows_well [OF well] by blast
  then have timely: "list_all timely ?rows" by (simp add: list_all_iff)
  have cursor: "parse_cursor (encode_cursor (sitting_cursor s)) = Some (sitting_cursor s)" if "s \<in> set L" for s
  proof -
    from that have "s \<in> set (stitched ?rows)" by (auto simp: L whole_log_def newest_first_def counted_def)
    from stitched_from_row [OF rows this] obtain r where "r \<in> set ?rows" "si_started s = sw_started r" "si_book s = sw_book r"
      by blast
    with log_rows_well [OF well] show ?thesis by (intro parse_encode_cursor) auto
  qed
  have parsed: "case lq_before q of None \<Rightarrow> place L k = None | Some raw \<Rightarrow> parse_cursor raw = place L k \<and> place L k \<noteq> None"
    using Suc.prems(1,2) cursor [of "L ! (k - 1)"] by (auto simp: place_def split: if_splits)
  let ?page = "\<lparr>lp_entries = map (log_entry_of (lg_titles env)) (take m (drop k L)),
     lp_next_before = (if length L - k > m then Some (encode_cursor (sitting_cursor (L ! (k + m - 1)))) else None)\<rparr>"
  have "session_log_for_viewer env user (lq_user_id q) (lq_book q) (place L k) limit db = Inr ?page"
    using Suc.prems(4) allowed log_page_from [OF L timely Suc.prems(1,5), where titles = "lg_titles env" and limit = limit, folded m_def]
    by (auto simp: session_log_for_viewer_def may_view_stats_def split: option.splits)
  then have answer: "get_session_log env user q db = Log_Page ?page"
    using parsed by (auto simp: get_session_log_def Let_def limit_def [symmetric] split: option.splits)
  show ?case
  proof (cases "length L - k > m")
    case True
    have "place L (k + m) = Some (sitting_cursor (L ! (k + m - 1)))" using m by (simp add: place_def)
    then have "follow_log n env user (q\<lparr>lq_before := Some (encode_cursor (sitting_cursor (L ! (k + m - 1))))\<rparr>) db =
        Some (map (log_entry_of (lg_titles env)) (drop (k + m) L))"
      using True Suc.prems m by (intro Suc.IH) auto
    moreover have "take m (drop k L) @ drop (k + m) L = drop k L" by (metis append_take_drop_id drop_drop add.commute)
    ultimately show ?thesis using True by (simp add: answer map_append [symmetric] del: map_append)
  next
    case False
    then show ?thesis by (simp add: answer)
  qed
qed simp

text \<open>
  C9: a client that sends back each \<open>next_before\<close> reads, with every page size, all sittings of at least
  a minute, each once, the newest first, and is told the end: ties between books in one second and a
  last page that is exactly full included. So for its own log, or a sharing reader's, over all books
  or one.
\<close>

theorem log_pages_cover_the_log:
  assumes "list_all well_logged (reading_sessions db @ listening_sessions db)"
    and "reader = (case lq_user_id q of Some t \<Rightarrow> t | None \<Rightarrow> user)"
    and "reader = user \<or> get_share_stats reader (lg_auth env)"
    and "case lq_book q of None \<Rightarrow> book = None
      | Some u \<Rightarrow> resolve_canonical_book_uuid (lg_lib env) u = book \<and> book \<noteq> None"
    and "lq_before q = None"
    and "length (whole_log (lg_excluded env reader) reader book db) < n"
  shows "follow_log n env user q db =
    Some (map (log_entry_of (lg_titles env)) (whole_log (lg_excluded env reader) reader book db))"
  using follow_from [OF assms(1-4) refl, of 0 n] assms(5,6) by (simp add: place_def)

definition sample_session :: "ustr \<Rightarrow> int \<Rightarrow> session_entry" where
  "sample_session book t =
     \<lparr>se_user_id = 1, se_book_uuid = book, se_started_at = t, se_ended_at = t + 60, se_seconds = 60,
      se_device_id = None, se_client_id = None, se_utc_offset = Some 0, se_time_zone = None\<rparr>"

definition no_reading :: reading_db where
  "no_reading =
     \<lparr>positions = [], marks = [], slots = [], statuses = [], hides = [], kobo_synced = [], kobo_owner = [],
      reading_sessions = [], listening_sessions = [], rates = []\<rparr>"

definition sample_reading :: reading_db where
  "sample_reading = no_reading\<lparr>reading_sessions := [sample_session [65] 5000, sample_session [66] 5000, sample_session [65] 9000]\<rparr>"

definition no_auth :: auth_db where
  "no_auth = \<lparr>users = [], user_seq = 0, sessions = [], session_seq = 0, devices = [], device_seq = 0, api_tokens = [], token_seq = 0,
     avatars = [], wishlists = [], registration_setting = None\<rparr>"

definition sample_log :: log_env where
  "sample_log =
     \<lparr>lg_lib = \<lparr>lib_books = [], lib_merged = [], lib_files = []\<rparr>, lg_titles = (\<lambda>_. None),
      lg_excluded = (\<lambda>_ _. False), lg_auth = no_auth\<rparr>"

theorem log_pages_cover_the_log_witness:
  "map_option (map (\<lambda>e. (le_book_uuid e, le_started_at e)))
     (follow_log 4 sample_log 1 \<lparr>lq_user_id = None, lq_book = None, lq_before = None, lq_limit = Some 1\<rparr> sample_reading) =
   Some [([65], 9000), ([66], 5000), ([65], 5000)]"
proof -
  let ?q = "\<lparr>lq_user_id = None, lq_book = None, lq_before = None, lq_limit = Some 1\<rparr>"
  have well: "list_all well_logged (reading_sessions sample_reading @ listening_sessions sample_reading)" by code_simp
  have log: "map sitting_key (whole_log (lg_excluded sample_log 1) 1 None sample_reading) = [(9000, [65]), (5000, [66]), (5000, [65])]"
    by code_simp
  then have "length (whole_log (lg_excluded sample_log 1) 1 None sample_reading) < 4"
    using arg_cong [of _ _ length] by fastforce
  note log_pages_cover_the_log [where q = ?q and user = 1 and reader = 1 and env = sample_log and n = 4 and book = None, OF well _ _ _ _ this]
  then have "follow_log 4 sample_log 1 ?q sample_reading =
      Some (map (log_entry_of (lg_titles sample_log)) (whole_log (lg_excluded sample_log 1) 1 None sample_reading))" by simp
  moreover have "map (\<lambda>e. (le_book_uuid e, le_started_at e)) (map (log_entry_of titles) ss) = map (\<lambda>s. (snd s, fst s)) (map sitting_key ss)" for titles ss
    by (simp add: log_entry_of_def)
  ultimately show ?thesis by (simp only: option.map log) simp
qed

subsection \<open>Streaks\<close>

text \<open>The run that ends at the last of the days walked so far, counted by its days.\<close>

definition run_at :: "int set \<Rightarrow> int \<Rightarrow> nat \<Rightarrow> bool" where
  "run_at S d n \<longleftrightarrow> {d - int n<..d} \<subseteq> S"

lemma run_at_0 [simp]: "run_at S d 0"
  by (simp add: run_at_def)

lemma run_at_Suc: "run_at S d (Suc n) \<longleftrightarrow> d \<in> S \<and> run_at S (d - 1) n"
proof -
  have "{d - int (Suc n)<..d} = insert d {d - 1 - int n<..d - 1}" by auto
  then show ?thesis by (simp add: run_at_def)
qed

lemma run_at_mono: "run_at S d n \<Longrightarrow> m \<le> n \<Longrightarrow> run_at S d m"
  by (auto simp: run_at_def subset_iff)

lemma run_at_subset: "run_at S d n \<Longrightarrow> S \<subseteq> T \<Longrightarrow> run_at T d n"
  by (auto simp: run_at_def)

lemma run_at_bound: "finite S \<Longrightarrow> run_at S d n \<Longrightarrow> n \<le> card S"
  using card_mono [of S "{d - int n<..d}"] by (simp add: run_at_def)

text \<open>
  Over a strictly ascending list the pairs, walked from either end, count the run that ends at its
  last day.
\<close>

lemma windows2_Cons [simp]: "windows2 (a # b # xs) = (a, b) # windows2 (b # xs)"
  by (simp add: windows2_def)

lemma windows2_snoc: "windows2 (xs @ [c, d]) = windows2 (xs @ [c]) @ [(c, d)]"
proof (induction xs)
  case (Cons a xs)
  then show ?case by (cases xs) simp_all
qed (simp add: windows2_def)

lemma run_at_last:
  assumes "sorted_wrt (<) (xs @ [d])" "\<And>e. e \<in> S \<Longrightarrow> e \<le> d \<Longrightarrow> e \<in> set (xs @ [d])" "set (xs @ [d]) \<subseteq> S"
  shows "run_at S d n \<longleftrightarrow> n \<le> 1 + length (takeWhile (\<lambda>(a, b). b - a = 1) (rev (windows2 (xs @ [d]))))"
  using assms
proof (induction xs arbitrary: d n rule: rev_induct)
  case Nil
  then have "d \<in> S" "d - 1 \<notin> S" by fastforce+
  then show ?case by (cases n; cases "n - 1") (auto simp: run_at_Suc windows2_def)
next
  case (snoc c xs)
  note w = windows2_snoc [of xs c d]
  have cd: "c < d" "d \<in> S" using snoc.prems by (auto simp: sorted_wrt_append)
  have below: "e \<in> set (xs @ [c])" if "e \<in> S" "e < d" for e using snoc.prems(2) [OF that(1)] that(2) by auto
  show ?case
  proof (cases "d - c = 1")
    case True
    have IH: "run_at S c k \<longleftrightarrow> k \<le> 1 + length (takeWhile (\<lambda>(a, b). b - a = 1) (rev (windows2 (xs @ [c]))))" for k
      using snoc.prems below cd(1) by (intro snoc.IH) (auto simp: sorted_wrt_append)
    show ?thesis
    proof (cases n)
      case (Suc k)
      have "d - 1 = c" using True by simp
      with Suc IH [of k] True cd(2) w show ?thesis by (simp add: run_at_Suc)
    qed simp
  next
    case False
    have "d - 1 \<notin> S"
    proof
      assume "d - 1 \<in> S"
      then have "d - 1 \<in> set (xs @ [c])" using below by simp
      then have "d - 1 \<le> c" using snoc.prems(1) by (auto simp: sorted_wrt_append)
      with cd(1) False show False by linarith
    qed
    with False cd(2) w show ?thesis by (cases n; cases "n - 1") (auto simp: run_at_Suc)
  qed
qed

abbreviation run_step :: "int \<times> int \<Rightarrow> int \<times> int \<Rightarrow> int \<times> int" where
  "run_step \<equiv> \<lambda>(a, b) (longest, run). let run' = (if b - a = 1 then run + 1 else 1) in (max longest run', run')"

lemma run_fold:
  assumes "sorted_wrt (<) (xs @ [d])"
  shows "case fold run_step (windows2 (xs @ [d])) (1, 1) of (longest, run) \<Rightarrow>
    (\<forall>n. int n \<le> longest \<longleftrightarrow> n = 0 \<or> (\<exists>e. run_at (set (xs @ [d])) e n)) \<and>
    (\<forall>n. int n \<le> run \<longleftrightarrow> run_at (set (xs @ [d])) d n)"
  using assms
proof (induction xs arbitrary: d rule: rev_induct)
  case Nil
  have one: "run_at {d} e n \<longleftrightarrow> n = 0 \<or> n = 1 \<and> e = d" for e n
    by (cases n; cases "n - 1") (auto simp: run_at_Suc)
  have "int n \<le> 1 \<longleftrightarrow> n = 0 \<or> n = 1" for n by auto
  with one show ?case by (auto simp: windows2_def)
next
  case (snoc c xs)
  let ?S = "set (xs @ [c])" and ?T = "set ((xs @ [c]) @ [d])"
  obtain l r where f: "fold run_step (windows2 (xs @ [c])) (1, 1) = (l, r)" by (cases "fold run_step (windows2 (xs @ [c])) (1, 1)")
  have "sorted_wrt (<) (xs @ [c])" using snoc.prems by (simp add: sorted_wrt_append)
  from snoc.IH [OF this] have l: "\<And>n. int n \<le> l \<longleftrightarrow> n = 0 \<or> (\<exists>e. run_at ?S e n)" and r: "\<And>n. int n \<le> r \<longleftrightarrow> run_at ?S c n"
    unfolding f prod.case by blast+
  define r' where "r' = (if d - c = 1 then r + 1 else 1)"
  have r': "int n \<le> r' \<longleftrightarrow> run_at ?T d n" for n
  proof (cases n)
    case 0
    have "0 \<le> r" using r [of 0] by simp
    then show ?thesis by (simp add: 0 r'_def)
  next
    case (Suc k)
    have same: "run_at ?T (d - 1) k \<longleftrightarrow> run_at ?S (d - 1) k" by (auto simp: run_at_def subset_iff)
    show ?thesis
    proof (cases "d - c = 1")
      case True
      then have "d - 1 = c" by simp
      with r [of k] True same show ?thesis by (simp add: Suc run_at_Suc r'_def)
    next
      case False
      have "d - 1 \<notin> ?S"
      proof
        assume "d - 1 \<in> ?S"
        then have "d - 1 \<le> c" "c < d" using snoc.prems by (auto simp: sorted_wrt_append)
        with False show False by linarith
      qed
      then have "run_at ?S (d - 1) k \<longleftrightarrow> k = 0" by (cases k) (simp_all add: run_at_Suc)
      with same False show ?thesis by (simp add: Suc run_at_Suc r'_def)
    qed
  qed
  have "int n \<le> max l r' \<longleftrightarrow> n = 0 \<or> (\<exists>e. run_at ?T e n)" for n
  proof -
    have "run_at ?T e n \<longleftrightarrow> run_at ?S e n" if "e < d" for e using that by (auto simp: run_at_def subset_iff)
    moreover have "n = 0" if "d < e" "run_at ?T e n" for e
    proof (cases n)
      case (Suc k)
      with that have "e \<in> ?T" by (simp add: run_at_Suc)
      with that(1) snoc.prems show ?thesis by (auto simp: sorted_wrt_append)
    qed
    moreover have "e < d" if "run_at ?S e n" "n \<noteq> 0" for e
      using that snoc.prems by (cases n) (auto simp: run_at_Suc sorted_wrt_append)
    ultimately have "(\<exists>e. run_at ?T e n) \<longleftrightarrow> n = 0 \<or> run_at ?T d n \<or> (\<exists>e. run_at ?S e n)"
      by (metis linorder_neqE_linordered_idom run_at_0)
    then show ?thesis using l [of n] r' [of n] by (auto simp: le_max_iff_disj)
  qed
  moreover have "fold run_step (windows2 ((xs @ [c]) @ [d])) (1, 1) = run_step (c, d) (fold run_step (windows2 (xs @ [c])) (1, 1))"
    by (simp add: windows2_snoc)
  then have "fold run_step (windows2 ((xs @ [c]) @ [d])) (1, 1) = (max l r', r')"
    unfolding f by (simp add: r'_def Let_def)
  ultimately show ?case using r' unfolding \<open>fold run_step (windows2 ((xs @ [c]) @ [d])) (1, 1) = (max l r', r')\<close> by simp
qed

lemma longest_run_spec:
  assumes "sorted_wrt (<) days"
  shows "int n \<le> longest_run days \<longleftrightarrow> n = 0 \<or> (\<exists>d. run_at (set days) d n)"
proof (cases days rule: rev_cases)
  case Nil
  have "run_at {} d n \<longleftrightarrow> n = 0" for d by (cases n) (simp_all add: run_at_Suc)
  with Nil show ?thesis by (simp add: longest_run_def windows2_def)
next
  case (snoc xs d)
  from run_fold [of xs d] assms show ?thesis by (simp add: snoc longest_run_def case_prod_beta)
qed

lemma upto_today_filter: "sorted_wrt (<) days \<Longrightarrow> upto_today today days = filter (\<lambda>d. d \<le> today) days"
proof (induction days rule: rev_induct)
  case (snoc d days)
  then show ?case
    by (auto simp: upto_today_def sorted_wrt_append intro!: filter_True [symmetric])
qed (simp add: upto_today_def)

lemma current_run_spec:
  assumes "sorted_wrt (<) days"
  shows "int n \<le> current_run days today \<longleftrightarrow> run_at (set days) today n \<or> run_at (set days) (today - 1) n"
proof -
  let ?A = "set days" and ?up = "filter (\<lambda>d. d \<le> today) days"
  have cur: "current_run days today = (if ?up = [] then 0 else if last ?up < today - 1 then 0
      else 1 + int (length (takeWhile (\<lambda>(a, b). b - a = 1) (rev (windows2 ?up)))))"
    by (simp add: current_run_def upto_today_filter [OF assms] Let_def)
  have none: "run_at ?A d n \<longleftrightarrow> n = 0" if "d \<notin> ?A" for d using that by (cases n) (simp_all add: run_at_Suc)
  show ?thesis
  proof (cases ?up rule: rev_cases)
    case Nil
    then have "today \<notin> ?A" "today - 1 \<notin> ?A" by (auto simp: filter_empty_conv)
    then show ?thesis by (simp add: cur Nil none)
  next
    case (snoc xs d)
    have d: "d \<in> ?A" "d \<le> today"
    proof -
      have "d \<in> set ?up" unfolding snoc by simp
      then show "d \<in> ?A" "d \<le> today" by simp_all
    qed
    have top: "e \<le> d" if "e \<in> ?A" "e \<le> today" for e
    proof -
      have "e \<in> set (xs @ [d])" unfolding snoc [symmetric] using that by simp
      moreover have "sorted_wrt (<) (xs @ [d])" unfolding snoc [symmetric] using assms by (rule sorted_wrt_filter)
      ultimately show ?thesis by (auto simp: sorted_wrt_append)
    qed
    have run: "run_at ?A d n \<longleftrightarrow> n \<le> 1 + length (takeWhile (\<lambda>(a, b). b - a = 1) (rev (windows2 ?up)))" for n
      unfolding snoc
    proof (rule run_at_last)
      show "sorted_wrt (<) (xs @ [d])" unfolding snoc [symmetric] using assms by (rule sorted_wrt_filter)
      show "set (xs @ [d]) \<subseteq> ?A" unfolding snoc [symmetric] by simp
      show "\<And>e. e \<in> ?A \<Longrightarrow> e \<le> d \<Longrightarrow> e \<in> set (xs @ [d])" unfolding snoc [symmetric] using d(2) by simp
    qed
    have last: "last ?up = d" unfolding snoc by simp
    consider "d = today" | "d = today - 1" | "d < today - 1" using d(2) by linarith
    then show ?thesis
    proof cases
      case 1
      have "run_at ?A (today - 1) n \<longrightarrow> run_at ?A today n"
        using run_at_Suc [of ?A today n] run_at_mono [of ?A today "Suc n" n] d(1) 1 by auto
      then show ?thesis using run [of n] snoc 1 last by (simp add: cur) linarith
    next
      case 2
      have "today \<notin> ?A" using top [of today] 2 by auto
      then have "run_at ?A today n \<longleftrightarrow> n = 0" by (rule none)
      then show ?thesis using run [of n] snoc 2 last by (simp add: cur) (metis run_at_0 of_nat_0_le_iff of_nat_Suc of_nat_le_iff)
    next
      case 3
      have "today \<notin> ?A" "today - 1 \<notin> ?A" using top [of today] top [of "today - 1"] 3 by auto
      then show ?thesis using 3 snoc last by (simp add: cur none)
    qed
  qed
qed

abbreviation days_read :: "(ustr \<Rightarrow> bool) \<Rightarrow> int \<Rightarrow> int \<Rightarrow> int \<Rightarrow> reading_db \<Rightarrow> int set" where
  "days_read excluded uid start off db \<equiv>
     (\<lambda>r. local_day_number off (sw_started r)) ` set (kept_sessions excluded uid start db)"

lemma active_days_facts:
  "set (active_days excluded uid start off db) = days_read excluded uid start off db"
  "sorted_wrt (<) (active_days excluded uid start off db)"
  "length (active_days excluded uid start off db) = card (days_read excluded uid start off db)"
proof -
  show s: "set (active_days excluded uid start off db) = days_read excluded uid start off db"
    by (simp add: active_days_def)
  show "sorted_wrt (<) (active_days excluded uid start off db)"
    by (simp add: active_days_def strict_sorted_iff)
  have "distinct (active_days excluded uid start off db)" by (simp add: active_days_def)
  from distinct_card [OF this] show "length (active_days excluded uid start off db) = card (days_read excluded uid start off db)"
    unfolding s by simp
qed

text \<open>
  C35: the streak figures are the number of days with a session in the window, the length of the longest
  run of such days, and, of the days of any time, the length of the run that ends today or, with
  nothing read yet today, yesterday: sessions a fast clock filed in the future neither lengthen nor
  break it.
\<close>

theorem streaks_are_the_longest_runs:
  "sk_active_days (streak excluded uid start today off db) = int (card (days_read excluded uid start off db)) \<and>
   (int n \<le> sk_longest_days (streak excluded uid start today off db) \<longleftrightarrow>
     n = 0 \<or> (\<exists>d. {d - int n<..d} \<subseteq> days_read excluded uid start off db)) \<and>
   (int n \<le> sk_current_days (streak excluded uid start today off db) \<longleftrightarrow>
     {today - int n<..today} \<subseteq> days_read excluded uid 0 off db \<or>
     {today - 1 - int n<..today - 1} \<subseteq> days_read excluded uid 0 off db)"
  using longest_run_spec [OF active_days_facts(2), of n excluded uid start off db]
    current_run_spec [OF active_days_facts(2), of n excluded uid 0 off db today]
  unfolding active_days_facts(1) run_at_def
  by (cases "start = 0") (simp_all add: streak_def Let_def active_days_facts(3))

subsection \<open>A clock from the year 10000\<close>

lemma None_in_group_sum: "k \<in> fst ` set (group_sum rows) \<longleftrightarrow> k \<in> fst ` set rows"
  by (force simp: group_sum_def)

lemma day_activity_panics: "day_activity off rows = Panics \<longleftrightarrow> list_ex (\<lambda>r. \<not> renderable (sw_started r + shift off)) rows"
proof -
  have "None \<in> fst ` set (map (\<lambda>r. (sql_day off (sw_started r), sw_secs r)) rows) \<longleftrightarrow>
      list_ex (\<lambda>r. \<not> renderable (sw_started r + shift off)) rows"
    by (auto simp: list_ex_iff sql_day_def image_iff split: if_splits)
  then show ?thesis unfolding day_activity_def Let_def None_in_group_sum by simp
qed

lemma heatmap_panics:
  "heatmap excluded uid start off db = Panics \<longleftrightarrow>
   (\<exists>s \<in> set (reading_sessions db @ listening_sessions db).
     se_user_id s = uid \<and> start \<le> se_started_at s \<and> \<not> excluded (se_book_uuid s) \<and>
     \<not> renderable (se_started_at s + shift off))"
  by (simp add: heatmap_def day_activity_panics kept_sessions_def list_ex_iff sit_row_of_def Let_def bex_Un) blast

lemma shift_bounds: "- 43200 \<le> shift off" "shift off \<le> 50400"
  by (auto simp: shift_def bounded_def UTC_OFFSET_MIN_MINUTES_def UTC_OFFSET_MAX_MINUTES_def)

lemma recorded_session:
  assumes "resolve_canonical_book_uuid (pe_lib env) (sr_book_uuid r) = Some book" "sr_client_id r = None"
  shows "fst (record_session env uid r db)"
    "session_of uid r book \<in> set (reading_sessions (snd (record_session env uid r db)) @ listening_sessions (snd (record_session env uid r db)))"
  using assms by (auto simp: record_session_def insert_reading_session_def insert_or_ignore_def session_of_def split: progress_format.split)

text \<open>
  C37: one session whose start lies past the year 9999, as a client has it that sends milliseconds, passes
  the report's validation, is recorded, and from then on every heatmap of the reader panics on the
  NULL day, whatever the window, unless the book is left out of the stats.
\<close>

theorem wild_clock_breaks_the_heatmap:
  assumes "validate_report r = Inr ()" and "253402300800 + 43200 \<le> sr_started_at r"
    and "resolve_canonical_book_uuid (pe_lib env) (sr_book_uuid r) = Some book" and "sr_client_id r = None"
    and "\<not> excluded book" and "start < 253402300800"
  shows "fst (record_session env uid r db) \<and>
    heatmap excluded uid start off (snd (record_session env uid r db)) = Panics"
proof -
  have "\<not> renderable (sr_started_at r + shift off)"
    using assms(2) shift_bounds(1) [of off] by (simp add: renderable_def)
  moreover have "start \<le> sr_started_at r" using assms(2,6) by simp
  ultimately show ?thesis
    unfolding heatmap_panics using recorded_session [OF assms(3,4), of uid db] assms(5)
    by (intro conjI bexI [of _ "session_of uid r book"]) (simp_all add: session_of_def)
qed

definition wild_report :: session_report where
  "wild_report =
     \<lparr>sr_book_uuid = [65], sr_format = Epub, sr_started_at = 1735689600000, sr_ended_at = 1735689660000,
      sr_progress_units = 60, sr_device_id = None, sr_client_id = None, sr_utc_offset_minutes = Some 60, sr_time_zone = None\<rparr>"

definition one_book :: progress_env where
  "one_book = \<lparr>pe_lib = \<lparr>lib_books = [\<lparr>bk_id = 1, bk_uuid = [65]\<rparr>], lib_merged = [], lib_files = []\<rparr>,
     pe_series_of = (\<lambda>_. []), pe_now = 1735689660\<rparr>"

theorem wild_clock_breaks_the_heatmap_witness:
  "heatmap (\<lambda>_. False) 1 1735689600 60 (snd (record_session one_book 1 wild_report no_reading)) = Panics"
proof -
  have v: "validate_report wild_report = Inr ()" by code_simp
  have l: "253402300800 + 43200 \<le> sr_started_at wild_report" by (simp add: wild_report_def)
  have b: "resolve_canonical_book_uuid (pe_lib one_book) (sr_book_uuid wild_report) = Some [65]" by code_simp
  have c: "sr_client_id wild_report = None" by (simp add: wild_report_def)
  show ?thesis using wild_clock_breaks_the_heatmap [OF v l b c] by simp
qed

subsection \<open>Who sees whose log\<close>

definition sessions_of_readers :: "int set \<Rightarrow> reading_db \<Rightarrow> session_entry list \<times> session_entry list" where
  "sessions_of_readers U db =
     (filter (\<lambda>s. se_user_id s \<in> U) (reading_sessions db), filter (\<lambda>s. se_user_id s \<in> U) (listening_sessions db))"

lemma filter_by_user:
  "filter (\<lambda>s. se_user_id s \<in> U) xs = filter (\<lambda>s. se_user_id s \<in> U) ys \<Longrightarrow> uid \<in> U \<Longrightarrow>
   filter (\<lambda>s. se_user_id s = uid \<and> P s) xs = filter (\<lambda>s. se_user_id s = uid \<and> P s) ys"
proof -
  assume U: "filter (\<lambda>s. se_user_id s \<in> U) xs = filter (\<lambda>s. se_user_id s \<in> U) ys" and u: "uid \<in> U"
  have "filter (\<lambda>s. se_user_id s = uid \<and> P s) zs =
      filter (\<lambda>s. se_user_id s = uid \<and> P s) (filter (\<lambda>s. se_user_id s \<in> U) zs)" for zs
    using u unfolding filter_filter by (intro filter_cong) auto
  with U show ?thesis by metis
qed

lemma session_log_own_rows:
  assumes "sessions_of_readers U db = sessions_of_readers U db'" "uid \<in> U"
  shows "session_log lib titles excluded uid book before limit db = session_log lib titles excluded uid book before limit db'"
proof -
  have "user_session_rows excluded kept uid db = user_session_rows excluded kept uid db'" for kept
    using assms filter_by_user [of U "reading_sessions db" "reading_sessions db'" uid "\<lambda>s. kept \<longrightarrow> \<not> excluded (se_book_uuid s)"]
      filter_by_user [of U "listening_sessions db" "listening_sessions db'" uid "\<lambda>s. kept \<longrightarrow> \<not> excluded (se_book_uuid s)"]
    by (simp add: sessions_of_readers_def user_session_rows_def)
  then have "page_rows excluded uid b before cap db = page_rows excluded uid b before cap db'" for b cap
    unfolding page_rows_def by (cases b) simp_all
  then show ?thesis unfolding session_log_def by presburger
qed

text \<open>
  C36: no request for a session log tells anything of the sessions of a reader who neither asks nor
  shares: it is answered alike whatever they are. Asking for such a reader's log is answered as asking
  for one who does not exist.
\<close>

theorem log_reveals_only_shared:
  assumes "sessions_of_readers {uid. uid = user \<or> get_share_stats uid (lg_auth env)} db =
    sessions_of_readers {uid. uid = user \<or> get_share_stats uid (lg_auth env)} db'"
  shows "get_session_log env user q db = get_session_log env user q db' \<and>
    (lq_user_id q = Some t \<and> t \<noteq> user \<and> \<not> get_share_stats t (lg_auth env) \<longrightarrow>
      get_session_log env user q db = (if test_opt (\<lambda>raw. parse_cursor raw = None) (lq_before q) then Bad_Cursor else Not_Sharing))"
proof
  let ?U = "{uid. uid = user \<or> get_share_stats uid (lg_auth env)}"
  have log: "session_log lib titles excluded uid book before limit db = session_log lib titles excluded uid book before limit db'"
    if "uid \<in> ?U" for lib titles excluded uid book before limit
    using assms that by (rule session_log_own_rows)
  have "session_log_for_viewer env user (lq_user_id q) book before limit db =
      session_log_for_viewer env user (lq_user_id q) book before limit db'" for book before limit
    using log by (auto simp: session_log_for_viewer_def may_view_stats_def split: option.split)
  then show "get_session_log env user q db = get_session_log env user q db'"
    by (simp add: get_session_log_def)
  show "lq_user_id q = Some t \<and> t \<noteq> user \<and> \<not> get_share_stats t (lg_auth env) \<longrightarrow>
      get_session_log env user q db = (if test_opt (\<lambda>raw. parse_cursor raw = None) (lq_before q) then Bad_Cursor else Not_Sharing)"
    by (auto simp: get_session_log_def session_log_for_viewer_def may_view_stats_def test_opt_def split: option.split)
qed

theorem log_reveals_only_shared_witness:
  "get_session_log sample_log 2 \<lparr>lq_user_id = Some 1, lq_book = None, lq_before = None, lq_limit = None\<rparr> sample_reading = Not_Sharing"
proof -
  have s: "\<not> get_share_stats 1 (lg_auth sample_log)" by code_simp
  from log_reveals_only_shared [OF refl, where env = sample_log and user = 2 and db = sample_reading and t = 1
      and q = "\<lparr>lq_user_id = Some 1, lq_book = None, lq_before = None, lq_limit = None\<rparr>"] s
  show ?thesis by (simp add: test_opt_def)
qed

subsection \<open>The cache\<close>

text \<open>
  C38: a summary stored under a reader, a window and an offset is served to that reader for that window
  and offset alone, for less than a minute, and no longer once the reader's entries are dropped; but
  a summary computed before a change and stored after the change dropped the entries is served as the
  present one for the rest of the minute.
\<close>

theorem cached_summaries_serve_their_reader:
  assumes "cache_get uid rng off clk cache = None" and "0 \<le> clk' - clk" and "clk' - clk < STATS_TTL_SECS"
  shows "cache_get uid' rng' off' clk'
      (cache_put uid rng off clk (snd (user_stats_read compute uid rng off clk old cache)) (invalidate_user uid cache)) =
    (if (uid', rng', off') = (uid, rng, off) then Some (compute old uid rng off)
     else if uid' = uid then None
     else case cache (uid', rng', off') of
       Some (stored, s) \<Rightarrow> if clk' - stored < STATS_TTL_SECS then Some s else None
     | None \<Rightarrow> None) \<and>
    user_stats_at compute uid rng off clk' new
      (cache_put uid rng off clk (snd (user_stats_read compute uid rng off clk old cache)) (invalidate_user uid cache)) =
    (compute old uid rng off,
     cache_put uid rng off clk (snd (user_stats_read compute uid rng off clk old cache)) (invalidate_user uid cache))"
proof -
  have read: "snd (user_stats_read compute uid rng off clk old cache) = compute old uid rng off"
    using assms(1) by (simp add: user_stats_read_def)
  show ?thesis
    unfolding read using assms(2,3)
    by (auto simp: cache_get_def cache_put_def invalidate_user_def user_stats_at_def user_stats_read_def
        STATS_TTL_SECS_def split: option.splits)
qed

theorem cached_summaries_serve_their_reader_witness:
  "fst (user_stats_at (\<lambda>goal _ _ _. goal) 1 Year 0 1030 (24 :: int)
     (cache_put 1 Year 0 1000 (snd (user_stats_read (\<lambda>goal _ _ _. goal) 1 Year 0 1000 12 Map.empty)) (invalidate_user 1 Map.empty))) = 12"
proof -
  have "cache_get 1 Year 0 1000 (Map.empty :: int stats_cache) = None" by (simp add: cache_get_def)
  from cached_summaries_serve_their_reader [OF this, where clk' = 1030 and compute = "\<lambda>goal _ _ _. goal" and old = 12 and new = 24]
  show ?thesis by (simp add: STATS_TTL_SECS_def)
qed

end
