(* ===== verification/Library_Diff.thy ===== *)
theory Library_Diff
  imports Omni_Prelude "HOL-Library.List_Lexorder" "HOL-Library.Product_Lexorder"
begin

text \<open>
  The library scan's classifier (\<open>db/src/indexer/mod.rs\<close>): what a walk of the disk saw against what
  the database holds, file by file, into the six buckets the writer applies, with the matcher that
  recognises a relocated file and the breakers that keep a scan fault from eroding the library. A
  \<open>HashMap\<close> is the list of its entries; no result depends on their order, since every bucket is sorted.
\<close>

subsection \<open>Paths\<close>

text \<open>
  The last component of a path and what stands before and after its last dot, as \<open>std::path\<close> has it
  on Unix: empty and \<open>.\<close> components do not count, \<open>..\<close> is not a name, a leading dot begins no
  extension.
\<close>

definition file_name :: "ustr \<Rightarrow> ustr option" where
  "file_name p =
     (let parts = filter (\<lambda>c. c \<noteq> [] \<and> c \<noteq> [46]) (split_on 47 p)
      in if parts = [] \<or> last parts = [46, 46] then None else Some (last parts))"

definition file_stem :: "ustr \<Rightarrow> ustr option" where
  "file_stem p =
     map_option (\<lambda>f. case rsplit_once 46 f of Some (base, _) \<Rightarrow> if base = [] then f else base | None \<Rightarrow> f) (file_name p)"

definition extension :: "ustr \<Rightarrow> ustr option" where
  "extension p =
     Option.bind (file_name p)
       (\<lambda>f. case rsplit_once 46 f of Some (base, ext) \<Rightarrow> if base = [] then None else Some ext | None \<Rightarrow> None)"

definition to_ascii_uppercase :: "ustr \<Rightarrow> ustr" where
  "to_ascii_uppercase = map (\<lambda>c. if 97 \<le> c \<and> c \<le> 122 then c - 32 else c)"

definition path_join :: "ustr \<Rightarrow> ustr \<Rightarrow> ustr" where
  "path_join root p =
     (if starts_with [47] p then p else if root = [] \<or> ends_with [47] root then root @ p else root @ 47 # p)"

definition path_stem :: "ustr \<Rightarrow> ustr" where
  "path_stem scan_key = (case file_stem scan_key of Some s \<Rightarrow> s | None \<Rightarrow> scan_key)"

definition path_format :: "ustr \<Rightarrow> ustr" where
  "path_format scan_key = (case extension scan_key of Some e \<Rightarrow> to_ascii_uppercase e | None \<Rightarrow> str ''UNKNOWN'')"

subsection \<open>Both sides of the diff\<close>

record stat_entry =
  sn_filename :: ustr
  sn_scan_key :: ustr
  sn_mtime :: int
  sn_size :: int

record indexed_row =
  ix_uuid :: ustr
  ix_scan_key :: ustr
  ix_has_file :: bool
  ix_mtime :: int
  ix_size :: int

record parse_target =
  pt_filename :: ustr
  pt_absolute :: ustr
  pt_mtime :: int
  pt_size :: int

record moved_file =
  mv_uuid :: ustr
  mv_filename :: ustr

record reindex_diff =
  rd_unchanged :: "ustr list"
  rd_new :: "parse_target list"
  rd_changed :: "parse_target list"
  rd_moved :: "moved_file list"
  rd_removed :: "ustr list"
  rd_backfill :: "(ustr \<times> int \<times> int) list"

definition no_diff :: reindex_diff where
  "no_diff = \<lparr>rd_unchanged = [], rd_new = [], rd_changed = [], rd_moved = [], rd_removed = [], rd_backfill = []\<rparr>"

text \<open>\<open>filter(non-empty key).collect()\<close> into a map: of equal keys the last entry stays.\<close>

fun by_key :: "('a \<Rightarrow> ustr) \<Rightarrow> 'a list \<Rightarrow> 'a list" where
  "by_key key [] = []"
| "by_key key (x # xs) = (if key x = [] \<or> key x \<in> key ` set xs then by_key key xs else x # by_key key xs)"

definition lookup :: "('a \<Rightarrow> ustr) \<Rightarrow> 'a list \<Rightarrow> ustr \<Rightarrow> 'a option" where
  "lookup key xs k = List.find (\<lambda>x. key x = k) xs"

subsection \<open>Arrivals and departures\<close>

definition parse_target_of :: "ustr \<Rightarrow> stat_entry \<Rightarrow> parse_target" where
  "parse_target_of root e =
     \<lparr>pt_filename = sn_filename e, pt_absolute = path_join root (sn_filename e), pt_mtime = sn_mtime e, pt_size = sn_size e\<rparr>"

definition classify_arrival ::
  "indexed_row list \<Rightarrow> ustr \<Rightarrow> stat_entry \<Rightarrow> reindex_diff \<times> stat_entry list \<Rightarrow> reindex_diff \<times> stat_entry list" where
  "classify_arrival db_by_key root e = (\<lambda>(out, arrivals).
     case lookup ix_scan_key db_by_key (sn_scan_key e) of
       None \<Rightarrow> (out, arrivals @ [e])
     | Some row \<Rightarrow>
         if \<not> ix_has_file row then (out\<lparr>rd_changed := rd_changed out @ [parse_target_of root e]\<rparr>, arrivals)
         else if ix_mtime row = 0 \<and> ix_size row = 0 then
           (out\<lparr>rd_backfill := rd_backfill out @ [(ix_uuid row, sn_mtime e, sn_size e)]\<rparr>, arrivals)
         else if ix_mtime row = sn_mtime e \<and> ix_size row = sn_size e then
           (out\<lparr>rd_unchanged := rd_unchanged out @ [ix_uuid row]\<rparr>, arrivals)
         else (out\<lparr>rd_changed := rd_changed out @ [parse_target_of root e]\<rparr>, arrivals))"

definition classify_arrivals ::
  "stat_entry list \<Rightarrow> indexed_row list \<Rightarrow> ustr \<Rightarrow> reindex_diff \<Rightarrow> reindex_diff \<times> stat_entry list" where
  "classify_arrivals disk_by_key db_by_key root out = fold (classify_arrival db_by_key root) disk_by_key (out, [])"

definition collect_departures :: "indexed_row list \<Rightarrow> stat_entry list \<Rightarrow> bool \<Rightarrow> indexed_row list" where
  "collect_departures db disk_by_key trustworthy =
     (if \<not> trustworthy then []
      else filter (\<lambda>row. lookup sn_scan_key disk_by_key (ix_scan_key row) = None)
        (filter (\<lambda>row. ix_scan_key row \<noteq> [] \<and> ix_has_file row) db))"

subsection \<open>Moves\<close>

text \<open>\<open>entry(key).or_default().push(i)\<close> over the given places of a list.\<close>

definition index_groups :: "(nat \<Rightarrow> 'k) \<Rightarrow> nat list \<Rightarrow> ('k \<times> nat list) list" where
  "index_groups key places = map (\<lambda>k. (k, filter (\<lambda>i. key i = k) places)) (remdups (map key places))"

definition match_key :: "int \<Rightarrow> int \<Rightarrow> ustr \<Rightarrow> int \<times> int \<times> ustr" where
  "match_key sz mtime scan_key = (sz, mtime, path_format scan_key)"

definition observed :: "int \<Rightarrow> int \<Rightarrow> bool" where
  "observed sz mtime \<longleftrightarrow> \<not> (sz = 0 \<and> mtime = 0)"

text \<open>Of the groups both sides have, those with one place on each.\<close>

definition single_pairs :: "('k \<times> nat list) list \<Rightarrow> ('k \<times> nat list) list \<Rightarrow> (nat \<times> nat) list" where
  "single_pairs removed_groups new_groups =
     concat (map (\<lambda>(k, rs). case map_of new_groups k of
         Some [n] \<Rightarrow> (case rs of [r] \<Rightarrow> [(r, n)] | _ \<Rightarrow> [])
       | _ \<Rightarrow> []) removed_groups)"

definition push_stem_matches ::
  "indexed_row list \<Rightarrow> stat_entry list \<Rightarrow> nat list \<Rightarrow> nat list \<Rightarrow> (nat \<times> nat) list" where
  "push_stem_matches removed arrived removed_group new_group =
     single_pairs (index_groups (\<lambda>i. path_stem (ix_scan_key (removed ! i))) removed_group)
       (index_groups (\<lambda>j. path_stem (sn_scan_key (arrived ! j))) new_group)"

definition match_moved_files :: "indexed_row list \<Rightarrow> stat_entry list \<Rightarrow> (nat \<times> nat) list" where
  "match_moved_files removed arrived =
     (let removed_by_pair = index_groups (\<lambda>i. match_key (ix_size (removed ! i)) (ix_mtime (removed ! i)) (ix_scan_key (removed ! i)))
            (filter (\<lambda>i. observed (ix_size (removed ! i)) (ix_mtime (removed ! i))) [0..<length removed]);
          new_by_pair = index_groups (\<lambda>j. match_key (sn_size (arrived ! j)) (sn_mtime (arrived ! j)) (sn_scan_key (arrived ! j)))
            (filter (\<lambda>j. observed (sn_size (arrived ! j)) (sn_mtime (arrived ! j))) [0..<length arrived])
      in concat (map (\<lambda>(pair, removed_group). case map_of new_by_pair pair of
             None \<Rightarrow> []
           | Some new_group \<Rightarrow>
               (case (removed_group, new_group) of
                  ([r], [n]) \<Rightarrow> [(r, n)]
                | _ \<Rightarrow> push_stem_matches removed arrived removed_group new_group))
           removed_by_pair))"

definition split_moved :: "indexed_row list \<Rightarrow> stat_entry list \<Rightarrow> ustr \<Rightarrow> reindex_diff \<Rightarrow> reindex_diff" where
  "split_moved departures arrivals root out =
     (let matches = match_moved_files departures arrivals
      in out\<lparr>
        rd_moved := rd_moved out @
          map (\<lambda>(d, a). \<lparr>mv_uuid = ix_uuid (departures ! d), mv_filename = sn_filename (arrivals ! a)\<rparr>) matches,
        rd_new := rd_new out @
          map (\<lambda>j. parse_target_of root (arrivals ! j)) (filter (\<lambda>j. j \<notin> snd ` set matches) [0..<length arrivals]),
        rd_removed := rd_removed out @
          map (\<lambda>i. ix_uuid (departures ! i)) (filter (\<lambda>i. i \<notin> fst ` set matches) [0..<length departures])\<rparr>)"

definition sort_buckets :: "reindex_diff \<Rightarrow> reindex_diff" where
  "sort_buckets out =
     out\<lparr>rd_new := sort_key pt_filename (rd_new out), rd_changed := sort_key pt_filename (rd_changed out),
         rd_moved := sort_key (\<lambda>m. (mv_filename m, mv_uuid m)) (rd_moved out),
         rd_unchanged := sort (rd_unchanged out), rd_removed := sort (rd_removed out),
         rd_backfill := sort_key fst (rd_backfill out)\<rparr>"

definition diff_library :: "stat_entry list \<Rightarrow> indexed_row list \<Rightarrow> ustr \<Rightarrow> bool \<Rightarrow> reindex_diff" where
  "diff_library disk db root trustworthy =
     (let disk_by_key = by_key sn_scan_key disk;
          db_by_key = by_key ix_scan_key db;
          (out, arrivals) = classify_arrivals disk_by_key db_by_key root no_diff;
          departures = collect_departures db disk_by_key trustworthy
      in sort_buckets (split_moved departures arrivals root out))"

subsection \<open>Breakers\<close>

definition MASS_MISSING_MIN_ABSOLUTE :: nat where "MASS_MISSING_MIN_ABSOLUTE = 10"

definition enumeration_is_trustworthy :: "bool \<Rightarrow> bool \<Rightarrow> bool \<Rightarrow> bool" where
  "enumeration_is_trustworthy incomplete saw_any_file db_has_files =
     (if incomplete then False else saw_any_file \<or> \<not> db_has_files)"

text \<open>
  The fraction removed of the library against 0.2 and 0.1 in whole numbers: library sizes are far
  below what an \<open>f64\<close> holds exactly, and its division rounds to nearest, so it exceeds the nearest
  double of a fifth only if the quotient does. The error's percentage, a figure of its message, is left
  out.
\<close>

record mass_missing =
  mm_removed :: nat
  mm_total :: nat

definition check_mass_missing :: "nat \<Rightarrow> nat \<Rightarrow> mass_missing + unit" where
  "check_mass_missing removed db_file_backed =
     (if removed \<le> MASS_MISSING_MIN_ABSOLUTE \<or> db_file_backed = 0 then Inr ()
      else if 5 * removed > db_file_backed then Inl \<lparr>mm_removed = removed, mm_total = db_file_backed\<rparr>
      else Inr ())"

definition ghost_warning_threshold_exceeded :: "nat \<Rightarrow> nat \<Rightarrow> bool" where
  "ghost_warning_threshold_exceeded removed db_file_backed =
     (if removed \<le> MASS_MISSING_MIN_ABSOLUTE \<or> db_file_backed = 0 then False else 10 * removed > db_file_backed)"

definition REFRESH_AFTER_SECS :: int where "REFRESH_AFTER_SECS = 60 * 60"

definition is_stale_decision :: "int \<Rightarrow> int \<Rightarrow> bool" where
  "is_stale_decision indexed_at clk = (clk - indexed_at \<ge> REFRESH_AFTER_SECS)"

text \<open>
  Phase A of a reindex after the walk: the trust in the enumeration, the diff, the breaker. The
  walk's answer, and the rows of both projections, are arguments.
\<close>

record stat_scan =
  ss_entries :: "stat_entry list"
  ss_incomplete :: bool
  ss_saw_any_file :: bool

definition diff_phase :: "stat_scan \<Rightarrow> indexed_row list \<Rightarrow> ustr \<Rightarrow> mass_missing + reindex_diff" where
  "diff_phase scan db root =
     (let db_file_backed = length (filter ix_has_file db);
          trustworthy = enumeration_is_trustworthy (ss_incomplete scan) (ss_saw_any_file scan) (db_file_backed > 0);
          diff = diff_library (ss_entries scan) db root trustworthy
      in and_then (check_mass_missing (length (rd_removed diff)) db_file_backed) (\<lambda>_. Inr diff))"

end
