(* ===== verification/Library_Diff_Rules.thy ===== *)
theory Library_Diff_Rules
  imports Library_Diff "HOL-Library.Multiset"
begin

text \<open>
  What the classifier promises: every file seen and every book held lands in exactly one bucket,
  a relocation is only read into a pair no other file could be mistaken for, and a scan that did not
  see the library removes nothing.
\<close>

subsection \<open>Maps and groups\<close>

lemma by_key_keys: "key ` set (by_key key xs) = key ` set xs - {[]}"
  by (induction xs) auto

lemma by_key_subset: "set (by_key key xs) \<subseteq> set xs"
  by (induction xs) auto

lemma by_key_distinct: "distinct (map key (by_key key xs))"
proof (induction xs)
  case (Cons x xs)
  then show ?case using by_key_keys [of key xs] by auto
qed simp

lemma lookup_Some: "lookup key xs k = Some x \<Longrightarrow> x \<in> set xs \<and> key x = k"
  by (auto simp: lookup_def find_Some_iff)

lemma lookup_None: "lookup key xs k = None \<longleftrightarrow> k \<notin> key ` set xs"
  by (auto simp: lookup_def find_None_iff)

lemma distinct_concat_keyed:
  assumes "distinct ks" "\<And>k. k \<in> set ks \<Longrightarrow> distinct (f k)" "\<And>k x. k \<in> set ks \<Longrightarrow> x \<in> set (f k) \<Longrightarrow> key x = k"
  shows "distinct (concat (map f ks))"
  using assms
proof (induction ks)
  case (Cons k ks)
  have "set (f k) \<inter> set (concat (map f ks)) = {}"
  proof -
    have False if x: "x \<in> set (f k)" "x \<in> set (concat (map f ks))" for x
    proof -
      from x(2) obtain j where "j \<in> set ks" "x \<in> set (f j)" by auto
      with Cons.prems(1) Cons.prems(3) [of k x] Cons.prems(3) [of j x] x(1) show False by auto
    qed
    then show ?thesis by blast
  qed
  with Cons show ?case by simp
qed simp

lemma map_of_index_groups:
  "map_of (index_groups g Q) k = (if k \<in> g ` set Q then Some (filter (\<lambda>j. g j = k) Q) else None)"
  by (simp add: index_groups_def map_of_map_restrict restrict_map_def)

definition pairs_at :: "(nat \<Rightarrow> 'k) \<Rightarrow> nat list \<Rightarrow> (nat \<Rightarrow> 'k) \<Rightarrow> nat list \<Rightarrow> 'k \<Rightarrow> (nat \<times> nat) list" where
  "pairs_at f P g Q k = (case map_of (index_groups g Q) k of
      Some [n] \<Rightarrow> (case filter (\<lambda>i. f i = k) P of [r] \<Rightarrow> [(r, n)] | _ \<Rightarrow> []) | _ \<Rightarrow> [])"

lemma pairs_at_mem:
  "(r, n) \<in> set (pairs_at f P g Q k) \<longleftrightarrow> filter (\<lambda>i. f i = k) P = [r] \<and> filter (\<lambda>j. g j = k) Q = [n]"
proof -
  have "filter (\<lambda>j. g j = k) Q = [] \<longleftrightarrow> k \<notin> g ` set Q" by (auto simp: filter_empty_conv)
  then show ?thesis unfolding pairs_at_def map_of_index_groups by (auto split: list.split)
qed

lemma single_pairs_groups:
  "single_pairs (index_groups f P) (index_groups g Q) = concat (map (pairs_at f P g Q) (remdups (map f P)))"
  unfolding single_pairs_def pairs_at_def index_groups_def [of f] by (simp add: o_def)

lemma filter_single: "filter p xs = [x] \<Longrightarrow> x \<in> set xs \<and> p x"
proof -
  assume "filter p xs = [x]"
  then have "x \<in> set (filter p xs)" by simp
  then show ?thesis by simp
qed

lemma single_pairs_mem:
  "(r, n) \<in> set (single_pairs (index_groups f P) (index_groups g Q)) \<longleftrightarrow>
   filter (\<lambda>i. f i = f r) P = [r] \<and> filter (\<lambda>j. g j = f r) Q = [n]"
  (is "?l \<longleftrightarrow> ?r")
proof
  assume ?l
  then obtain k where "k \<in> set (remdups (map f P))" "(r, n) \<in> set (pairs_at f P g Q k)"
    unfolding single_pairs_groups set_concat set_map by blast
  moreover from this(2) have "f r = k" unfolding pairs_at_mem using filter_single by fastforce
  ultimately show ?r unfolding pairs_at_mem by simp
next
  assume ?r
  then have "f r \<in> set (remdups (map f P))" using filter_single by fastforce
  moreover have "(r, n) \<in> set (pairs_at f P g Q (f r))" unfolding pairs_at_mem using \<open>?r\<close> .
  ultimately show ?l unfolding single_pairs_groups set_concat set_map by blast
qed

lemma distinct_pairs_at: "distinct (map h (pairs_at f P g Q k))"
proof -
  have "distinct (map h (case opt of Some [n] \<Rightarrow> (case xs of [r] \<Rightarrow> [(r, n)] | _ \<Rightarrow> []) | _ \<Rightarrow> []))"
    for opt :: "nat list option" and xs :: "nat list"
    by (auto split: option.split list.split)
  then show ?thesis unfolding pairs_at_def .
qed

lemma single_pairs_distinct:
  "distinct (map fst (single_pairs (index_groups f P) (index_groups g Q)))"
  "distinct (map snd (single_pairs (index_groups f P) (index_groups g Q)))"
proof -
  have fst: "f (fst p) = k" and snd: "g (snd p) = k" if p: "p \<in> set (pairs_at f P g Q k)" for p k
  proof -
    obtain r n where rn: "p = (r, n)" by (cases p)
    from p have fl: "filter (\<lambda>i. f i = k) P = [r]" "filter (\<lambda>j. g j = k) Q = [n]" unfolding rn pairs_at_mem by simp_all
    show "f (fst p) = k" "g (snd p) = k" using filter_single [OF fl(1)] filter_single [OF fl(2)] by (simp_all add: rn)
  qed
  show "distinct (map fst (single_pairs (index_groups f P) (index_groups g Q)))"
    unfolding single_pairs_groups map_concat map_map
  proof (rule distinct_concat_keyed [where key = f])
    show "f x = k" if "x \<in> set ((map fst \<circ> pairs_at f P g Q) k)" for k x using that fst by auto
  qed (simp_all only: o_apply distinct_pairs_at distinct_remdups)
  show "distinct (map snd (single_pairs (index_groups f P) (index_groups g Q)))"
    unfolding single_pairs_groups map_concat map_map
  proof (rule distinct_concat_keyed [where key = g])
    show "g x = k" if "x \<in> set ((map snd \<circ> pairs_at f P g Q) k)" for k x using that snd by auto
  qed (simp_all only: o_apply distinct_pairs_at distinct_remdups)
qed

subsection \<open>Relocations\<close>

abbreviation row_match :: "indexed_row \<Rightarrow> int \<times> int \<times> ustr" where
  "row_match r \<equiv> match_key (ix_size r) (ix_mtime r) (ix_scan_key r)"

abbreviation entry_match :: "stat_entry \<Rightarrow> int \<times> int \<times> ustr" where
  "entry_match e \<equiv> match_key (sn_size e) (sn_mtime e) (sn_scan_key e)"

definition row_places :: "indexed_row list \<Rightarrow> nat list" where
  "row_places rows = filter (\<lambda>i. observed (ix_size (rows ! i)) (ix_mtime (rows ! i))) [0..<length rows]"

definition entry_places :: "stat_entry list \<Rightarrow> nat list" where
  "entry_places es = filter (\<lambda>j. observed (sn_size (es ! j)) (sn_mtime (es ! j))) [0..<length es]"

definition group_matches :: "indexed_row list \<Rightarrow> stat_entry list \<Rightarrow> int \<times> int \<times> ustr \<Rightarrow> (nat \<times> nat) list" where
  "group_matches rows es k =
     (let rg = filter (\<lambda>i. row_match (rows ! i) = k) (row_places rows);
          ng = filter (\<lambda>j. entry_match (es ! j) = k) (entry_places es)
      in if ng = [] then [] else case (rg, ng) of ([r], [n]) \<Rightarrow> [(r, n)] | _ \<Rightarrow> push_stem_matches rows es rg ng)"

lemma match_moved_groups:
  "match_moved_files rows es = concat (map (group_matches rows es) (remdups (map (\<lambda>i. row_match (rows ! i)) (row_places rows))))"
proof -
  have "(case map_of (index_groups (\<lambda>j. entry_match (es ! j)) (entry_places es)) k of
        None \<Rightarrow> [] | Some ng \<Rightarrow> (case (rg, ng) of ([r], [n]) \<Rightarrow> [(r, n)] | _ \<Rightarrow> push_stem_matches rows es rg ng)) =
      (let ng = filter (\<lambda>j. entry_match (es ! j) = k) (entry_places es)
       in if ng = [] then [] else case (rg, ng) of ([r], [n]) \<Rightarrow> [(r, n)] | _ \<Rightarrow> push_stem_matches rows es rg ng)" for k rg
  proof -
    have "filter (\<lambda>j. entry_match (es ! j) = k) (entry_places es) = [] \<longleftrightarrow> k \<notin> (\<lambda>j. entry_match (es ! j)) ` set (entry_places es)"
      by (auto simp: filter_empty_conv)
    then show ?thesis unfolding map_of_index_groups Let_def by simp
  qed
  then show ?thesis
    unfolding match_moved_files_def row_places_def [symmetric] entry_places_def [symmetric] Let_def
      index_groups_def [of "\<lambda>i. row_match (rows ! i)"] group_matches_def [abs_def]
    by (simp add: o_def Let_def)
qed

definition unmistakable :: "indexed_row list \<Rightarrow> stat_entry list \<Rightarrow> indexed_row \<Rightarrow> stat_entry \<Rightarrow> bool" where
  "unmistakable rows es r e \<longleftrightarrow>
     length (filter (\<lambda>r'. row_match r' = row_match r) rows) = 1 \<and> length (filter (\<lambda>e'. entry_match e' = entry_match e) es) = 1 \<or>
     path_stem (ix_scan_key r) = path_stem (sn_scan_key e) \<and>
     length (filter (\<lambda>r'. row_match r' = row_match r \<and> path_stem (ix_scan_key r') = path_stem (ix_scan_key r)) rows) = 1 \<and>
     length (filter (\<lambda>e'. entry_match e' = entry_match e \<and> path_stem (sn_scan_key e') = path_stem (sn_scan_key e)) es) = 1"

lemma length_filter_nth: "length (filter (\<lambda>i. P (xs ! i)) [0..<length xs]) = length (filter P xs)"
proof -
  have "map ((!) xs) (filter (\<lambda>i. P (xs ! i)) [0..<length xs]) = filter P (map ((!) xs) [0..<length xs])"
    by (simp add: filter_map o_def)
  also have "\<dots> = filter P xs" by (simp add: map_nth)
  finally show ?thesis by (metis length_map)
qed

lemma row_places_same:
  "observed (fst k) (fst (snd k)) \<Longrightarrow>
   length (filter (\<lambda>i. row_match (rows ! i) = k \<and> Q (rows ! i)) (row_places rows)) = length (filter (\<lambda>r. row_match r = k \<and> Q r) rows)"
proof -
  assume "observed (fst k) (fst (snd k))"
  then have "filter (\<lambda>i. row_match (rows ! i) = k \<and> Q (rows ! i)) (row_places rows) =
      filter (\<lambda>i. row_match (rows ! i) = k \<and> Q (rows ! i)) [0..<length rows]"
    unfolding row_places_def filter_filter by (intro filter_cong) (auto simp: match_key_def)
  then show ?thesis using length_filter_nth [of "\<lambda>r. row_match r = k \<and> Q r" rows] by simp
qed

lemma entry_places_same:
  "observed (fst k) (fst (snd k)) \<Longrightarrow>
   length (filter (\<lambda>i. entry_match (es ! i) = k \<and> Q (es ! i)) (entry_places es)) = length (filter (\<lambda>r. entry_match r = k \<and> Q r) es)"
proof -
  assume "observed (fst k) (fst (snd k))"
  then have "filter (\<lambda>i. entry_match (es ! i) = k \<and> Q (es ! i)) (entry_places es) =
      filter (\<lambda>i. entry_match (es ! i) = k \<and> Q (es ! i)) [0..<length es]"
    unfolding entry_places_def filter_filter by (intro filter_cong) (auto simp: match_key_def)
  then show ?thesis using length_filter_nth [of "\<lambda>r. entry_match r = k \<and> Q r" es] by simp
qed

lemma row_places_mem: "i \<in> set (row_places rows) \<longleftrightarrow> i < length rows \<and> observed (ix_size (rows ! i)) (ix_mtime (rows ! i))"
  by (simp add: row_places_def)

lemma entry_places_mem: "i \<in> set (entry_places es) \<longleftrightarrow> i < length es \<and> observed (sn_size (es ! i)) (sn_mtime (es ! i))"
  by (simp add: entry_places_def)

lemma group_matches_mem:
  assumes "(r, n) \<in> set (group_matches rows es k)"
  shows "r \<in> set (row_places rows) \<and> row_match (rows ! r) = k \<and> n \<in> set (entry_places es) \<and> entry_match (es ! n) = k \<and>
    unmistakable rows es (rows ! r) (es ! n)"
proof -
  let ?rg = "filter (\<lambda>i. row_match (rows ! i) = k) (row_places rows)"
  let ?ng = "filter (\<lambda>j. entry_match (es ! j) = k) (entry_places es)"
  consider "?rg = [r]" "?ng = [n]" | "(r, n) \<in> set (push_stem_matches rows es ?rg ?ng)"
    using assms unfolding group_matches_def Let_def by (auto split: if_splits list.splits prod.splits)
  then show ?thesis
  proof cases
    case 1
    have r: "r \<in> set (row_places rows)" "row_match (rows ! r) = k" using filter_single [OF 1(1)] by simp_all
    have n: "n \<in> set (entry_places es)" "entry_match (es ! n) = k" using filter_single [OF 1(2)] by simp_all
    have ob: "observed (fst k) (fst (snd k))" using r by (auto simp: row_places_mem match_key_def)
    have "length (filter (\<lambda>r'. row_match r' = k) rows) = 1" "length (filter (\<lambda>e'. entry_match e' = k) es) = 1"
      using row_places_same [OF ob, of rows "\<lambda>_. True"] entry_places_same [OF ob, of es "\<lambda>_. True"] 1 by simp_all
    then have "unmistakable rows es (rows ! r) (es ! n)" unfolding unmistakable_def r(2) n(2) by blast
    with r n show ?thesis by blast
  next
    case 2
    let ?s = "path_stem (ix_scan_key (rows ! r))"
    from 2 have f: "filter (\<lambda>i. path_stem (ix_scan_key (rows ! i)) = ?s) ?rg = [r]"
      "filter (\<lambda>j. path_stem (sn_scan_key (es ! j)) = ?s) ?ng = [n]"
      unfolding push_stem_matches_def single_pairs_mem by simp_all
    have r: "r \<in> set (row_places rows)" "row_match (rows ! r) = k" using filter_single [OF f(1)] by simp_all
    have n: "n \<in> set (entry_places es)" "entry_match (es ! n) = k" and s: "path_stem (sn_scan_key (es ! n)) = ?s"
      using filter_single [OF f(2)] by simp_all
    have ob: "observed (fst k) (fst (snd k))" using r by (auto simp: row_places_mem match_key_def)
    have "length (filter (\<lambda>r'. row_match r' = k \<and> path_stem (ix_scan_key r') = ?s) rows) = 1"
      "length (filter (\<lambda>e'. entry_match e' = k \<and> path_stem (sn_scan_key e') = ?s) es) = 1"
      using row_places_same [OF ob, of rows "\<lambda>r'. path_stem (ix_scan_key r') = ?s"]
        entry_places_same [OF ob, of es "\<lambda>e'. path_stem (sn_scan_key e') = ?s"] f by (simp_all add: filter_filter conj_commute)
    then have "unmistakable rows es (rows ! r) (es ! n)" unfolding unmistakable_def r(2) n(2) s by blast
    with r n show ?thesis by blast
  qed
qed

lemma group_matches_distinct: "distinct (map fst (group_matches rows es k))" "distinct (map snd (group_matches rows es k))"
proof -
  have "distinct (map fst (if ng = [] then [] else case (rg, ng) of ([r], [n]) \<Rightarrow> [(r, n)] | _ \<Rightarrow> push_stem_matches rows es rg ng)) \<and>
      distinct (map snd (if ng = [] then [] else case (rg, ng) of ([r], [n]) \<Rightarrow> [(r, n)] | _ \<Rightarrow> push_stem_matches rows es rg ng))" for rg ng
    using single_pairs_distinct unfolding push_stem_matches_def by (auto split: list.split)
  then show "distinct (map fst (group_matches rows es k))" "distinct (map snd (group_matches rows es k))"
    unfolding group_matches_def Let_def by blast+
qed

lemma match_moved_mem:
  assumes "(r, n) \<in> set (match_moved_files rows es)"
  shows "r < length rows" "n < length es" "row_match (rows ! r) = entry_match (es ! n)"
    "observed (sn_size (es ! n)) (sn_mtime (es ! n))" "unmistakable rows es (rows ! r) (es ! n)"
proof -
  from assms obtain k where "(r, n) \<in> set (group_matches rows es k)"
    unfolding match_moved_groups set_concat set_map by blast
  from group_matches_mem [OF this]
  show "r < length rows" "n < length es" "row_match (rows ! r) = entry_match (es ! n)"
    "observed (sn_size (es ! n)) (sn_mtime (es ! n))" "unmistakable rows es (rows ! r) (es ! n)"
    by (simp_all add: row_places_mem entry_places_mem)
qed

lemma match_moved_distinct:
  "distinct (map fst (match_moved_files rows es))" "distinct (map snd (match_moved_files rows es))"
proof -
  show "distinct (map fst (match_moved_files rows es))"
    unfolding match_moved_groups map_concat map_map
  proof (rule distinct_concat_keyed [where key = "\<lambda>i. row_match (rows ! i)"])
    show "row_match (rows ! x) = k" if "x \<in> set ((map fst \<circ> group_matches rows es) k)" for k x
      using that group_matches_mem [of x _ rows es k] by force
  qed (simp_all only: o_apply group_matches_distinct distinct_remdups)
  show "distinct (map snd (match_moved_files rows es))"
    unfolding match_moved_groups map_concat map_map
  proof (rule distinct_concat_keyed [where key = "\<lambda>j. entry_match (es ! j)"])
    show "entry_match (es ! x) = k" if "x \<in> set ((map snd \<circ> group_matches rows es) k)" for k x
      using that group_matches_mem [of _ x rows es k] by force
  qed (simp_all only: o_apply group_matches_distinct distinct_remdups)
qed

subsection \<open>The buckets\<close>

abbreviation seen :: "stat_entry list \<Rightarrow> stat_entry list" where
  "seen disk \<equiv> by_key sn_scan_key disk"

definition row_of :: "indexed_row list \<Rightarrow> stat_entry \<Rightarrow> indexed_row option" where
  "row_of db e = lookup ix_scan_key (by_key ix_scan_key db) (sn_scan_key e)"

text \<open>A file the writer need not read: its row is as it is on disk, or has only its stat to learn.\<close>

definition never_seen :: "indexed_row \<Rightarrow> bool" where
  "never_seen row \<longleftrightarrow> ix_mtime row = 0 \<and> ix_size row = 0"

definition backfills :: "indexed_row list \<Rightarrow> stat_entry \<Rightarrow> bool" where
  "backfills db e \<longleftrightarrow> (case row_of db e of Some row \<Rightarrow> ix_has_file row \<and> never_seen row | None \<Rightarrow> False)"

definition matches_row :: "indexed_row list \<Rightarrow> stat_entry \<Rightarrow> bool" where
  "matches_row db e \<longleftrightarrow>
     (case row_of db e of
        Some row \<Rightarrow> ix_has_file row \<and> \<not> never_seen row \<and> ix_mtime row = sn_mtime e \<and> ix_size row = sn_size e
      | None \<Rightarrow> False)"

definition settled :: "indexed_row list \<Rightarrow> stat_entry \<Rightarrow> bool" where
  "settled db e \<longleftrightarrow> backfills db e \<or> matches_row db e"

definition arrived :: "stat_entry list \<Rightarrow> indexed_row list \<Rightarrow> stat_entry list" where
  "arrived disk db = filter (\<lambda>e. row_of db e = None) (seen disk)"

definition departed :: "stat_entry list \<Rightarrow> indexed_row list \<Rightarrow> bool \<Rightarrow> indexed_row list" where
  "departed disk db trustworthy = collect_departures db (seen disk) trustworthy"

lemma classify_fold:
  "fold (classify_arrival (by_key ix_scan_key db) root) es (out, arr) =
   (out\<lparr>rd_changed := rd_changed out @ map (parse_target_of root) (filter (\<lambda>e. row_of db e \<noteq> None \<and> \<not> settled db e) es),
        rd_backfill := rd_backfill out @ map (\<lambda>e. (ix_uuid (the (row_of db e)), sn_mtime e, sn_size e)) (filter (backfills db) es),
        rd_unchanged := rd_unchanged out @ map (\<lambda>e. ix_uuid (the (row_of db e))) (filter (matches_row db) es)\<rparr>,
    arr @ filter (\<lambda>e. row_of db e = None) es)"
proof (induction es arbitrary: out arr)
  case (Cons e es)
  note defs = classify_arrival_def row_of_def [symmetric]
  show ?case
  proof (cases "row_of db e")
    case None
    then have "classify_arrival (by_key ix_scan_key db) root e (out, arr) = (out, arr @ [e])" by (simp add: defs)
    moreover have "\<not> backfills db e" "\<not> matches_row db e" "\<not> settled db e"
      using None by (simp_all add: settled_def backfills_def matches_row_def)
    ultimately show ?thesis by (simp add: Cons.IH None)
  next
    case (Some row)
    consider (fill) "ix_has_file row" "never_seen row"
      | (same) "ix_has_file row" "\<not> never_seen row" "ix_mtime row = sn_mtime e" "ix_size row = sn_size e"
      | (changed) "\<not> ix_has_file row \<or> \<not> never_seen row \<and> \<not> (ix_mtime row = sn_mtime e \<and> ix_size row = sn_size e)"
      by blast
    then show ?thesis
    proof cases
      case fill
      then have "classify_arrival (by_key ix_scan_key db) root e (out, arr) =
          (out\<lparr>rd_backfill := rd_backfill out @ [(ix_uuid row, sn_mtime e, sn_size e)]\<rparr>, arr)"
        by (simp add: defs Some never_seen_def)
      moreover have "backfills db e" "\<not> matches_row db e" "settled db e"
        using Some fill by (simp_all add: settled_def backfills_def matches_row_def)
      ultimately show ?thesis by (simp add: Cons.IH Some)
    next
      case same
      then have "classify_arrival (by_key ix_scan_key db) root e (out, arr) =
          (out\<lparr>rd_unchanged := rd_unchanged out @ [ix_uuid row]\<rparr>, arr)"
        by (auto simp: defs Some never_seen_def)
      moreover have "\<not> backfills db e" "matches_row db e" "settled db e"
        using Some same by (simp_all add: settled_def backfills_def matches_row_def)
      ultimately show ?thesis by (simp add: Cons.IH Some)
    next
      case changed
      then have "classify_arrival (by_key ix_scan_key db) root e (out, arr) =
          (out\<lparr>rd_changed := rd_changed out @ [parse_target_of root e]\<rparr>, arr)"
        by (auto simp: defs Some never_seen_def)
      moreover have "\<not> backfills db e" "\<not> matches_row db e" "\<not> settled db e"
        using Some changed by (auto simp: settled_def backfills_def matches_row_def)
      ultimately show ?thesis by (simp add: Cons.IH Some)
    qed
  qed
qed simp

lemma diff_buckets:
  fixes disk db root trustworthy
  defines "d \<equiv> diff_library disk db root trustworthy" and "D \<equiv> departed disk db trustworthy" and "A \<equiv> arrived disk db"
  shows "mset (rd_new d) = mset (map (\<lambda>j. parse_target_of root (A ! j)) (filter (\<lambda>j. j \<notin> snd ` set (match_moved_files D A)) [0..<length A]))"
    "mset (rd_removed d) = mset (map (\<lambda>i. ix_uuid (D ! i)) (filter (\<lambda>i. i \<notin> fst ` set (match_moved_files D A)) [0..<length D]))"
    "mset (rd_moved d) = mset (map (\<lambda>(r, n). \<lparr>mv_uuid = ix_uuid (D ! r), mv_filename = sn_filename (A ! n)\<rparr>) (match_moved_files D A))"
    "mset (rd_changed d) = mset (map (parse_target_of root) (filter (\<lambda>e. row_of db e \<noteq> None \<and> \<not> settled db e) (seen disk)))"
    "mset (rd_backfill d) = mset (map (\<lambda>e. (ix_uuid (the (row_of db e)), sn_mtime e, sn_size e)) (filter (backfills db) (seen disk)))"
    "mset (rd_unchanged d) = mset (map (\<lambda>e. ix_uuid (the (row_of db e))) (filter (matches_row db) (seen disk)))"
  unfolding d_def diff_library_def Let_def classify_arrivals_def classify_fold
  by (simp_all add: sort_buckets_def split_moved_def Let_def no_diff_def D_def A_def departed_def arrived_def)

lemma mset_taken_out:
  "distinct xs \<Longrightarrow> set xs \<subseteq> {0..<n} \<Longrightarrow> mset (map f xs) + mset (map f (filter (\<lambda>i. i \<notin> set xs) [0..<n])) = mset (map f [0..<n])"
proof -
  assume xs: "distinct xs" "set xs \<subseteq> {0..<n}"
  have "mset (xs @ filter (\<lambda>i. i \<notin> set xs) [0..<n]) = mset [0..<n]"
  proof (subst set_eq_iff_mset_eq_distinct [symmetric])
    show "distinct (xs @ filter (\<lambda>i. i \<notin> set xs) [0..<n])" using xs(1) by auto
    show "set (xs @ filter (\<lambda>i. i \<notin> set xs) [0..<n]) = set [0..<n]" using xs(2) by auto
  qed simp
  from arg_cong [OF this, of "image_mset f"] show ?thesis by simp
qed

lemma map_nth_all: "map (\<lambda>i. f (xs ! i)) [0..<length xs] = map f xs"
  by (rule nth_equalityI) simp_all

lemma mset_map_of: "mset ys = mset (map f xs) \<Longrightarrow> mset (map g ys) = mset (map (\<lambda>x. g (f x)) xs)"
proof -
  assume "mset ys = mset (map f xs)"
  then have "mset (map g ys) = mset (map g (map f xs))" by (simp only: mset_map)
  then show ?thesis by (simp only: list.map_comp o_def)
qed

lemma pt_filename_target [simp]: "pt_filename (parse_target_of root e) = sn_filename e"
  by (simp add: parse_target_of_def)

lemma moved_and_rest:
  fixes disk db trustworthy
  defines "D \<equiv> departed disk db trustworthy" and "A \<equiv> arrived disk db"
  shows "mset (map (f \<circ> (!) D) (map fst (match_moved_files D A))) +
      mset (map (f \<circ> (!) D) (filter (\<lambda>i. i \<notin> fst ` set (match_moved_files D A)) [0..<length D])) = mset (map f D)"
    "mset (map (g \<circ> (!) A) (map snd (match_moved_files D A))) +
      mset (map (g \<circ> (!) A) (filter (\<lambda>j. j \<notin> snd ` set (match_moved_files D A)) [0..<length A])) = mset (map g A)"
proof -
  have "set (map fst (match_moved_files D A)) \<subseteq> {0..<length D}" "set (map snd (match_moved_files D A)) \<subseteq> {0..<length A}"
    using match_moved_mem(1,2) [of _ _ D A] by fastforce+
  from mset_taken_out [OF match_moved_distinct(1) this(1), of "f \<circ> (!) D"]
    mset_taken_out [OF match_moved_distinct(2) this(2), of "g \<circ> (!) A"]
  show "mset (map (f \<circ> (!) D) (map fst (match_moved_files D A))) +
      mset (map (f \<circ> (!) D) (filter (\<lambda>i. i \<notin> fst ` set (match_moved_files D A)) [0..<length D])) = mset (map f D)"
    "mset (map (g \<circ> (!) A) (map snd (match_moved_files D A))) +
      mset (map (g \<circ> (!) A) (filter (\<lambda>j. j \<notin> snd ` set (match_moved_files D A)) [0..<length A])) = mset (map g A)"
    using map_nth_all [of f D] map_nth_all [of g A] by (simp_all add: o_def)
qed

text \<open>
  C12: the six buckets account for everything: each file the walk saw is, once, among the new, the
  changed, the moved or those whose row is settled (unchanged, or only lacking its stat); each book
  with a file that is not where it was is, once, among the moved or the removed; and without a
  trustworthy walk no book is in either.
\<close>

theorem every_file_has_its_bucket:
  "mset (map pt_filename (rd_new (diff_library disk db root trustworthy))) +
     mset (map pt_filename (rd_changed (diff_library disk db root trustworthy))) +
     mset (map mv_filename (rd_moved (diff_library disk db root trustworthy))) +
     mset (map sn_filename (filter (settled db) (seen disk))) = mset (map sn_filename (seen disk)) \<and>
   mset (rd_unchanged (diff_library disk db root trustworthy)) +
     mset (map fst (rd_backfill (diff_library disk db root trustworthy))) =
     mset (map (\<lambda>e. ix_uuid (the (row_of db e))) (filter (settled db) (seen disk))) \<and>
   mset (map mv_uuid (rd_moved (diff_library disk db root trustworthy))) +
     mset (rd_removed (diff_library disk db root trustworthy)) =
     mset (if trustworthy then map ix_uuid
       (filter (\<lambda>r. ix_scan_key r \<noteq> [] \<and> ix_has_file r \<and> ix_scan_key r \<notin> sn_scan_key ` set disk) db) else [])"
proof -
  let ?d = "diff_library disk db root trustworthy" and ?D = "departed disk db trustworthy" and ?A = "arrived disk db"
  let ?M = "match_moved_files ?D ?A"
  note b = diff_buckets [of disk db root trustworthy]
  have new: "mset (map pt_filename (rd_new ?d)) = mset (map (sn_filename \<circ> (!) ?A) (filter (\<lambda>j. j \<notin> snd ` set ?M) [0..<length ?A]))"
    using mset_map_of [OF b(1), of pt_filename] by (simp only: pt_filename_target o_def)
  have changed: "mset (map pt_filename (rd_changed ?d)) =
      mset (map sn_filename (filter (\<lambda>e. row_of db e \<noteq> None \<and> \<not> settled db e) (seen disk)))"
    using mset_map_of [OF b(4), of pt_filename] by (simp only: pt_filename_target)
  have moved: "mset (map mv_filename (rd_moved ?d)) = mset (map (sn_filename \<circ> (!) ?A) (map snd ?M))"
    "mset (map mv_uuid (rd_moved ?d)) = mset (map (ix_uuid \<circ> (!) ?D) (map fst ?M))"
    using mset_map_of [OF b(3), of mv_filename] mset_map_of [OF b(3), of mv_uuid]
    by (simp_all only: case_prod_unfold moved_file.simps list.map_comp o_def)
  have nm: "mset (map pt_filename (rd_new ?d)) + mset (map mv_filename (rd_moved ?d)) = mset (map sn_filename ?A)"
    unfolding new moved using moved_and_rest(2) [where disk = disk and db = db and trustworthy = trustworthy and g = sn_filename]
    by (simp only: add.commute)
  have "mset (map sn_filename (filter (\<lambda>e. row_of db e = None) es)) +
      mset (map sn_filename (filter (\<lambda>e. row_of db e \<noteq> None \<and> \<not> settled db e) es)) +
      mset (map sn_filename (filter (settled db) es)) = mset (map sn_filename es)" for es
  proof (induction es)
    case (Cons e es)
    have "settled db e \<Longrightarrow> row_of db e \<noteq> None"
      by (auto simp: settled_def backfills_def matches_row_def split: option.splits)
    with Cons show ?case by (cases "row_of db e = None"; cases "settled db e") (simp_all del: not_None_eq)
  qed simp
  note part = this [of "seen disk", folded arrived_def changed]
  have files: "mset (map pt_filename (rd_new ?d)) + mset (map pt_filename (rd_changed ?d)) +
      mset (map mv_filename (rd_moved ?d)) + mset (map sn_filename (filter (settled db) (seen disk))) = mset (map sn_filename (seen disk))"
    unfolding part [symmetric] nm [symmetric] by (simp only: ac_simps)
  have "mset (map h (filter (matches_row db) es)) + mset (map h (filter (backfills db) es)) = mset (map h (filter (settled db) es))"
    for h :: "stat_entry \<Rightarrow> ustr" and es
    by (induction es) (auto simp: settled_def backfills_def matches_row_def split: option.splits)
  from this [of "\<lambda>e. ix_uuid (the (row_of db e))" "seen disk"]
  have kept: "mset (rd_unchanged ?d) + mset (map fst (rd_backfill ?d)) =
      mset (map (\<lambda>e. ix_uuid (the (row_of db e))) (filter (settled db) (seen disk)))"
    using b(6) mset_map_of [OF b(5), of fst] by (simp only: fst_conv)
  have "mset (rd_removed ?d) = mset (map (ix_uuid \<circ> (!) ?D) (filter (\<lambda>i. i \<notin> fst ` set ?M) [0..<length ?D]))"
    using b(2) by (simp add: o_def)
  then have "mset (map mv_uuid (rd_moved ?d)) + mset (rd_removed ?d) = mset (map ix_uuid ?D)"
    unfolding moved using moved_and_rest(1) [where disk = disk and db = db and trustworthy = trustworthy and f = ix_uuid] by simp
  moreover have "?D = (if trustworthy then filter (\<lambda>r. ix_scan_key r \<noteq> [] \<and> ix_has_file r \<and> ix_scan_key r \<notin> sn_scan_key ` set disk) db else [])"
    unfolding departed_def collect_departures_def lookup_None by_key_keys by (auto intro!: filter_cong)
  ultimately show ?thesis using files kept by simp
qed

lemma moves_among_departed:
  "set (rd_moved (diff_library disk db root trustworthy)) \<subseteq>
   {\<lparr>mv_uuid = ix_uuid r, mv_filename = sn_filename e\<rparr> | r e.
     r \<in> set (departed disk db trustworthy) \<and> e \<in> set (arrived disk db) \<and>
     ix_size r = sn_size e \<and> ix_mtime r = sn_mtime e \<and> path_format (ix_scan_key r) = path_format (sn_scan_key e) \<and>
     observed (sn_size e) (sn_mtime e) \<and> unmistakable (departed disk db trustworthy) (arrived disk db) r e}"
proof
  let ?D = "departed disk db trustworthy" and ?A = "arrived disk db"
  fix m assume "m \<in> set (rd_moved (diff_library disk db root trustworthy))"
  then have "m \<in> set (map (\<lambda>(r, n). \<lparr>mv_uuid = ix_uuid (?D ! r), mv_filename = sn_filename (?A ! n)\<rparr>) (match_moved_files ?D ?A))"
    using mset_eq_setD [OF diff_buckets(3) [of disk db root trustworthy]] by blast
  then obtain r n where rn: "(r, n) \<in> set (match_moved_files ?D ?A)"
    and m: "m = \<lparr>mv_uuid = ix_uuid (?D ! r), mv_filename = sn_filename (?A ! n)\<rparr>" by auto
  note mm = match_moved_mem [OF rn]
  have "ix_size (?D ! r) = sn_size (?A ! n)" "ix_mtime (?D ! r) = sn_mtime (?A ! n)"
    "path_format (ix_scan_key (?D ! r)) = path_format (sn_scan_key (?A ! n))"
    using mm(3) by (simp_all add: match_key_def)
  with mm m nth_mem [OF mm(1)] nth_mem [OF mm(2)]
  show "m \<in> {\<lparr>mv_uuid = ix_uuid r, mv_filename = sn_filename e\<rparr> | r e.
     r \<in> set ?D \<and> e \<in> set ?A \<and> ix_size r = sn_size e \<and> ix_mtime r = sn_mtime e \<and>
     path_format (ix_scan_key r) = path_format (sn_scan_key e) \<and> observed (sn_size e) (sn_mtime e) \<and> unmistakable ?D ?A r e}"
    by blast
qed

text \<open>
  C13: a relocation is read into a book and a file only when the book's file is gone, the file is new,
  both have the same size, time and format, were really observed, and nothing else that left or came
  could be meant: each is the only one of its kind, or the only one of its name among its kind.
\<close>

theorem moves_are_unmistakable:
  "set (rd_moved (diff_library disk db root trustworthy)) \<subseteq>
   {\<lparr>mv_uuid = ix_uuid r, mv_filename = sn_filename e\<rparr> | r e.
     r \<in> set (departed disk db trustworthy) \<and> e \<in> set (arrived disk db) \<and>
     ix_size r = sn_size e \<and> ix_mtime r = sn_mtime e \<and> path_format (ix_scan_key r) = path_format (sn_scan_key e) \<and>
     observed (sn_size e) (sn_mtime e) \<and> unmistakable (departed disk db trustworthy) (arrived disk db) r e}"
  by (rule moves_among_departed)

lemma none_departed:
  "departed disk db trustworthy = [] \<Longrightarrow>
   rd_removed (diff_library disk db root trustworthy) = [] \<and> rd_moved (diff_library disk db root trustworthy) = []"
proof -
  assume none: "departed disk db trustworthy = []"
  then have "mset (rd_removed (diff_library disk db root trustworthy)) = {#}"
    using diff_buckets(2) [of disk db root trustworthy] by simp
  moreover have "rd_moved (diff_library disk db root trustworthy) = []"
    using moves_among_departed [of disk db root trustworthy] none
    by (cases "rd_moved (diff_library disk db root trustworthy)") auto
  ultimately show ?thesis by simp
qed

lemma untrusted_diff: "rd_removed (diff_library disk db root False) = [] \<and> rd_moved (diff_library disk db root False) = []"
  by (rule none_departed) (simp add: departed_def collect_departures_def)

text \<open>
  C39: a reindex that goes ahead removes and moves no book if the walk was cut short or found nothing at
  all where the database holds files, and else removes at most ten books or a fifth of those with a
  file.
\<close>

theorem blind_scans_remove_nothing:
  assumes "diff_phase scan db root = Inr d"
  shows "(ss_incomplete scan \<or> \<not> ss_saw_any_file scan \<and> list_ex ix_has_file db \<longrightarrow> rd_removed d = [] \<and> rd_moved d = []) \<and>
    (length (rd_removed d) \<le> 10 \<or> 5 * length (rd_removed d) \<le> length (filter ix_has_file db))"
proof
  let ?t = "enumeration_is_trustworthy (ss_incomplete scan) (ss_saw_any_file scan) (length (filter ix_has_file db) > 0)"
  have d: "d = diff_library (ss_entries scan) db root ?t"
    and c: "check_mass_missing (length (rd_removed d)) (length (filter ix_has_file db)) = Inr ()"
    using assms by (auto simp: diff_phase_def Let_def and_then_def split: sum.splits)
  show "ss_incomplete scan \<or> \<not> ss_saw_any_file scan \<and> list_ex ix_has_file db \<longrightarrow> rd_removed d = [] \<and> rd_moved d = []"
  proof
    assume "ss_incomplete scan \<or> \<not> ss_saw_any_file scan \<and> list_ex ix_has_file db"
    moreover have "list_ex ix_has_file db \<longleftrightarrow> length (filter ix_has_file db) > 0" by (induction db) auto
    ultimately have "?t = False" by (auto simp: enumeration_is_trustworthy_def)
    with d show "rd_removed d = [] \<and> rd_moved d = []" using untrusted_diff by simp
  qed
  show "length (rd_removed d) \<le> 10 \<or> 5 * length (rd_removed d) \<le> length (filter ix_has_file db)"
  proof (cases "filter ix_has_file db = []")
    case True
    then have "departed (ss_entries scan) db ?t = []"
      by (auto simp: departed_def collect_departures_def filter_empty_conv)
    from none_departed [OF this] show ?thesis by (simp add: d)
  next
    case False
    with c show ?thesis by (auto simp: check_mass_missing_def MASS_MISSING_MIN_ABSOLUTE_def split: if_splits)
  qed
qed

definition sample_rows :: "indexed_row list" where
  "sample_rows = [\<lparr>ix_uuid = [1], ix_scan_key = str ''A/one.epub'', ix_has_file = True, ix_mtime = 5, ix_size = 7\<rparr>]"

theorem blind_scans_remove_nothing_witness:
  "(\<exists>d. diff_phase \<lparr>ss_entries = [], ss_incomplete = False, ss_saw_any_file = False\<rparr> sample_rows [47] = Inr d \<and> rd_removed d = []) \<and>
   (\<exists>d. diff_phase \<lparr>ss_entries = [], ss_incomplete = False, ss_saw_any_file = True\<rparr> sample_rows [47] = Inr d \<and>
     rd_removed d = [[1]] \<and> length (rd_removed d) \<le> 10)"
proof -
  have blind: "diff_phase \<lparr>ss_entries = [], ss_incomplete = False, ss_saw_any_file = False\<rparr> sample_rows [47] = Inr no_diff"
    by code_simp
  have empty: "diff_phase \<lparr>ss_entries = [], ss_incomplete = False, ss_saw_any_file = True\<rparr> sample_rows [47] =
      Inr (no_diff\<lparr>rd_removed := [[1]]\<rparr>)" by code_simp
  from blind_scans_remove_nothing [OF blind] have "rd_removed no_diff = []" by (simp add: sample_rows_def)
  with blind empty show ?thesis by (auto simp: no_diff_def)
qed

end
