(* ===== verification/Spec2Isabelle.thy ===== *)
theory Spec2Isabelle
  imports Isbn Conditional Rate_Limit Accounts Worker Http_Auth Request_Rules Progress_Rules Merge_Laws Curation_Rules Calendar_Rules Sitting_Rules Library_Diff_Rules
begin

text \<open>
  A verification development for omnibus, a self-hosted library server written in Rust.

  \<^bold>\<open>The program.\<close> The crate \<open>db\<close> owns a SQLite database and every operation on it: accounts and
  sessions, the books of the scanned libraries, what each reader keeps about them (positions, session
  history, statuses, reviews), requests for books still to come, and a background worker. The crate
  \<open>server\<close> puts HTTP in front: it authenticates, limits rates, answers conditional and range requests
  and hands the rest to \<open>db\<close>. The crate \<open>shared\<close> holds what both and the clients need: wire types,
  validators, dates, ISBNs. A scan walks a library, compares what it saw with the database and writes
  the difference; readers and their devices write positions and sessions; an administrator may merge
  two books into one and undo it.

  \<^bold>\<open>How it is modelled.\<close> A table is the list of its rows, in the order of their insertion, a row a
  record with the table's columns; an SQL statement is a function on these lists (\<open>Omni_Prelude\<close>:
  \<open>update_where\<close>, \<open>delete_where\<close>, \<open>fetch_optional\<close>), a transaction a function into
  \<open>error + database\<close> whose failure leaves the database alone. Text is the list of its Unicode scalar
  values. Integers keep their width where a computation could leave it; where the source's own bounds
  exclude that the theory says so and uses \<open>int\<close> or \<open>nat\<close>. The clock, random values, hashes, and
  third-party parsers are parameters. What several callers may interleave (the worker's runners, a
  poller and the readers, two logins) is a step relation, and its invariants hold in every reachable
  state (locale \<open>invariant_system\<close> of \<open>Omni_Prelude\<close>, interpreted by each of them).

  \<^bold>\<open>The theories.\<close>
  \<^item> \<open>Omni_Prelude\<close>: strings, numbers, results, tables; the locales \<open>invariant_system\<close> and
    \<open>bounded_window\<close>.
  \<^item> \<open>Isbn\<close> (\<open>shared/src/isbn\<close>): both check digits and the rewrite to ISBN-13; what is accepted is
    valid and its own normal form.
  \<^item> \<open>Http_Range\<close> (\<open>shared/src/http_range.rs\<close>) and \<open>Conditional\<close> (\<open>server/src/backend/conditional.rs\<close>):
    range headers over 64-bit lengths, preconditions, the responses. A resumed download is only
    continued where its \<open>If-Range\<close>, tag or date, names the version on disk, and a response announces
    the bytes it carries.
  \<^item> \<open>Rate_Limit\<close> (\<open>server/src/rate_limit.rs\<close>): the limiter refines a fixed window per address.
  \<^item> \<open>Auth_Model\<close>, \<open>Sessions\<close>, \<open>Users\<close>, \<open>Login\<close>, \<open>Accounts\<close> (\<open>db/src/auth\<close>): the auth tables and
    every operation on them, login in its two phases, and the invariants of any run (there is always an
    administrator, names are unique). \<open>Http_Auth\<close> (\<open>server/src/auth\<close>): origin check, gate,
    extractors, impersonation. Whether a handler reads a query token is an argument, as each handler
    fixes it; gate and extractor agree where that is what the gate reads off the path.
  \<^item> \<open>Worker_Tasks\<close>, \<open>Worker\<close> (\<open>db/src/worker\<close>): task keys, progress map, history; the spawned
    futures with keyed mutexes, semaphores, panics and awaiting callers. Tasks of one key exclude each
    other, the worker cannot deadlock, an awaited outcome is the task's own.
  \<^item> \<open>Requests\<close>, \<open>Request_Rules\<close> (\<open>db/src/requests\<close>): requests, their found versions, and the poller
    beside a download client, with the merges, undos and purges of books, deleted accounts and
    restarts that reach the same rows. No download is without a row that answers for it, but for a
    deleted account's, which is shown to be lost; a merge may leave a reader two live requests.
  \<^item> \<open>Progress\<close>, \<open>Progress_Rules\<close> (\<open>db/src/progress\<close>, \<open>db/src/read_status\<close>): positions, the ledger
    of ground covered, statuses, session reports. Devices converge on the newest position that the
    guards of an audiobook let through.
  \<^item> \<open>Merge_Tables\<close>, \<open>Merge_Relocation\<close>, \<open>Merge_Roundtrip\<close>, \<open>Merge_Undo\<close>, \<open>Merge_Laws\<close>
    (\<open>db/src/merge/transaction.rs\<close>, \<open>relocation.rs\<close>): the reader rows of two books become one book's
    and, on undo, two books' again. The record passes through JSON, which rounds the reals of the rows
    that come back from it: what it makes of a real is a parameter (\<open>json_text\<close>). Rows the merge leaves
    on the source on purpose (\<open>MERGE_EXEMPT_TABLES\<close>) are left out. \<open>Merge_Curation\<close>, \<open>Curation_Rules\<close>
    (\<open>db/src/merge/curation\<close>): the same for statuses and reviews, where rows fold field by field.
  \<^item> \<open>Civil_Date\<close>, \<open>Calendar\<close>, \<open>Calendar_Rules\<close> (\<open>shared/src/timestamp.rs\<close>, \<open>db/src/stats/calendar.rs\<close>,
    \<open>patterns.rs\<close>, \<open>db/src/user_offset.rs\<close>): dates and the reader's days, weeks, months and windows.
  \<^item> \<open>Sittings\<close>, \<open>Sitting_Rules\<close> (\<open>db/src/stats\<close>): checkpoints stitched into sittings, streaks, the
    paged session log, who may see it, and the summary cache.
  \<^item> \<open>Library_Diff\<close>, \<open>Library_Diff_Rules\<close> (\<open>db/src/indexer\<close>): the classification of a scan. Every file
    lands in one bucket, a relocation is only read where nothing else could be meant, and a scan that
    did not see the library removes nothing.

  \<^bold>\<open>The lemmas.\<close> Each theory named \<open>_Rules\<close> or \<open>_Laws\<close> begins with the facts its properties share:
  one preservation lemma per operation for an invariant, one commuting lemma per operation for a
  refinement, the effect of each statement on one row for the rest. The properties follow, each under
  a text that states it; a property with a hypothesis has a witness, evaluated on a concrete state.

  \<^bold>\<open>Loops and bounds.\<close> Loops over lists are folds. The recursive query of months is
  \<open>partial_function (option)\<close>, since nothing in its text bounds it, and is proved to end
  (\<open>month_spine_ends\<close>). A client that follows the session log's cursors is given fuel; one request more
  than the log has sittings is shown to be enough (\<open>log_pages_cover_the_log\<close>). That every task of the
  worker ends is a measure that each move decreases (\<open>every_task_comes_to_its_end\<close>).

  \<^bold>\<open>Not modelled.\<close>
  \<^item> Whatever reads or writes files: directory walks, the readers of epub, PDF, comics and audio,
    covers, transcoding. They are I/O around third-party parsers; the operations that use their
    results take them as arguments.
  \<^item> The writer that applies a scan's buckets to the book tables, and the part of a merge that moves
    files, identifiers, links and overrides.
  \<^item> Metadata providers, indexers, download clients, mail: HTTP calls whose answers are theirs. The
    requests' model has the answers of the download client as events.
  \<^item> Positions computed in floating point (cross-format alignment, page estimates) or on parsed HTML
    (Kobo and KOReader positions).
  \<^item> Queries whose meaning is SQLite's own, such as full-text search, collations and browse pages, and
    the plain CRUD of annotations, bookmarks, journals, shelves, covers and settings.
  \<^item> Routing and serialisation of the HTTP backend, OPDS, the separate binaries and the clients in other
    languages.
\<close>

end
